(* ===== verification/Prelude.thy ===== *)
theory Prelude
  imports Main "HOL-Library.Word" "HOL-Library.Char_ord" "HOL-Library.List_Lexorder"
    "HOL-Library.Product_Lexorder"
begin

unbundle bit_operations_syntax

text \<open>
  What the components share: the Go values the sources compute with and the part of
  Go's standard library they call.
  \<^item> Errors. Every \<^verbatim>\<open>fmt.Errorf\<close> of the sources is a value \<open>Errorf format arguments\<close>
    (\<open>Wrapf\<close> when the format ends in \<^verbatim>\<open>%w\<close>), an error made outside the repository is
    \<open>Ext\<close>, a run-time panic is \<open>Panic\<close>. A fallible function returns \<open>error + 'a\<close>.
  \<^item> Integers. \<^verbatim>\<open>int\<close> is 64 bits wide: sums that may overflow go through \<open>wrap64\<close>.
    Unsigned counters are words.
  \<^item> Strings. A Go string is a sequence of bytes, here a list of (8-bit) characters:
    \<open>trim_space\<close>, \<open>to_lower\<close>, \<open>to_upper\<close>, \<open>split_on\<close>, \<open>atoi\<close>, \<open>itoa\<close>, \<open>sscanf_d\<close>
    follow \<^verbatim>\<open>strings\<close>, \<^verbatim>\<open>strconv\<close> and \<^verbatim>\<open>fmt\<close>.
\<close>

named_theorems go_lib \<open>evaluation facts of the modelled part of Go's library\<close>
named_theorems go_inv \<open>operations that keep the invariant of their component\<close>

section \<open>Errors and results\<close>

datatype error =
    Errorf string "string list"
  | Wrapf string "string list" error
  | Ext string
  | Panic string

type_synonym 'a res = "error + 'a"

definition is_err :: "'a res \<Rightarrow> bool" where
  "is_err r = (case r of Inl _ \<Rightarrow> True | Inr _ \<Rightarrow> False)"

lemma is_err_simps [simp]: "is_err (Inl e)" "\<not> is_err (Inr x)"
  by (simp_all add: is_err_def)

lemma not_is_err_iff: "\<not> is_err r \<longleftrightarrow> (\<exists>x. r = Inr x)"
  by (cases r) simp_all

text \<open>
  A loop that builds a list and returns at the first error (\<^verbatim>\<open>for ... { x, err := f(..);
  if err != nil { return nil, err }; out = append(out, x) }\<close>).
\<close>

fun map_res :: "('a \<Rightarrow> 'b res) \<Rightarrow> 'a list \<Rightarrow> 'b list res" where
  "map_res f [] = Inr []"
| "map_res f (x # xs) =
     (case f x of Inl e \<Rightarrow> Inl e
      | Inr y \<Rightarrow> (case map_res f xs of Inl e \<Rightarrow> Inl e | Inr ys \<Rightarrow> Inr (y # ys)))"

lemma map_res_Inr_iff:
  "map_res f xs = Inr ys \<longleftrightarrow> list_all2 (\<lambda>x y. f x = Inr y) xs ys"
proof (induction xs arbitrary: ys)
  case Nil
  then show ?case by auto
next
  case (Cons x xs)
  show ?case
    by (cases "f x"; cases "map_res f xs"; cases ys) (simp_all flip: Cons.IH)
qed

lemma map_res_length: "map_res f xs = Inr ys \<Longrightarrow> length ys = length xs"
  by (auto simp: map_res_Inr_iff dest: list_all2_lengthD)

lemma map_res_set:
  assumes "map_res f xs = Inr ys" and "y \<in> set ys"
  shows "\<exists>x \<in> set xs. f x = Inr y"
  using assms
proof (induction xs arbitrary: ys)
  case Nil
  then show ?case by simp
next
  case (Cons x xs)
  then show ?case by (cases "f x"; cases "map_res f xs") auto
qed

lemma map_res_all_ok: "(\<And>x. x \<in> set xs \<Longrightarrow> f x = Inr (g x)) \<Longrightarrow> map_res f xs = Inr (map g xs)"
  by (induction xs) auto

section \<open>Integers\<close>

definition wrap64 :: "int \<Rightarrow> int" where
  "wrap64 i = (i + 2 ^ 63) mod 2 ^ 64 - 2 ^ 63"

definition int64 :: "int \<Rightarrow> bool" where
  "int64 i = (- (2 ^ 63) \<le> i \<and> i < 2 ^ 63)"

lemma wrap64_id [simp]: "int64 i \<Longrightarrow> wrap64 i = i"
  by (simp add: wrap64_def int64_def)

lemma int64_wrap64 [simp]: "int64 (wrap64 i)"
proof -
  have "0 \<le> (i + 2 ^ 63) mod (2 ^ 64 :: int)" and "(i + 2 ^ 63) mod (2 ^ 64 :: int) < 2 ^ 64"
    by (rule pos_mod_sign, simp) (rule pos_mod_bound, simp)
  then show ?thesis by (simp add: wrap64_def int64_def)
qed

text \<open>Go's \<^verbatim>\<open>%\<close> on \<^verbatim>\<open>int\<close> truncates towards zero; a zero divisor panics, so callers guard it.\<close>

definition go_mod :: "int \<Rightarrow> int \<Rightarrow> int" where
  "go_mod a b = sgn a * (\<bar>a\<bar> mod \<bar>b\<bar>)"

lemma go_mod_nonneg: "0 \<le> a \<Longrightarrow> 0 < b \<Longrightarrow> go_mod a b = a mod b"
  by (cases "a = 0") (auto simp: go_mod_def)

section \<open>Strings\<close>

text \<open>
  The UTF-8 encodings of the runes \<^verbatim>\<open>unicode.IsSpace\<close> accepts. UTF-8 is
  self-synchronising, so stripping an encoding that is a prefix (suffix) of the bytes is
  what decoding the first (last) rune and testing it does, on invalid input too.
\<close>

definition space_runes :: "string list" where
  "space_runes =
     [[CHR 0x20], [CHR 0x09], [CHR 0x0A], [CHR 0x0B], [CHR 0x0C], [CHR 0x0D],
      [CHR 0xC2, CHR 0x85], [CHR 0xC2, CHR 0xA0], [CHR 0xE1, CHR 0x9A, CHR 0x80],
      [CHR 0xE2, CHR 0x80, CHR 0x80], [CHR 0xE2, CHR 0x80, CHR 0x81],
      [CHR 0xE2, CHR 0x80, CHR 0x82], [CHR 0xE2, CHR 0x80, CHR 0x83],
      [CHR 0xE2, CHR 0x80, CHR 0x84], [CHR 0xE2, CHR 0x80, CHR 0x85],
      [CHR 0xE2, CHR 0x80, CHR 0x86], [CHR 0xE2, CHR 0x80, CHR 0x87],
      [CHR 0xE2, CHR 0x80, CHR 0x88], [CHR 0xE2, CHR 0x80, CHR 0x89],
      [CHR 0xE2, CHR 0x80, CHR 0x8A], [CHR 0xE2, CHR 0x80, CHR 0xA8],
      [CHR 0xE2, CHR 0x80, CHR 0xA9], [CHR 0xE2, CHR 0x80, CHR 0xAF],
      [CHR 0xE2, CHR 0x81, CHR 0x9F], [CHR 0xE3, CHR 0x80, CHR 0x80]]"

fun strip_one :: "string list \<Rightarrow> string \<Rightarrow> string option" where
  "strip_one [] s = None"
| "strip_one (p # ps) s =
     (if p \<noteq> [] \<and> take (length p) s = p then Some (drop (length p) s) else strip_one ps s)"

lemma strip_one_shorter: "strip_one ps s = Some s' \<Longrightarrow> length s' < length s"
proof (induction ps)
  case Nil
  then show ?case by simp
next
  case (Cons p ps)
  show ?case
  proof (cases "p \<noteq> [] \<and> take (length p) s = p")
    case True
    then have "s \<noteq> []" and "0 < length p" by auto
    with True Cons.prems show ?thesis by auto
  next
    case False
    with Cons show ?thesis by (auto split: if_splits)
  qed
qed

function strip_all :: "string list \<Rightarrow> string \<Rightarrow> string" where
  "strip_all ps s = (case strip_one ps s of None \<Rightarrow> s | Some s' \<Rightarrow> strip_all ps s')"
  by pat_completeness auto
termination
  by (relation "measure (\<lambda>(ps, s). length s)") (auto simp: strip_one_shorter)

declare strip_all.simps [simp del]

text \<open>\<^verbatim>\<open>strings.TrimSpace\<close>\<close>

definition trim_space :: "string \<Rightarrow> string" where
  "trim_space s = rev (strip_all (map rev space_runes) (rev (strip_all space_runes s)))"

text \<open>A visible character is no byte of a space rune: text made of them is not trimmed.\<close>

definition graphic :: "char \<Rightarrow> bool" where
  "graphic c = (0x21 \<le> (of_char c :: nat) \<and> (of_char c :: nat) \<le> 0x7E)"

lemma strip_one_visible:
  "list_all (\<lambda>p. p \<noteq> [] \<longrightarrow> \<not> graphic (hd p)) ps \<Longrightarrow> s \<noteq> [] \<Longrightarrow> graphic (hd s) \<Longrightarrow> strip_one ps s = None"
proof (induction ps)
  case (Cons p ps)
  have "\<not> (p \<noteq> [] \<and> take (length p) s = p)" using Cons.prems by (cases p; cases s) auto
  with Cons show ?case by auto
qed simp

lemma trim_space_visible: "s \<noteq> [] \<Longrightarrow> graphic (hd s) \<Longrightarrow> graphic (last s) \<Longrightarrow> trim_space s = s"
proof -
  assume s: "s \<noteq> []" "graphic (hd s)" "graphic (last s)"
  have f: "list_all (\<lambda>p. p \<noteq> [] \<longrightarrow> \<not> graphic (hd p)) space_runes"
    and b: "list_all (\<lambda>p. p \<noteq> [] \<longrightarrow> \<not> graphic (hd p)) (map rev space_runes)"
    by (simp_all add: space_runes_def graphic_def)
  from strip_one_visible [OF f s(1,2)] strip_one_visible [OF b, of "rev s"] s show ?thesis
    by (simp add: trim_space_def strip_all.simps hd_rev)
qed

lemma strip_one_graphic:
  assumes "list_all (\<lambda>p. p \<noteq> [] \<longrightarrow> \<not> graphic (hd p)) ps" and "list_all graphic s"
  shows "strip_one ps s = None"
proof (cases "s = []")
  case True
  then show ?thesis by (induction ps) auto
next
  case False
  with assms show ?thesis by (intro strip_one_visible) (auto simp: list_all_iff)
qed

lemma trim_space_graphic [simp]: "list_all graphic s \<Longrightarrow> trim_space s = s"
proof (cases "s = []")
  case True
  have "strip_one ps [] = None" for ps by (induction ps) auto
  with True show ?thesis by (simp add: trim_space_def strip_all.simps)
qed (auto simp: list_all_iff intro: trim_space_visible)

text \<open>
  \<^verbatim>\<open>strings.ToLower\<close> and \<^verbatim>\<open>strings.ToUpper\<close>. The sources only compare their results with
  ASCII words (or test single ASCII letters), so what matters of the Unicode tables is
  which runes map to an ASCII letter: besides A-Z and a-z only the Kelvin sign (to k) and
  the dotted capital I (to i), and the dotless i (to I) and the long s (to S). All other
  non-ASCII bytes are kept: such a string equals no ASCII word before or after.
\<close>

definition lower_char :: "char \<Rightarrow> char" where
  "lower_char c =
     (if 0x41 \<le> (of_char c :: nat) \<and> (of_char c :: nat) \<le> 0x5A
      then char_of ((of_char c :: nat) + 0x20) else c)"

definition upper_char :: "char \<Rightarrow> char" where
  "upper_char c =
     (if 0x61 \<le> (of_char c :: nat) \<and> (of_char c :: nat) \<le> 0x7A
      then char_of ((of_char c :: nat) - 0x20) else c)"

function to_lower :: "string \<Rightarrow> string" where
  "to_lower s =
     (case s of [] \<Rightarrow> []
      | c # cs \<Rightarrow>
          if take 3 s = [CHR 0xE2, CHR 0x84, CHR 0xAA] then CHR ''k'' # to_lower (drop 3 s)
          else if take 2 s = [CHR 0xC4, CHR 0xB0] then CHR ''i'' # to_lower (drop 2 s)
          else lower_char c # to_lower cs)"
  by pat_completeness auto
termination
  by (relation "measure length") auto

function to_upper :: "string \<Rightarrow> string" where
  "to_upper s =
     (case s of [] \<Rightarrow> []
      | c # cs \<Rightarrow>
          if take 2 s = [CHR 0xC4, CHR 0xB1] then CHR ''I'' # to_upper (drop 2 s)
          else if take 2 s = [CHR 0xC5, CHR 0xBF] then CHR ''S'' # to_upper (drop 2 s)
          else upper_char c # to_upper cs)"
  by pat_completeness auto
termination
  by (relation "measure length") auto

declare to_lower.simps [simp del] to_upper.simps [simp del]

lemma to_lower_graphic: "list_all graphic s \<Longrightarrow> to_lower s = map lower_char s"
  by (induction s) (auto simp: to_lower.simps graphic_def)

lemma to_upper_graphic: "list_all graphic s \<Longrightarrow> to_upper s = map upper_char s"
  by (induction s) (auto simp: to_upper.simps graphic_def)

lemma takeWhile_until [simp]: "c \<notin> set xs \<Longrightarrow> takeWhile (\<lambda>x. x \<noteq> c) (xs @ c # ys) = xs"
  by (induction xs) auto

lemma dropWhile_until [simp]: "c \<notin> set xs \<Longrightarrow> dropWhile (\<lambda>x. x \<noteq> c) (xs @ c # ys) = c # ys"
  by (induction xs) auto

text \<open>\<^verbatim>\<open>strings.Split\<close> with a one-byte separator, \<^verbatim>\<open>strings.SplitN(s, c, 2)\<close>, \<^verbatim>\<open>strings.HasPrefix\<close>.\<close>

fun split_on :: "char \<Rightarrow> string \<Rightarrow> string list" where
  "split_on c [] = [[]]"
| "split_on c (x # xs) =
     (if x = c then [] # split_on c xs
      else (case split_on c xs of [] \<Rightarrow> [[x]] | y # ys \<Rightarrow> (x # y) # ys))"

definition split2 :: "char \<Rightarrow> string \<Rightarrow> string \<times> string" where
  "split2 c s = (takeWhile (\<lambda>x. x \<noteq> c) s, tl (dropWhile (\<lambda>x. x \<noteq> c) s))"

definition has_prefix :: "string \<Rightarrow> string \<Rightarrow> bool" where
  "has_prefix s p = (take (length p) s = p)"

lemma split_on_nonempty [simp]: "split_on c s \<noteq> []"
  by (induction s) (auto split: list.splits)

lemma split_on_free: "c \<notin> set s \<Longrightarrow> split_on c s = [s]"
  by (induction s) auto

lemma split_on_append: "c \<notin> set s \<Longrightarrow> split_on c (s @ c # t) = s # split_on c t"
  by (induction s) auto

text \<open>\<open>join_with\<close> is the inverse the parsers are measured against.\<close>

fun join_with :: "char \<Rightarrow> string list \<Rightarrow> string" where
  "join_with c [] = []"
| "join_with c [s] = s"
| "join_with c (s # t # ts) = s @ c # join_with c (t # ts)"

lemma split_on_join:
  "ss \<noteq> [] \<Longrightarrow> (\<And>s. s \<in> set ss \<Longrightarrow> c \<notin> set s) \<Longrightarrow> split_on c (join_with c ss) = ss"
  by (induction c ss rule: join_with.induct) (auto simp: split_on_free split_on_append)

lemma split2_append: "c \<notin> set s \<Longrightarrow> split2 c (s @ c # t) = (s, t)"
  by (simp add: split2_def)

section \<open>Decimal numbers\<close>

definition is_digit :: "char \<Rightarrow> bool" where
  "is_digit c = (48 \<le> (of_char c :: nat) \<and> (of_char c :: nat) \<le> 57)"

definition digit_val :: "char \<Rightarrow> nat" where
  "digit_val c = (of_char c :: nat) - 48"

definition digit_char :: "nat \<Rightarrow> char" where
  "digit_char n = char_of (48 + n)"

definition dec_val :: "string \<Rightarrow> nat" where
  "dec_val s = foldl (\<lambda>a c. a * 10 + digit_val c) 0 s"

fun show_nat :: "nat \<Rightarrow> string" where
  "show_nat n =
     (if n < 10 then [digit_char n] else show_nat (n div 10) @ [digit_char (n mod 10)])"

declare show_nat.simps [simp del]

text \<open>\<^verbatim>\<open>strconv.Itoa\<close> and \<^verbatim>\<open>strconv.Atoi\<close> (64-bit \<^verbatim>\<open>int\<close>).\<close>

definition itoa :: "int \<Rightarrow> string" where
  "itoa i = (if i < 0 then CHR ''-'' # show_nat (nat (- i)) else show_nat (nat i))"

definition signed_dec :: "bool \<Rightarrow> string \<Rightarrow> int option" where
  "signed_dec neg ds =
     (if ds = [] \<or> \<not> list_all is_digit ds then None
      else let v = (if neg then - int (dec_val ds) else int (dec_val ds))
           in if int64 v then Some v else None)"

definition atoi :: "string \<Rightarrow> int option" where
  "atoi s =
     (case s of [] \<Rightarrow> None
      | c # cs \<Rightarrow> if c = CHR ''-'' then signed_dec True cs
                 else if c = CHR ''+'' then signed_dec False cs
                 else signed_dec False s)"

lemma is_digit_digit_char [simp]: "n < 10 \<Longrightarrow> is_digit (digit_char n)"
  by (simp add: is_digit_def digit_char_def)

lemma digit_val_digit_char [simp]: "n < 10 \<Longrightarrow> digit_val (digit_char n) = n"
  by (simp add: digit_val_def digit_char_def)

lemma show_nat_digits: "list_all is_digit (show_nat n)"
proof (induction n rule: show_nat.induct)
  case (1 n)
  show ?case
  proof (cases "n < 10")
    case True
    then show ?thesis by (simp add: show_nat.simps [of n])
  next
    case False
    with 1 show ?thesis by (simp add: show_nat.simps [of n])
  qed
qed

lemma show_nat_nonempty [simp]: "show_nat n \<noteq> []"
  by (subst show_nat.simps) simp

lemma dec_val_snoc: "dec_val (s @ [c]) = dec_val s * 10 + digit_val c"
  by (simp add: dec_val_def)

lemma dec_val_show_nat [simp]: "dec_val (show_nat n) = n"
proof (induction n rule: show_nat.induct)
  case (1 n)
  show ?case
  proof (cases "n < 10")
    case True
    then show ?thesis by (simp add: show_nat.simps [of n] dec_val_def)
  next
    case False
    with 1 show ?thesis by (simp add: show_nat.simps [of n] dec_val_snoc)
  qed
qed

lemma digit_graphic: "is_digit c \<Longrightarrow> graphic c"
  by (simp add: is_digit_def graphic_def)

lemma digit_not_sign: "is_digit c \<Longrightarrow> c \<noteq> CHR ''-'' \<and> c \<noteq> CHR ''+'' \<and> c \<noteq> CHR '','' \<and> c \<noteq> CHR '':''
    \<and> c \<noteq> CHR ''['' \<and> c \<noteq> CHR '']''"
  by (auto simp: is_digit_def)

lemma show_nat_graphic: "list_all graphic (show_nat n)"
  using show_nat_digits [of n] by (auto simp: list_all_iff digit_graphic)

lemma show_nat_free:
  "\<not> is_digit c \<Longrightarrow> c \<notin> set (show_nat n)"
  using show_nat_digits [of n] by (auto simp: list_all_iff)

lemma itoa_nonempty [simp]: "itoa i \<noteq> []"
  by (simp add: itoa_def)

lemma itoa_free: "\<not> is_digit c \<Longrightarrow> c \<noteq> CHR ''-'' \<Longrightarrow> c \<notin> set (itoa i)"
  by (simp add: itoa_def show_nat_free)

lemma itoa_free_nonneg: "\<not> is_digit c \<Longrightarrow> 0 \<le> i \<Longrightarrow> c \<notin> set (itoa i)"
  by (simp add: itoa_def show_nat_free)

lemma itoa_graphic: "list_all graphic (itoa i)"
  by (simp add: itoa_def show_nat_graphic) (simp add: graphic_def)

theorem atoi_itoa [simp]:
  assumes "int64 i"
  shows "atoi (itoa i) = Some i"
proof (cases "i < 0")
  case True
  with assms show ?thesis
    by (simp add: itoa_def atoi_def signed_dec_def show_nat_digits)
next
  case False
  obtain c cs where s: "show_nat (nat i) = c # cs"
    by (cases "show_nat (nat i)") auto
  with show_nat_digits [of "nat i"] have "is_digit c" by simp
  then have "c \<noteq> CHR ''-''" "c \<noteq> CHR ''+''" by (auto dest: digit_not_sign)
  then have "atoi (itoa i) = signed_dec False (show_nat (nat i))"
    using False s by (simp add: itoa_def atoi_def)
  then show ?thesis
    using False assms by (simp add: signed_dec_def show_nat_digits)
qed

text \<open>
  \<^verbatim>\<open>fmt.Sscanf(s, "%d", &n)\<close>: leading space is skipped (a newline is an error), then an
  optional sign and the longest run of digits; what follows the digits is not looked at.
\<close>

function skip_scan_space :: "string \<Rightarrow> string option" where
  "skip_scan_space s =
     (case s of [] \<Rightarrow> Some []
      | c # cs \<Rightarrow>
          if c = CHR 0x0A then None
          else if take 2 s = [CHR 0x0D, CHR 0x0A] then skip_scan_space cs
          else (case strip_one space_runes s of None \<Rightarrow> Some s | Some s' \<Rightarrow> skip_scan_space s'))"
  by pat_completeness auto
termination
  by (relation "measure length") (auto dest: strip_one_shorter)

declare skip_scan_space.simps [simp del]

definition sscanf_d :: "string \<Rightarrow> int option" where
  "sscanf_d s =
     (case skip_scan_space s of None \<Rightarrow> None
      | Some t \<Rightarrow>
          (case t of [] \<Rightarrow> None
           | c # cs \<Rightarrow>
               if c = CHR ''-'' then signed_dec True (takeWhile is_digit cs)
               else if c = CHR ''+'' then signed_dec False (takeWhile is_digit cs)
               else signed_dec False (takeWhile is_digit t)))"

lemma skip_scan_space_graphic: "list_all graphic s \<Longrightarrow> skip_scan_space s = Some s"
proof -
  assume s: "list_all graphic s"
  have f: "list_all (\<lambda>p. p \<noteq> [] \<longrightarrow> \<not> graphic (hd p)) space_runes"
    by (simp add: space_runes_def graphic_def)
  show ?thesis
    using strip_one_graphic [OF f s] s
    by (auto simp: skip_scan_space.simps [of s] graphic_def split: list.splits)
qed

lemma sscanf_d_itoa:
  assumes "int64 i" and "0 \<le> i"
  shows "sscanf_d (itoa i) = Some i"
proof -
  let ?s = "show_nat (nat i)"
  obtain c cs where s: "?s = c # cs" by (cases ?s) auto
  with show_nat_digits [of "nat i"] have c: "is_digit c" by simp
  have tw: "takeWhile is_digit ?s = ?s"
    using show_nat_digits [of "nat i"] by (simp add: list_all_iff)
  show ?thesis
  proof -
    have "sscanf_d (itoa i) = signed_dec False ?s"
      using assms s c tw digit_not_sign [OF c]
        skip_scan_space_graphic [OF show_nat_graphic, of "nat i"]
      by (simp add: itoa_def sscanf_d_def del: takeWhile_eq_all_conv)
    then show ?thesis using assms by (simp add: signed_dec_def show_nat_digits)
  qed
qed

section \<open>Bytes\<close>

type_synonym byte = "8 word"

definition char_byte :: "char \<Rightarrow> byte" where
  "char_byte c = of_nat (of_char c)"

end
