(* ===== verification/Netaddr.thy ===== *)
theory Netaddr
  imports Prelude
begin

text \<open>
  Addresses: the functions of Go's \<^verbatim>\<open>net\<close> package the sources call
  (\<^verbatim>\<open>SplitHostPort\<close>, \<^verbatim>\<open>JoinHostPort\<close>, \<^verbatim>\<open>ParseIP\<close>, \<^verbatim>\<open>IP.To4\<close>, \<^verbatim>\<open>IP.To16\<close>, \<^verbatim>\<open>IP.String\<close>,
  \<^verbatim>\<open>ParseMAC\<close>) and \<^verbatim>\<open>internal/tunneladdr/addr.go\<close>, the address a tunnel stream carries.
\<close>

section \<open>Host and port\<close>

definition addr_error :: "string \<Rightarrow> string \<Rightarrow> error" where
  "addr_error hostport why = Errorf ''address %s: %s'' [hostport, why]"

text \<open>
  \<^verbatim>\<open>net.SplitHostPort\<close>. \<open>front\<close> is the text before the last colon, so its length is the
  index of that colon; \<open>close\<close> is the index of the first closing bracket.
\<close>

definition split_host_port :: "string \<Rightarrow> (string \<times> string) res" where
  "split_host_port s =
     (if CHR '':'' \<notin> set s then Inl (addr_error s ''missing port in address'')
      else
        let port = rev (takeWhile (\<lambda>c. c \<noteq> CHR '':'') (rev s));
            front = rev (tl (dropWhile (\<lambda>c. c \<noteq> CHR '':'') (rev s)))
        in if hd s = CHR ''['' then
             (if CHR '']'' \<notin> set s then Inl (addr_error s ''missing ] in address'')
              else
                let close = length (takeWhile (\<lambda>c. c \<noteq> CHR '']'') s)
                in if close + 1 = length s then Inl (addr_error s ''missing port in address'')
                   else if close + 1 \<noteq> length front then
                     (if s ! (close + 1) = CHR '':''
                      then Inl (addr_error s ''too many colons in address'')
                      else Inl (addr_error s ''missing port in address''))
                   else if CHR ''['' \<in> set (drop 1 s)
                     then Inl (addr_error s ''unexpected [ in address'')
                   else if CHR '']'' \<in> set (drop (close + 1) s)
                     then Inl (addr_error s ''unexpected ] in address'')
                   else Inr (drop 1 (take close s), port))
           else if CHR '':'' \<in> set front then Inl (addr_error s ''too many colons in address'')
           else if CHR ''['' \<in> set s then Inl (addr_error s ''unexpected [ in address'')
           else if CHR '']'' \<in> set s then Inl (addr_error s ''unexpected ] in address'')
           else Inr (front, port))"

definition join_host_port :: "string \<Rightarrow> string \<Rightarrow> string" where
  "join_host_port host port =
     (if CHR '':'' \<in> set host then CHR ''['' # host @ [CHR '']'', CHR '':''] @ port
      else host @ CHR '':'' # port)"

lemma last_colon_parts:
  assumes "CHR '':'' \<notin> set port"
  shows "rev (takeWhile (\<lambda>c. c \<noteq> CHR '':'') (rev (b @ CHR '':'' # port))) = port"
    and "rev (tl (dropWhile (\<lambda>c. c \<noteq> CHR '':'') (rev (b @ CHR '':'' # port)))) = b"
  using assms by simp_all

lemma split_join_host_port:
  assumes host: "CHR ''['' \<notin> set host" "CHR '']'' \<notin> set host"
    and port: "CHR '':'' \<notin> set port" "CHR ''['' \<notin> set port" "CHR '']'' \<notin> set port"
  shows "split_host_port (join_host_port host port) = Inr (host, port)"
proof (cases "CHR '':'' \<in> set host")
  case True
  let ?b = "CHR ''['' # host @ [CHR '']'']"
  have s: "join_host_port host port = ?b @ CHR '':'' # port"
    using True by (simp add: join_host_port_def)
  have close: "length (takeWhile (\<lambda>c. c \<noteq> CHR '']'') (?b @ CHR '':'' # port)) = Suc (length host)"
    using host by simp
  show ?thesis
    using host port
    by (simp add: s split_host_port_def Let_def close last_colon_parts [OF port(1)]
        del: takeWhile.simps append.simps) simp
next
  case False
  have s: "join_host_port host port = host @ CHR '':'' # port"
    using False by (simp add: join_host_port_def)
  have h: "hd (host @ CHR '':'' # port) \<noteq> CHR ''[''"
    using host by (cases host) auto
  show ?thesis
    using host port False h
    by (simp add: s split_host_port_def Let_def last_colon_parts [OF port(1)])
qed

section \<open>IP addresses\<close>

text \<open>\<^verbatim>\<open>net.IP\<close> is a byte slice; \<open>None\<close> stands for the nil the methods return.\<close>

type_synonym ip = "byte list"

definition v4_prefix :: ip where
  "v4_prefix = replicate 10 0 @ [0xFF, 0xFF]"

definition to4 :: "ip \<Rightarrow> ip option" where
  "to4 a = (if length a = 4 then Some a
            else if length a = 16 \<and> take 12 a = v4_prefix then Some (drop 12 a)
            else None)"

definition to16 :: "ip \<Rightarrow> ip option" where
  "to16 a = (if length a = 4 then Some (v4_prefix @ a)
             else if length a = 16 then Some a else None)"

lemma length_v4_prefix [simp]: "length v4_prefix = 12"
  by (simp add: v4_prefix_def)

lemma to16_length: "to16 a = Some b \<Longrightarrow> length b = 16"
  by (auto simp: to16_def split: if_splits)

lemma to4_length: "to4 a = Some b \<Longrightarrow> length b = 4"
  by (auto simp: to4_def split: if_splits)

lemma to16_to4: "to4 a = Some b \<Longrightarrow> to16 b = to16 a"
proof -
  assume a: "to4 a = Some b"
  show ?thesis
  proof (cases "length a = 4")
    case True
    with a show ?thesis by (simp add: to4_def)
  next
    case False
    with a have "length a = 16" "take 12 a = v4_prefix" "b = drop 12 a"
      by (auto simp: to4_def split: if_splits)
    then show ?thesis
      by (simp add: to16_def flip: \<open>take 12 a = v4_prefix\<close>)
  qed
qed

text \<open>\<^verbatim>\<open>netip.parseIPv4Fields\<close>: the scan over the bytes, with the octets read so far; no
  digit since the start or the last dot (\<open>digs = 0\<close>) is the source's test on \<^verbatim>\<open>s[i-1]\<close>.\<close>

fun ipv4_fields :: "string \<Rightarrow> nat \<Rightarrow> nat \<Rightarrow> ip \<Rightarrow> ip option" where
  "ipv4_fields [] digs v acc =
     (if length acc < 3 then None else Some (acc @ [of_nat v]))"
| "ipv4_fields (c # cs) digs v acc =
     (if is_digit c then
        (if digs = 1 \<and> v = 0 then None
         else let v' = v * 10 + digit_val c
              in if v' > 255 then None else ipv4_fields cs (digs + 1) v' acc)
      else if c = CHR ''.'' then
        (if cs = [] \<or> digs = 0 then None
         else if length acc = 3 then None
         else ipv4_fields cs 0 0 (acc @ [of_nat v]))
      else None)"

definition parse_ipv4 :: "string \<Rightarrow> ip option" where
  "parse_ipv4 s = ipv4_fields s 0 0 []"

definition is_hex :: "char \<Rightarrow> bool" where
  "is_hex c = (is_digit c \<or> (97 \<le> (of_char c :: nat) \<and> (of_char c :: nat) \<le> 102)
     \<or> (65 \<le> (of_char c :: nat) \<and> (of_char c :: nat) \<le> 70))"

definition hex_val :: "char \<Rightarrow> nat" where
  "hex_val c = (if is_digit c then digit_val c
     else if 97 \<le> (of_char c :: nat) then (of_char c :: nat) - 87 else (of_char c :: nat) - 55)"

definition hex_num :: "string \<Rightarrow> nat" where
  "hex_num s = foldl (\<lambda>a c. a * 16 + hex_val c) 0 s"

text \<open>
  The loop of \<^verbatim>\<open>netip.parseIPv6\<close>: \<open>acc\<close> holds the bytes written (the source's
  \<^verbatim>\<open>ip[:i]\<close>), \<open>ell\<close> the position of the ellipsis. A group of more than four digits fails,
  which also bounds its value below \<open>2 ^ 16\<close>. Each round adds two bytes, so the loop ends.
\<close>

function ipv6_groups :: "string \<Rightarrow> ip \<Rightarrow> nat option \<Rightarrow> (string \<times> ip \<times> nat option) option" where
  "ipv6_groups s acc ell =
     (if 16 \<le> length acc then Some (s, acc, ell)
      else
        let ds = takeWhile is_hex s; rest = dropWhile is_hex s
        in if 4 < length ds \<or> ds = [] then None
           else if rest \<noteq> [] \<and> hd rest = CHR ''.'' then
             (if ell = None \<and> length acc \<noteq> 12 then None
              else if 16 < length acc + 4 then None
              else (case parse_ipv4 s of None \<Rightarrow> None
                    | Some f \<Rightarrow> Some ([], acc @ f, ell)))
           else
             let acc' = acc @ [of_nat (hex_num ds div 256), of_nat (hex_num ds mod 256)]
             in if rest = [] then Some ([], acc', ell)
                else if hd rest \<noteq> CHR '':'' \<or> length rest = 1 then None
                else let s' = tl rest
                     in if hd s' = CHR '':'' then
                          (if ell \<noteq> None then None
                           else if tl s' = [] then Some ([], acc', Some (length acc'))
                           else ipv6_groups (tl s') acc' (Some (length acc')))
                        else ipv6_groups s' acc' ell)"
  by pat_completeness auto
termination
  by (relation "measure (\<lambda>(s, acc, ell). 16 - length acc)") auto

declare ipv6_groups.simps [simp del]

definition parse_ipv6 :: "string \<Rightarrow> ip option" where
  "parse_ipv6 s =
     (let lead = (take 2 s = [CHR '':'', CHR '':'']);
          s1 = (if lead then drop 2 s else s)
      in if lead \<and> s1 = [] then Some (replicate 16 0)
         else (case ipv6_groups s1 [] (if lead then Some 0 else None) of
                 None \<Rightarrow> None
               | Some (rest, acc, ell) \<Rightarrow>
                   if rest \<noteq> [] then None
                   else if length acc < 16 then
                     (case ell of None \<Rightarrow> None
                      | Some e \<Rightarrow> Some (take e acc @ replicate (16 - length acc) 0 @ drop e acc))
                   else if ell \<noteq> None then None
                   else Some acc))"

text \<open>
  \<^verbatim>\<open>net.ParseIP\<close>: the first dot or colon decides the family; an address with a zone is
  refused; the result is always in 16-byte form.
\<close>

definition parse_ip :: "string \<Rightarrow> ip option" where
  "parse_ip s =
     (case dropWhile (\<lambda>c. c \<notin> {CHR ''.'', CHR '':'', CHR ''%''}) s of
        [] \<Rightarrow> None
      | c # _ \<Rightarrow>
          if c = CHR ''.'' then map_option (\<lambda>a. v4_prefix @ a) (parse_ipv4 s)
          else if c = CHR '':'' \<and> CHR ''%'' \<notin> set s then parse_ipv6 s
          else None)"

lemma ipv4_fields_length: "ipv4_fields s d v acc = Some a \<Longrightarrow> length acc \<le> 3 \<Longrightarrow> length a = 4"
  by (induction s d v acc rule: ipv4_fields.induct) (auto simp: Let_def split: if_splits)

lemma parse_ipv4_length: "parse_ipv4 s = Some a \<Longrightarrow> length a = 4"
  by (auto simp: parse_ipv4_def dest: ipv4_fields_length)

lemma ipv6_groups_cases:
  assumes "ipv6_groups s acc ell = Some (rest, a, e)"
  shows "(16 \<le> length acc \<and> a = acc \<and> e = ell)
    \<or> (\<exists>f. length f = 4 \<and> length acc \<le> 12 \<and> a = acc @ f \<and> e = ell)
    \<or> (\<exists>x y. length acc < 16 \<and> a = acc @ [x, y] \<and> (e = ell \<or> e = Some (length acc + 2)))
    \<or> (\<exists>x y s' ell'. length acc < 16 \<and> ipv6_groups s' (acc @ [x, y]) ell' = Some (rest, a, e)
         \<and> (ell' = ell \<or> ell' = Some (length acc + 2)))"
  using assms
  by (subst (asm) ipv6_groups.simps)
    (auto simp: Let_def dest: parse_ipv4_length split: if_splits option.splits; blast)

lemma ipv6_groups_length:
  assumes "ipv6_groups s acc ell = Some (rest, a, e)" and "even (length acc)" and "length acc \<le> 16"
    and "\<And>n. ell = Some n \<Longrightarrow> n \<le> length acc"
  shows "length a \<le> 16 \<and> (\<forall>n. e = Some n \<longrightarrow> n \<le> length a)"
  using assms
proof (induction "16 - length acc" arbitrary: s acc ell rule: less_induct)
  case less
  have two: "length acc < 16 \<Longrightarrow> length acc + 2 \<le> 16"
    using less.prems(2) by presburger
  show ?case
    using ipv6_groups_cases [OF less.prems(1)]
  proof (elim disjE exE conjE)
    fix x y s' ell'
    assume "length acc < 16" and g: "ipv6_groups s' (acc @ [x, y]) ell' = Some (rest, a, e)"
      and "ell' = ell"
    then show ?thesis
      using less.hyps [of "acc @ [x, y]", OF _ g] less.prems(2,4) two by fastforce
  next
    fix x y s' ell'
    assume "length acc < 16" and g: "ipv6_groups s' (acc @ [x, y]) ell' = Some (rest, a, e)"
      and "ell' = Some (length acc + 2)"
    then show ?thesis
      using less.hyps [of "acc @ [x, y]", OF _ g] less.prems(2) two by fastforce
  qed (use less.prems two in fastforce)+
qed

lemma parse_ipv6_length: "parse_ipv6 s = Some a \<Longrightarrow> length a = 16"
  by (auto simp: parse_ipv6_def Let_def split: if_splits option.splits
      dest!: ipv6_groups_length)

lemma parse_ip_length: "parse_ip s = Some a \<Longrightarrow> length a = 16"
  by (auto simp: parse_ip_def split: list.splits if_splits
      dest: parse_ipv4_length parse_ipv6_length)

text \<open>\<^verbatim>\<open>IP.String\<close>: dotted decimal, or hex groups with the first longest run of zero groups elided.\<close>

definition show_ipv4 :: "ip \<Rightarrow> string" where
  "show_ipv4 a = join_with CHR ''.'' (map (\<lambda>b. show_nat (unat b)) a)"

definition hex_digit :: "nat \<Rightarrow> char" where
  "hex_digit n = (if n < 10 then char_of (48 + n) else char_of (87 + n))"

fun show_hex :: "nat \<Rightarrow> string" where
  "show_hex n =
     (if n < 16 then [hex_digit n] else show_hex (n div 16) @ [hex_digit (n mod 16)])"

declare show_hex.simps [simp del]

fun ipv6_u16s :: "ip \<Rightarrow> nat list" where
  "ipv6_u16s (x # y # zs) = (unat x * 256 + unat y) # ipv6_u16s zs"
| "ipv6_u16s _ = []"

definition zero_run :: "nat list \<Rightarrow> nat \<Rightarrow> nat" where
  "zero_run gs i = length (takeWhile (\<lambda>g. g = 0) (drop i gs))"

definition longest_zero_run :: "nat list \<Rightarrow> nat \<times> nat" where
  "longest_zero_run gs =
     foldl (\<lambda>(st, len) i. let l = zero_run gs i
                         in if 2 \<le> l \<and> len < l then (i, l) else (st, len)) (255, 0) [0..<8]"

definition show_ipv6 :: "ip \<Rightarrow> string" where
  "show_ipv6 a =
     (let gs = ipv6_u16s a; (st, len) = longest_zero_run gs
      in if len = 0 then join_with CHR '':'' (map show_hex gs)
         else join_with CHR '':'' (map show_hex (take st gs)) @ [CHR '':'', CHR '':'']
              @ join_with CHR '':'' (map show_hex (drop (st + len) gs)))"

definition ip_string :: "ip \<Rightarrow> string" where
  "ip_string a =
     (case to4 a of Some v4 \<Rightarrow> show_ipv4 v4
      | None \<Rightarrow> if a = [] then ''<nil>''
                else if length a = 16 then show_ipv6 a
                else CHR ''?'' # concat (map (\<lambda>b. [hex_digit (unat b div 16), hex_digit (unat b mod 16)]) a))"

text \<open>Reading back a printed IPv4 address, octet by octet.\<close>

lemma show_nat_byte_cases:
  assumes "n < 256"
  shows "(n < 10 \<and> show_nat n = [digit_char n])
    \<or> (10 \<le> n \<and> n < 100 \<and> show_nat n = [digit_char (n div 10), digit_char (n mod 10)])
    \<or> (100 \<le> n \<and> show_nat n
         = [digit_char (n div 100), digit_char (n div 10 mod 10), digit_char (n mod 10)])"
proof -
  have "n div 10 div 10 = n div 100" by (simp add: div_mult2_eq [symmetric])
  with assms show ?thesis
    by (auto simp: show_nat.simps [of n] show_nat.simps [of "n div 10"] show_nat.simps [of "n div 100"])
qed

lemma ipv4_fields_octet:
  assumes "n < 256"
  shows "\<exists>d > 0. ipv4_fields (show_nat n @ s) 0 0 acc = ipv4_fields s d n acc"
  using show_nat_byte_cases [OF assms]
proof (elim disjE conjE)
  assume "n < 10" and "show_nat n = [digit_char n]"
  then show ?thesis by (intro exI [of _ 1]) simp
next
  assume n: "10 \<le> n" "n < 100" and s: "show_nat n = [digit_char (n div 10), digit_char (n mod 10)]"
  have "n div 10 < 10" "n div 10 \<noteq> 0" using n by auto
  with n s assms show ?thesis by (intro exI [of _ 2]) (simp add: numeral_2_eq_2)
next
  assume n: "100 \<le> n" and s: "show_nat n
    = [digit_char (n div 100), digit_char (n div 10 mod 10), digit_char (n mod 10)]"
  have q: "n div 100 = n div 10 div 10" by (simp add: div_mult2_eq [symmetric])
  have a: "n div 100 < 10" "n div 100 \<noteq> 0" "n div 100 * 10 + n div 10 mod 10 = n div 10"
    using n assms by (simp_all add: div_less_iff_less_mult) (simp add: q)
  have b: "(n div 100 * 10 + n div 10 mod 10) * 10 + n mod 10 = n" unfolding a(3) by simp
  have c: "n div 10 \<le> 255" using assms by simp
  show ?thesis
    using n s assms a b c by (intro exI [of _ 3]) (simp add: Let_def numeral_3_eq_3)
qed

lemma ipv4_fields_dot:
  assumes "n < 256" and "length acc < 3" and "s \<noteq> []"
  shows "ipv4_fields (show_nat n @ CHR ''.'' # s) 0 0 acc = ipv4_fields s 0 0 (acc @ [of_nat n])"
proof -
  obtain d where "d > 0" "ipv4_fields (show_nat n @ CHR ''.'' # s) 0 0 acc
      = ipv4_fields (CHR ''.'' # s) d n acc"
    using ipv4_fields_octet [OF assms(1)] by blast
  with assms(2,3) show ?thesis by (simp add: is_digit_def)
qed

lemma ipv4_fields_last:
  assumes "n < 256" and "length acc = 3"
  shows "ipv4_fields (show_nat n) 0 0 acc = Some (acc @ [of_nat n])"
  using ipv4_fields_octet [OF assms(1), of "[]" acc] assms(2) by auto

lemma parse_show_ipv4:
  assumes "length a = 4"
  shows "parse_ipv4 (show_ipv4 a) = Some a"
proof -
  obtain w x y z where a: "a = [w, x, y, z]"
    using assms by (auto simp: length_Suc_conv numeral_eq_Suc)
  have byte: "unat b < 256" for b :: byte using unsigned_less [of b] by simp
  show ?thesis
    by (simp add: a parse_ipv4_def show_ipv4_def ipv4_fields_dot ipv4_fields_last byte)
qed

lemma show_ipv4_chars: "c \<in> set (show_ipv4 a) \<Longrightarrow> is_digit c \<or> c = CHR ''.''"
proof -
  have "c \<in> set (join_with CHR ''.'' (map show_nat ns)) \<Longrightarrow> is_digit c \<or> c = CHR ''.''" for ns
    by (induction ns rule: induct_list012)
      (use show_nat_free in \<open>auto simp: list_all_iff\<close>)
  from this [of "map unat a"] show "c \<in> set (show_ipv4 a) \<Longrightarrow> ?thesis"
    by (simp add: show_ipv4_def comp_def)
qed

lemma parse_ip_dots:
  assumes "\<And>c. c \<in> set s \<Longrightarrow> is_digit c \<or> c = CHR ''.''" and "CHR ''.'' \<in> set s"
  shows "parse_ip s = map_option (\<lambda>a. v4_prefix @ a) (parse_ipv4 s)"
proof -
  define stop where "stop = (\<lambda>c. c \<notin> {CHR ''.'', CHR '':'', CHR ''%''})"
  obtain xs ys where s: "s = xs @ CHR ''.'' # ys" "CHR ''.'' \<notin> set xs"
    using assms(2) by (metis split_list_first)
  then have "is_digit c" if "c \<in> set xs" for c
    using that assms(1) [of c] by auto
  then have "stop c" if "c \<in> set xs" for c
    using that unfolding stop_def is_digit_def by fastforce
  then have "dropWhile stop s = CHR ''.'' # ys"
    unfolding s(1) by (subst dropWhile_append2) (simp_all add: stop_def)
  then show ?thesis unfolding stop_def by (simp add: parse_ip_def)
qed

lemma parse_ip_show_ipv4:
  assumes "length a = 4"
  shows "parse_ip (show_ipv4 a) = Some (v4_prefix @ a)"
proof -
  obtain w x y z where "a = [w, x, y, z]"
    using assms by (auto simp: length_Suc_conv numeral_eq_Suc)
  then have "CHR ''.'' \<in> set (show_ipv4 a)" by (simp add: show_ipv4_def)
  from parse_ip_dots [OF show_ipv4_chars this] show ?thesis
    by (simp add: parse_show_ipv4 [OF assms])
qed

text \<open>\<^verbatim>\<open>net.UDPAddr\<close> (the zone is never set by the sources) and its \<^verbatim>\<open>String\<close>.\<close>

record udp_addr =
  ua_ip :: ip
  ua_port :: int

definition udp_addr_string :: "udp_addr \<Rightarrow> string" where
  "udp_addr_string a =
     join_host_port (if ua_ip a = [] then [] else ip_string (ua_ip a)) (itoa (ua_port a))"

section \<open>Hardware addresses\<close>

definition xtoi2 :: "string \<Rightarrow> char \<Rightarrow> byte option" where
  "xtoi2 s e =
     (if 2 < length s \<and> s ! 2 \<noteq> e then None
      else if length s < 2 \<or> \<not> list_all is_hex (take 2 s) then None
      else Some (of_nat (hex_num (take 2 s))))"

fun mac_bytes :: "nat \<Rightarrow> char \<Rightarrow> string \<Rightarrow> byte list option" where
  "mac_bytes 0 e s = Some []"
| "mac_bytes (Suc n) e s =
     (case xtoi2 s e of None \<Rightarrow> None
      | Some b \<Rightarrow> map_option (\<lambda>bs. b # bs) (mac_bytes n e (drop 3 s)))"

fun mac_pairs :: "nat \<Rightarrow> string \<Rightarrow> byte list option" where
  "mac_pairs 0 s = Some []"
| "mac_pairs (Suc n) s =
     (case xtoi2 (take 2 s) (CHR 0x00) of None \<Rightarrow> None
      | Some b \<Rightarrow>
          (case xtoi2 (drop 2 s) CHR ''.'' of None \<Rightarrow> None
           | Some c \<Rightarrow> map_option (\<lambda>bs. b # c # bs) (mac_pairs n (drop 5 s))))"

text \<open>\<^verbatim>\<open>net.ParseMAC\<close>\<close>

definition parse_mac :: "string \<Rightarrow> (byte list) res" where
  "parse_mac s =
     (let bad = Inl (addr_error s ''invalid MAC address'');
          wrap = (\<lambda>r. case r of None \<Rightarrow> bad | Some m \<Rightarrow> Inr m)
      in if length s < 14 then bad
         else if s ! 2 = CHR '':'' \<or> s ! 2 = CHR ''-'' then
           (let n = (length s + 1) div 3
            in if (length s + 1) mod 3 \<noteq> 0 \<or> n \<notin> {6, 8, 20} then bad
               else wrap (mac_bytes n (s ! 2) s))
         else if s ! 4 = CHR ''.'' then
           (let n = 2 * (length s + 1) div 5
            in if (length s + 1) mod 5 \<noteq> 0 \<or> n \<notin> {6, 8, 20} then bad
               else wrap (mac_pairs (n div 2) s))
         else bad)"

lemma mac_bytes_length: "mac_bytes n e s = Some m \<Longrightarrow> length m = n"
  by (induction n arbitrary: s m) (auto split: option.splits)

lemma mac_pairs_length: "mac_pairs n s = Some m \<Longrightarrow> length m = 2 * n"
  by (induction n arbitrary: s m) (auto split: option.splits)

lemma parse_mac_length: "parse_mac s = Inr m \<Longrightarrow> length m \<in> {6, 8, 20}"
  by (auto simp: parse_mac_def Let_def split: if_splits option.splits
      dest!: mac_bytes_length mac_pairs_length)

section \<open>Tunnel addresses (internal/tunneladdr/addr.go)\<close>

record Addr =
  Host :: string
  Port :: int

definition Parse :: "string \<Rightarrow> Addr res" where
  "Parse s =
     (case split_host_port s of Inl e \<Rightarrow> Inl e
      | Inr (host, portStr) \<Rightarrow>
          (case atoi portStr of
             None \<Rightarrow> Inl (Wrapf ''invalid port %q: %w'' [portStr] (Ext ''strconv.Atoi''))
           | Some port \<Rightarrow> Inr \<lparr>Host = host, Port = port\<rparr>))"

definition addr_String :: "Addr \<Rightarrow> string" where
  "addr_String a = join_host_port (Host a) (itoa (Port a))"

section \<open>Properties\<close>

text \<open>Tunnel addresses: parsing the printed form of an address gives the address back, also
  for IPv6 hosts, for every host without brackets and every 64-bit port value.\<close>

lemma addr_roundtrip:
  assumes "CHR ''['' \<notin> set (Host a)" and "CHR '']'' \<notin> set (Host a)" and "int64 (Port a)"
  shows "Parse (addr_String a) = Inr a"
  using assms split_join_host_port [of "Host a" "itoa (Port a)"]
  by (simp add: Parse_def addr_String_def itoa_free is_digit_def)

end
