(* ===== verification/Netutil.thy ===== *)
theory Netutil
  imports Netaddr
begin

unbundle bit_operations_syntax

text \<open>
  \<^verbatim>\<open>internal/netutil\<close>: TCP flag sets and their notation, the round-robin cycle over flag
  sets that every crafted packet draws from, UDP address parsing, and the hash that keys
  the per-peer cycles.
\<close>

section \<open>Flag sets\<close>

record TCPFlagSet =
  FIN :: bool
  SYN :: bool
  RST :: bool
  PSH :: bool
  ACK :: bool
  URG :: bool
  ECE :: bool
  CWR :: bool
  NS :: bool

definition zero_flags :: TCPFlagSet where
  "zero_flags = \<lparr>FIN = False, SYN = False, RST = False, PSH = False, ACK = False,
     URG = False, ECE = False, CWR = False, NS = False\<rparr>"

fun set_flag :: "char \<Rightarrow> TCPFlagSet \<Rightarrow> TCPFlagSet option" where
  "set_flag ch f =
     (if ch = CHR ''F'' then Some (f\<lparr>FIN := True\<rparr>)
      else if ch = CHR ''S'' then Some (f\<lparr>SYN := True\<rparr>)
      else if ch = CHR ''R'' then Some (f\<lparr>RST := True\<rparr>)
      else if ch = CHR ''P'' then Some (f\<lparr>PSH := True\<rparr>)
      else if ch = CHR ''A'' then Some (f\<lparr>ACK := True\<rparr>)
      else if ch = CHR ''U'' then Some (f\<lparr>URG := True\<rparr>)
      else if ch = CHR ''E'' then Some (f\<lparr>ECE := True\<rparr>)
      else if ch = CHR ''C'' then Some (f\<lparr>CWR := True\<rparr>)
      else if ch = CHR ''N'' then Some (f\<lparr>NS := True\<rparr>)
      else None)"

fun parse_flag_loop :: "string \<Rightarrow> string \<Rightarrow> TCPFlagSet \<Rightarrow> TCPFlagSet res" where
  "parse_flag_loop s [] f = Inr f"
| "parse_flag_loop s (ch # cs) f =
     (case set_flag ch f of
        None \<Rightarrow> Inl (Errorf ''invalid TCP flag %q in %q'' [[ch], s])
      | Some f' \<Rightarrow> parse_flag_loop s cs f')"

definition ParseTCPFlag :: "string \<Rightarrow> TCPFlagSet res" where
  "ParseTCPFlag s = parse_flag_loop s (to_upper (trim_space s)) zero_flags"

definition ParseTCPFlags :: "string list \<Rightarrow> string \<Rightarrow> TCPFlagSet list res" where
  "ParseTCPFlags flags defaultFlag =
     map_res ParseTCPFlag (if flags = [] then [defaultFlag] else flags)"

text \<open>What a flag string means: a letter sets its flag, and only the nine letters are allowed.\<close>

definition flag_letter :: "char \<Rightarrow> bool" where
  "flag_letter c = (c \<in> set ''FSRPAUECN'')"

definition flags_of :: "char set \<Rightarrow> TCPFlagSet" where
  "flags_of cs = \<lparr>FIN = CHR ''F'' \<in> cs, SYN = CHR ''S'' \<in> cs, RST = CHR ''R'' \<in> cs,
     PSH = CHR ''P'' \<in> cs, ACK = CHR ''A'' \<in> cs, URG = CHR ''U'' \<in> cs,
     ECE = CHR ''E'' \<in> cs, CWR = CHR ''C'' \<in> cs, NS = CHR ''N'' \<in> cs\<rparr>"

lemma set_flag_flags_of:
  "set_flag ch (flags_of cs) =
     (if flag_letter ch then Some (flags_of (insert ch cs)) else None)"
  by (simp add: flags_of_def flag_letter_def)

lemma zero_flags_flags_of: "zero_flags = flags_of {}"
  by (simp add: zero_flags_def flags_of_def)

lemma parse_flag_loop_flags_of:
  "parse_flag_loop s cs (flags_of A) =
     (case find (\<lambda>c. \<not> flag_letter c) cs of
        Some ch \<Rightarrow> Inl (Errorf ''invalid TCP flag %q in %q'' [[ch], s])
      | None \<Rightarrow> Inr (flags_of (set cs \<union> A)))"
proof (induction cs arbitrary: A)
  case Nil
  then show ?case by simp
next
  case (Cons c cs)
  show ?case
    by (auto simp: set_flag_flags_of Cons.IH simp del: set_flag.simps split: option.splits)
qed

section \<open>Cycling over flag sets\<close>

record FlagCycle =
  items :: "TCPFlagSet list"
  idx :: "32 word"

definition NewFlagCycle :: "TCPFlagSet list \<Rightarrow> FlagCycle" where
  "NewFlagCycle fs =
     \<lparr>items = (if fs = [] then [zero_flags\<lparr>PSH := True, ACK := True\<rparr>] else fs), idx = 0\<rparr>"

text \<open>\<^verbatim>\<open>Next\<close> advances the 32-bit counter atomically and reads at its old value.\<close>

definition Next :: "FlagCycle \<Rightarrow> (TCPFlagSet \<times> FlagCycle) res" where
  "Next c =
     (let i = (idx c + 1) - 1
      in if items c = [] then Inl (Panic ''integer divide by zero'')
         else Inr (items c ! (unat i mod length (items c)), c\<lparr>idx := idx c + 1\<rparr>))"

definition cycle_ok :: "FlagCycle \<Rightarrow> bool" where
  "cycle_ok c = (items c \<noteq> [])"

fun next_n :: "nat \<Rightarrow> FlagCycle \<Rightarrow> (TCPFlagSet list \<times> FlagCycle) res" where
  "next_n 0 c = Inr ([], c)"
| "next_n (Suc n) c =
     (case Next c of Inl e \<Rightarrow> Inl e
      | Inr (f, c') \<Rightarrow>
          (case next_n n c' of Inl e \<Rightarrow> Inl e | Inr (fs, c'') \<Rightarrow> Inr (f # fs, c'')))"

lemma NewFlagCycle_ok [simp, go_inv]: "cycle_ok (NewFlagCycle fs)"
  by (simp add: cycle_ok_def NewFlagCycle_def)

lemma Next_ok:
  "cycle_ok c \<Longrightarrow>
     Next c = Inr (items c ! (unat (idx c) mod length (items c)), c\<lparr>idx := idx c + 1\<rparr>)"
  by (simp add: Next_def cycle_ok_def)

lemma Next_cycle_ok [go_inv]: "Next c = Inr (f, c') \<Longrightarrow> cycle_ok c'"
  by (auto simp: Next_def cycle_ok_def Let_def split: if_splits)

lemma next_n_cycle:
  assumes "cycle_ok c" and "unat (idx c) + n \<le> 2 ^ 32"
  shows "next_n n c = Inr (map (\<lambda>k. items c ! ((unat (idx c) + k) mod length (items c))) [0..<n],
                           c\<lparr>idx := idx c + of_nat n\<rparr>)"
  using assms
proof (induction n arbitrary: c)
  case 0
  then show ?case by simp
next
  case (Suc n)
  let ?c = "c\<lparr>idx := idx c + 1\<rparr>"
  show ?case
  proof (cases "n = 0")
    case True
    with Suc.prems(1) show ?thesis by (simp add: Next_ok)
  next
    case False
    with Suc.prems(2) have u: "unat (idx c + 1) = Suc (unat (idx c))"
      by (simp add: unat_word_ariths)
    have "next_n n ?c = Inr (map (\<lambda>k. items ?c ! ((unat (idx ?c) + k) mod length (items ?c))) [0..<n],
        ?c\<lparr>idx := idx ?c + of_nat n\<rparr>)"
      using Suc.prems u by (intro Suc.IH) (simp_all add: cycle_ok_def)
    then show ?thesis
      using Suc.prems(1) u
      by (simp add: Next_ok upt_conv_Cons map_Suc_upt [symmetric] add.assoc del: upt_Suc)
  qed
qed

section \<open>UDP addresses\<close>

definition ParseUDPAddr :: "string \<Rightarrow> bool \<Rightarrow> udp_addr res" where
  "ParseUDPAddr addr allowZeroPort =
     (case split_host_port addr of
        Inl e \<Rightarrow> Inl (Wrapf ''invalid address %q: %w'' [addr] e)
      | Inr (host, portStr) \<Rightarrow>
          (case sscanf_d portStr of
             None \<Rightarrow> Inl (Errorf ''invalid port in %q'' [addr])
           | Some port \<Rightarrow>
               if port < 0 \<or> 65535 < port then Inl (Errorf ''invalid port in %q'' [addr])
               else if port = 0 \<and> \<not> allowZeroPort then Inl (Errorf ''port 0 not allowed in %q'' [addr])
               else (case parse_ip host of
                       None \<Rightarrow> Inl (Errorf ''invalid IP in %q'' [addr])
                     | Some ip \<Rightarrow>
                         Inr \<lparr>ua_ip = (case to4 ip of Some v4 \<Rightarrow> v4 | None \<Rightarrow> ip), ua_port = port\<rparr>)))"

lemma ParseUDPAddr_port:
  "ParseUDPAddr s z = Inr a \<Longrightarrow> 0 \<le> ua_port a \<and> ua_port a \<le> 65535 \<and> (ua_port a = 0 \<longrightarrow> z)"
  by (auto simp: ParseUDPAddr_def split: sum.splits option.splits if_splits prod.splits)

lemma ParseUDPAddr_ip:
  "ParseUDPAddr s z = Inr a \<Longrightarrow>
     length (ua_ip a) = 4 \<or> length (ua_ip a) = 16 \<and> to4 (ua_ip a) = None"
  by (auto simp: ParseUDPAddr_def dest: parse_ip_length to4_length
      split: sum.splits option.splits if_splits prod.splits)

section \<open>Keys of the per-peer cycles\<close>

definition offset64 :: "64 word" where "offset64 = 14695981039346656037"
definition prime64 :: "64 word" where "prime64 = 1099511628211"

definition fnv_step :: "64 word \<Rightarrow> 64 word \<Rightarrow> 64 word" where
  "fnv_step h b = (h XOR b) * prime64"

definition AddrKey :: "ip \<Rightarrow> int \<Rightarrow> 64 word" where
  "AddrKey ip port =
     (let h0 = offset64;
          h1 = (case to16 ip of None \<Rightarrow> h0
                | Some b \<Rightarrow> foldl (\<lambda>h c. fnv_step h (ucast c)) h0 b);
          hi = (word_of_int (port div 256) :: byte);
          lo = (word_of_int port :: byte)
      in fnv_step (fnv_step h1 (ucast hi)) (ucast lo))"

lemma prime64_inv: "prime64 * 0xce965057aff6957b = 1"
  by (simp add: prime64_def)

lemma mult_prime64_cancel: "a * prime64 = b * prime64 \<longleftrightarrow> a = b"
proof
  assume eq: "a * prime64 = b * prime64"
  obtain c where c: "prime64 * c = 1" using prime64_inv by blast
  have "a * prime64 * c = b * prime64 * c" by (simp only: eq)
  then show "a = b" by (simp add: mult.assoc c)
qed simp

lemma xor_cancel_right: "(a :: 'a::len word) XOR b = c XOR b \<longleftrightarrow> a = c"
  by (metis xor.assoc xor.right_neutral xor_self_eq)

lemma xor_cancel_left: "(a :: 'a::len word) XOR b = a XOR c \<longleftrightarrow> b = c"
  using xor_cancel_right [of b a c] by (simp add: xor.commute)

lemma fnv_step_inj_state: "fnv_step h b = fnv_step h' b \<longleftrightarrow> h = h'"
  by (simp add: fnv_step_def mult_prime64_cancel xor_cancel_right)

lemma fnv_step_inj_byte: "fnv_step h b = fnv_step h b' \<longleftrightarrow> b = b'"
  by (simp add: fnv_step_def mult_prime64_cancel xor_cancel_left)

lemma fnv_fold_inj_state:
  "foldl (\<lambda>h c. fnv_step h (ucast (c :: byte))) h bs = foldl (\<lambda>h c. fnv_step h (ucast c)) h' bs
     \<longleftrightarrow> h = h'"
  by (induction bs arbitrary: h h') (simp_all add: fnv_step_inj_state)

lemma ucast_byte_inj: "(ucast (a :: byte) :: 64 word) = ucast b \<longleftrightarrow> a = b"
  by transfer (simp add: take_bit_take_bit)

text \<open>Two byte strings that differ in exactly one place have different hashes.\<close>

lemma fnv_fold_one_byte:
  assumes "x \<noteq> y"
  shows "foldl (\<lambda>h c. fnv_step h (ucast (c :: byte))) h (as @ x # bs)
       \<noteq> foldl (\<lambda>h c. fnv_step h (ucast c)) h (as @ y # bs)"
  using assms by (simp add: fnv_fold_inj_state fnv_step_inj_byte ucast_byte_inj)

text \<open>
  The two port bytes. Words that agree above their low byte differ by less than 256; the
  prime is so large that multiplying such a difference leaves that window unless it is 0.
\<close>

lemma word_near:
  fixes x y :: "64 word"
  assumes "drop_bit 8 x = drop_bit 8 y"
  obtains k where "\<bar>k\<bar> < 256" and "x - y = of_int k"
proof -
  have "uint x div 256 = uint y div 256"
    using arg_cong [OF assms, of uint] by (simp add: unsigned_drop_bit_eq drop_bit_eq_div uint_div)
  then have "\<bar>uint x - uint y\<bar> < 256"
    using div_mult_mod_eq [of "uint x" 256] div_mult_mod_eq [of "uint y" 256]
      pos_mod_bound [of 256 "uint x"] pos_mod_bound [of 256 "uint y"]
      pos_mod_sign [of 256 "uint x"] pos_mod_sign [of 256 "uint y"] by linarith
  moreover have "x - y = of_int (uint x - uint y)" by simp
  ultimately show ?thesis by (rule that)
qed

lemma drop_bit_byte: "drop_bit 8 (ucast (b :: byte) :: 64 word) = 0"
  by transfer (simp add: drop_bit_take_bit)

lemma fnv_two_bytes_inj:
  fixes hi lo hi' lo' :: byte
  assumes "fnv_step (fnv_step h (ucast hi)) (ucast lo) = fnv_step (fnv_step h (ucast hi')) (ucast lo')"
  shows "hi = hi' \<and> lo = lo'"
proof -
  define A where "A = h XOR ucast hi"
  define B where "B = h XOR ucast hi'"
  have eq: "A * prime64 XOR ucast lo = B * prime64 XOR ucast lo'"
    using assms by (simp add: fnv_step_def A_def B_def mult_prime64_cancel)
  have "drop_bit 8 A = drop_bit 8 B"
    by (simp add: A_def B_def drop_bit_byte)
  then obtain k where k: "\<bar>k\<bar> < 256" "A - B = of_int k" by (rule word_near)
  have "drop_bit 8 (A * prime64) = drop_bit 8 (B * prime64)"
    using arg_cong [OF eq, of "drop_bit 8"] by (simp add: drop_bit_byte)
  then obtain m where m: "\<bar>m\<bar> < 256" "A * prime64 - B * prime64 = of_int m" by (rule word_near)
  have "of_int (k * 1099511628211 - m) = (0 :: 64 word)"
    using m(2) k(2) by (simp add: prime64_def flip: left_diff_distrib)
  then have "2 ^ 64 dvd (k * 1099511628211 - m)"
    using word_of_int_eq_0_iff [where 'a = 64, of "k * 1099511628211 - m"] by simp
  moreover have "\<bar>k * 1099511628211 - m\<bar> < 2 ^ 64" using k(1) m(1) by (simp add: abs_less_iff)
  ultimately have "k * 1099511628211 - m = 0"
    using dvd_imp_le_int [of "k * 1099511628211 - m" "2 ^ 64"] by (cases "k * 1099511628211 - m = 0") auto
  with m(1) have "k = 0" by linarith
  with k(2) have AB: "A = B" by simp
  then have "hi = hi'" by (simp add: A_def B_def xor_cancel_left ucast_byte_inj)
  moreover from eq AB have "lo = lo'" by (simp add: xor_cancel_left ucast_byte_inj)
  ultimately show ?thesis by simp
qed

lemma AddrKey_to4: "to4 a = Some b \<Longrightarrow> AddrKey b p = AddrKey a p"
  by (simp add: AddrKey_def to16_to4)

lemma port_bytes_inj:
  assumes "0 \<le> p" "p \<le> 65535" "0 \<le> q" "q \<le> 65535"
    and "(word_of_int (p div 256) :: byte) = word_of_int (q div 256)"
    and "(word_of_int p :: byte) = word_of_int q"
  shows "p = q"
proof -
  have m: "p div 256 mod 256 = q div 256 mod 256" "p mod 256 = q mod 256"
    using arg_cong [OF assms(5), of uint] arg_cong [OF assms(6), of uint]
    by (simp_all add: uint_word_of_int)
  have "p div 256 < 256" "q div 256 < 256" using assms(2,4) by auto
  moreover have "0 \<le> p div 256" "0 \<le> q div 256" using assms(1,3) by auto
  ultimately have "p div 256 = q div 256" using m(1) by simp
  with m(2) show ?thesis by (metis div_mult_mod_eq)
qed

lemma AddrKey_port_inj:
  assumes "0 \<le> p" "p \<le> 65535" "0 \<le> q" "q \<le> 65535"
  shows "AddrKey a p = AddrKey a q \<longleftrightarrow> p = q"
proof
  assume "AddrKey a p = AddrKey a q"
  then have "(word_of_int (p div 256) :: byte) = word_of_int (q div 256)
      \<and> (word_of_int p :: byte) = word_of_int q"
    unfolding AddrKey_def Let_def by (rule fnv_two_bytes_inj)
  with assms show "p = q" by (intro port_bytes_inj) auto
qed simp

lemma AddrKey_one_byte:
  assumes "length (l @ x # r) \<in> {4, 16}" and "x \<noteq> y"
  shows "AddrKey (l @ x # r) p \<noteq> AddrKey (l @ y # r) p"
proof -
  have "\<exists>l'. to16 (l @ x # r) = Some (l' @ x # r) \<and> to16 (l @ y # r) = Some (l' @ y # r)"
  proof (cases "length (l @ x # r) = 4")
    case True
    then show ?thesis by (intro exI [of _ "v4_prefix @ l"]) (simp add: to16_def)
  next
    case False
    with assms(1) show ?thesis by (intro exI [of _ l]) (simp add: to16_def)
  qed
  with fnv_fold_one_byte [OF assms(2), of offset64] show ?thesis
    by (auto simp: AddrKey_def fnv_step_inj_state simp del: foldl_append)
qed

lemma ParseUDPAddr_print:
  assumes "length (ua_ip a) = 4" and "0 \<le> ua_port a" and "ua_port a \<le> 65535"
    and "ua_port a = 0 \<longrightarrow> z"
  shows "ParseUDPAddr (udp_addr_string a) z = Inr a"
proof -
  let ?h = "show_ipv4 (ua_ip a)"
  have free: "c \<notin> set ?h" if "\<not> is_digit c" "c \<noteq> CHR ''.''" for c
    using that show_ipv4_chars by blast
  have i: "int64 (ua_port a)" using assms(2,3) by (simp add: int64_def)
  have ne: "ua_ip a \<noteq> []" using assms(1) by auto
  have s: "udp_addr_string a = join_host_port ?h (itoa (ua_port a))"
    using assms(1) ne by (simp add: udp_addr_string_def ip_string_def to4_def)
  have "split_host_port (udp_addr_string a) = Inr (?h, itoa (ua_port a))"
    unfolding s by (intro split_join_host_port) (simp_all add: free itoa_free is_digit_def)
  moreover have "to4 (v4_prefix @ ua_ip a) = Some (ua_ip a)" using assms(1) by (simp add: to4_def)
  ultimately show ?thesis
    using assms i by (simp add: ParseUDPAddr_def sscanf_d_itoa parse_ip_show_ipv4)
qed

section \<open>Properties\<close>

text \<open>A flag cycle hands out its flag sets in cyclic order, the default PSH+ACK set when it was
  made from none: packet number \<open>k\<close> gets item \<open>k mod length\<close>, for all \<open>2 ^ 32\<close> values of
  the counter, and drawing never fails.\<close>

lemma flag_cycle_round_robin:
  assumes "n \<le> 2 ^ 32"
  shows "\<exists>c. next_n n (NewFlagCycle fs)
     = Inr (map (\<lambda>k. if fs = [] then zero_flags\<lparr>PSH := True, ACK := True\<rparr>
                     else fs ! (k mod length fs)) [0..<n], c)"
  using next_n_cycle [OF NewFlagCycle_ok, of fs n] assms
  by (cases fs) (simp_all add: NewFlagCycle_def)

text \<open>A flag string is accepted exactly when, after trimming and upper-casing, it consists of
  the nine flag letters, and then sets exactly the flags whose letters occur; otherwise the
  error names the first bad character.\<close>

lemma flag_string_meaning:
  "ParseTCPFlag s =
     (case find (\<lambda>c. \<not> flag_letter c) (to_upper (trim_space s)) of
        Some ch \<Rightarrow> Inl (Errorf ''invalid TCP flag %q in %q'' [[ch], s])
      | None \<Rightarrow> Inr (flags_of (set (to_upper (trim_space s)))))"
  by (simp add: ParseTCPFlag_def zero_flags_flags_of parse_flag_loop_flags_of split: option.split)

text \<open>UDP addresses: an accepted address has a port between 0 and 65535 (0 only where it is
  allowed) and an IP in its shortest form, 4 bytes or 16 bytes that are no mapped IPv4.\<close>

lemma udp_addr_bounds:
  assumes "ParseUDPAddr s z = Inr a"
  shows "0 \<le> ua_port a \<and> ua_port a \<le> 65535 \<and> (ua_port a = 0 \<longrightarrow> z)
    \<and> (length (ua_ip a) = 4 \<or> length (ua_ip a) = 16 \<and> to4 (ua_ip a) = None)"
  using ParseUDPAddr_port [OF assms] ParseUDPAddr_ip [OF assms] by simp_all

text \<open>Printing an IPv4 UDP address and parsing the text gives the address back.\<close>

lemma udp_addr_roundtrip:
  assumes "length (ua_ip a) = 4" and "0 \<le> ua_port a" and "ua_port a \<le> 65535"
    and "ua_port a = 0 \<longrightarrow> z"
  shows "ParseUDPAddr (udp_addr_string a) z = Inr a"
  using assms by (rule ParseUDPAddr_print)

text \<open>Per-peer keys: an IPv4 address has the same key in its 4-byte and its mapped 16-byte
  form; for one peer address the keys of any two ports differ; and two addresses that differ in
  exactly one byte have different keys on the same port.\<close>

lemma addr_key_separates:
  "(to4 a = Some b \<longrightarrow> AddrKey b p = AddrKey a p)
   \<and> (0 \<le> p \<and> p \<le> 65535 \<and> 0 \<le> q \<and> q \<le> 65535 \<longrightarrow> AddrKey a p = AddrKey a q \<longrightarrow> p = q)
   \<and> (length (l @ x # r) \<in> {4, 16} \<and> x \<noteq> y \<longrightarrow> AddrKey (l @ x # r) p \<noteq> AddrKey (l @ y # r) p)"
  by (simp_all add: AddrKey_to4 AddrKey_port_inj AddrKey_one_byte)

end
