(* ===== verification/Protocol.thy ===== *)
theory Protocol
  imports Netutil
begin

unbundle bit_operations_syntax

text \<open>
  \<^verbatim>\<open>internal/protocol\<close>: the control message that opens every tunnel stream, the ping
  exchange, the length-prefixed framing that carries UDP datagrams over a smux byte stream
  (\<^verbatim>\<open>datagram.go\<close>), and the flow header of a QUIC datagram (\<^verbatim>\<open>dgram.go\<close>).

  A reader is the list of bytes still to come, ended by EOF; a writer is a function from
  its state and the bytes of one \<^verbatim>\<open>Write\<close> call to an optional error and the new state.
\<close>

section \<open>Big-endian integers (encoding/binary)\<close>

definition put_uint16 :: "16 word \<Rightarrow> byte list" where
  "put_uint16 v = [ucast (drop_bit 8 v), ucast v]"

definition get_uint16 :: "byte list \<Rightarrow> 16 word" where
  "get_uint16 b = (ucast (b ! 1) OR push_bit 8 (ucast (b ! 0)))"

definition put_uint64 :: "64 word \<Rightarrow> byte list" where
  "put_uint64 v =
     [ucast (drop_bit 56 v), ucast (drop_bit 48 v), ucast (drop_bit 40 v), ucast (drop_bit 32 v),
      ucast (drop_bit 24 v), ucast (drop_bit 16 v), ucast (drop_bit 8 v), ucast v]"

definition get_uint64 :: "byte list \<Rightarrow> 64 word" where
  "get_uint64 b =
     (ucast (b ! 7) OR push_bit 8 (ucast (b ! 6)) OR push_bit 16 (ucast (b ! 5))
      OR push_bit 24 (ucast (b ! 4)) OR push_bit 32 (ucast (b ! 3)) OR push_bit 40 (ucast (b ! 2))
      OR push_bit 48 (ucast (b ! 1)) OR push_bit 56 (ucast (b ! 0)))"

lemma get_put_uint16 [simp]: "get_uint16 (put_uint16 v @ bs) = v"
  unfolding get_uint16_def put_uint16_def
  by (rule bit_word_eqI) (auto simp: bit_simps)

text \<open>The general form, one byte at a time, that the 64-bit case is an instance of.\<close>

fun put_be :: "nat \<Rightarrow> 64 word \<Rightarrow> byte list" where
  "put_be 0 v = []"
| "put_be (Suc k) v = put_be k (drop_bit 8 v) @ [ucast v]"

definition get_be :: "byte list \<Rightarrow> 64 word" where
  "get_be bs = foldl (\<lambda>a b. push_bit 8 a OR ucast b) 0 bs"

lemma get_be_snoc: "get_be (bs @ [b]) = push_bit 8 (get_be bs) OR ucast b"
  by (simp add: get_be_def)

lemma length_put_be [simp]: "length (put_be k v) = k"
  by (induction k arbitrary: v) simp_all

lemma get_put_be: "get_be (put_be k v) = take_bit (8 * k) v"
proof (induction k arbitrary: v)
  case 0
  then show ?case by (simp add: get_be_def)
next
  case (Suc k)
  show ?case
    unfolding put_be.simps get_be_snoc Suc.IH
    by (rule bit_word_eqI) (auto simp: bit_simps)
qed

lemma put_get_be: "length bs \<le> 8 \<Longrightarrow> put_be (length bs) (get_be bs) = bs
    \<and> take_bit (8 * length bs) (get_be bs) = get_be bs"
proof (induction bs rule: rev_induct)
  case Nil
  then show ?case by (simp add: get_be_def)
next
  case (snoc b bs)
  let ?x = "get_be bs"
  have small: "take_bit (8 * length bs) ?x = ?x" using snoc by simp
  then have x: "\<And>n. bit ?x n \<Longrightarrow> n < 8 * length bs" by (metis bit_take_bit_iff)
  have shift: "drop_bit 8 (push_bit 8 ?x OR ucast b) = ?x"
    using snoc.prems
    by (intro bit_word_eqI) (fastforce simp: bit_simps dest: x bit_imp_le_length)
  have low: "(ucast (push_bit 8 ?x OR ucast b) :: byte) = b"
    by (rule bit_word_eqI) (auto simp: bit_simps)
  have "\<And>n. bit (push_bit 8 ?x OR ucast b) n \<Longrightarrow> n < 8 * length (bs @ [b])"
    by (auto simp: bit_simps dest!: x dest: bit_imp_le_length)
  then have "take_bit (8 * length (bs @ [b])) (push_bit 8 ?x OR ucast b) = push_bit 8 ?x OR ucast b"
    by (intro bit_word_eqI) (metis bit_take_bit_iff)
  with shift low snoc show ?case by (simp add: get_be_snoc)
qed

lemma put_uint64_be: "put_uint64 v = put_be 8 v"
  by (simp add: put_uint64_def numeral_eq_Suc drop_bit_drop_bit)

lemma get_uint64_be: "length b = 8 \<Longrightarrow> get_uint64 (b @ bs) = get_be b"
proof -
  assume "length b = 8"
  then obtain b0 b1 b2 b3 b4 b5 b6 b7 where "b = [b0, b1, b2, b3, b4, b5, b6, b7]"
    by (auto simp: length_Suc_conv numeral_eq_Suc)
  then show ?thesis
    by (simp add: get_uint64_def get_be_def push_bit_or or.assoc or.commute or.left_commute)
qed

lemma get_put_uint64 [simp]: "get_uint64 (put_uint64 v @ bs) = v"
proof -
  have "get_uint64 (put_be 8 v @ bs) = take_bit (8 * 8) v"
    by (subst get_uint64_be) (simp_all add: get_put_be del: put_be.simps)
  also have "\<dots> = v" by (simp add: take_bit_word_eq_self)
  finally show ?thesis by (simp only: put_uint64_be)
qed

lemma put_get_uint64: "length b = 8 \<Longrightarrow> put_uint64 (get_uint64 (b @ bs)) = b"
  using put_get_be [of b] by (simp add: put_uint64_be get_uint64_be)

lemma length_put_uint [simp]: "length (put_uint16 v) = 2" "length (put_uint64 w) = 8"
  by (simp_all add: put_uint16_def put_uint64_def)

section \<open>Length-prefixed datagrams on a byte stream (datagram.go)\<close>

type_synonym 'w writer = "'w \<Rightarrow> byte list \<Rightarrow> error option \<times> 'w"

definition io_EOF :: error where "io_EOF = Ext ''EOF''"
definition io_ErrUnexpectedEOF :: error where "io_ErrUnexpectedEOF = Ext ''unexpected EOF''"

text \<open>\<^verbatim>\<open>io.ReadFull\<close> into a buffer of \<open>n\<close> bytes\<close>

definition read_full :: "nat \<Rightarrow> byte list \<Rightarrow> byte list res \<times> byte list" where
  "read_full n s =
     (if n \<le> length s then (Inr (take n s), drop n s)
      else if s = [] then (Inl io_EOF, []) else (Inl io_ErrUnexpectedEOF, []))"

definition MaxDatagram :: nat where "MaxDatagram = 65535"

definition WriteDatagram :: "'w writer \<Rightarrow> 'w \<Rightarrow> byte list \<Rightarrow> error option \<times> 'w" where
  "WriteDatagram wr w p =
     (if length p > MaxDatagram
      then (Some (Errorf ''datagram too large: %d'' [show_nat (length p)]), w)
      else wr w (put_uint16 (of_nat (length p)) @ p))"

text \<open>The payload read is what the source leaves in \<^verbatim>\<open>buf[:n]\<close>; \<open>cap\<close> is \<^verbatim>\<open>len(buf)\<close>.\<close>

definition ReadDatagram :: "byte list \<Rightarrow> nat \<Rightarrow> byte list res \<times> byte list" where
  "ReadDatagram r cap =
     (case read_full 2 r of
        (Inl e, r1) \<Rightarrow> (Inl e, r1)
      | (Inr hdr, r1) \<Rightarrow>
          let n = unat (get_uint16 hdr)
          in if n = 0 then (Inr [], r1)
             else if n > cap
               then (Inl (Errorf ''datagram %d exceeds buffer %d'' [show_nat n, show_nat cap]), r1)
             else (case read_full n r1 of
                     (Inl e, r2) \<Rightarrow> (Inl e, r2)
                   | (Inr p, r2) \<Rightarrow> (Inr p, r2)))"

text \<open>A writer that keeps everything it is given: one direction of a smux stream.\<close>

definition pipe_write :: "byte list writer" where
  "pipe_write w bs = (None, w @ bs)"

definition frame :: "byte list \<Rightarrow> byte list" where
  "frame p = put_uint16 (of_nat (length p)) @ p"

lemma read_full_append [simp]: "length p = n \<Longrightarrow> read_full n (p @ rest) = (Inr p, rest)"
  by (simp add: read_full_def)

lemma WriteDatagram_pipe:
  "length p \<le> MaxDatagram \<Longrightarrow> WriteDatagram pipe_write w p = (None, w @ frame p)"
  by (simp add: WriteDatagram_def pipe_write_def frame_def)

lemma unat_len16: "length p \<le> MaxDatagram \<Longrightarrow> unat (of_nat (length p) :: 16 word) = length p"
  by (simp add: MaxDatagram_def unat_of_nat)

lemma length_frame: "length (frame p) = length p + 2"
  by (simp add: frame_def)

lemma ReadDatagram_frame:
  assumes "length p \<le> MaxDatagram" and "length p \<le> cap"
  shows "ReadDatagram (frame p @ rest) cap = (Inr p, rest)"
  using assms get_put_uint16 [of "of_nat (length p)" "[]"]
  by (auto simp: ReadDatagram_def frame_def unat_len16 Let_def)

lemma ReadDatagram_bound: "ReadDatagram r cap = (Inr p, r') \<Longrightarrow> length p \<le> cap"
  by (auto simp: ReadDatagram_def read_full_def Let_def split: if_splits sum.splits)

subsection \<open>Framings: what a client of a byte stream relies on\<close>

text \<open>
  Sender and receiver of a byte stream agree on a framing: \<open>unframe\<close> takes one message
  off the stream and leaves the rest. From that alone a receiver that reads in a loop sees
  the sender's messages, in order and with their boundaries.
\<close>

fun read_n :: "(byte list \<Rightarrow> 'm res \<times> byte list) \<Rightarrow> nat \<Rightarrow> byte list \<Rightarrow> 'm list res \<times> byte list" where
  "read_n rd 0 s = (Inr [], s)"
| "read_n rd (Suc n) s =
     (case rd s of
        (Inl e, s') \<Rightarrow> (Inl e, s')
      | (Inr m, s') \<Rightarrow>
          (case read_n rd n s' of
             (Inl e, s'') \<Rightarrow> (Inl e, s'') | (Inr ms, s'') \<Rightarrow> (Inr (m # ms), s'')))"

locale framing =
  fixes enframe :: "'m \<Rightarrow> byte list"
    and unframe :: "byte list \<Rightarrow> 'm res \<times> byte list"
    and fits :: "'m \<Rightarrow> bool"
  assumes unframe_enframe: "fits m \<Longrightarrow> unframe (enframe m @ rest) = (Inr m, rest)"
begin

lemma read_n_concat:
  "list_all fits ms \<Longrightarrow>
     read_n unframe (length ms) (concat (map enframe ms) @ rest) = (Inr ms, rest)"
  by (induction ms) (simp_all add: unframe_enframe)

lemma enframe_unique:
  "fits m \<Longrightarrow> fits m' \<Longrightarrow> enframe m @ r = enframe m' @ r' \<Longrightarrow> m = m' \<and> r = r'"
  by (metis unframe_enframe Inr_inject prod.inject)

end

text \<open>A sender that writes payload after payload and stops at the first error.\<close>

fun write_all :: "'w writer \<Rightarrow> 'w \<Rightarrow> byte list list \<Rightarrow> error option \<times> 'w" where
  "write_all wr w [] = (None, w)"
| "write_all wr w (p # ps) =
     (case WriteDatagram wr w p of (Some e, w') \<Rightarrow> (Some e, w') | (None, w') \<Rightarrow> write_all wr w' ps)"

lemma write_all_pipe:
  "list_all (\<lambda>p. length p \<le> MaxDatagram) ps \<Longrightarrow>
     write_all pipe_write w ps = (None, w @ concat (map frame ps))"
  by (induction ps arbitrary: w) (simp_all add: WriteDatagram_pipe)

lemma ReadDatagram_prefix:
  assumes "length p \<le> MaxDatagram" and "length p \<le> cap" and "k < length (frame p)"
  shows "ReadDatagram (take k (frame p)) cap
     = (Inl (if k = 0 \<or> k = 2 then io_EOF else io_ErrUnexpectedEOF), [])"
proof (cases "k < 2")
  case True
  then show ?thesis
    by (cases "k = 0") (auto simp: ReadDatagram_def read_full_def frame_def put_uint16_def)
next
  case False
  define h where "h = put_uint16 (of_nat (length p))"
  have h: "length h = 2" "unat (get_uint16 h) = length p"
    using assms(1) get_put_uint16 [of "of_nat (length p)" "[]"] by (simp_all add: h_def unat_len16)
  have "take k (frame p) = h @ take (k - 2) p"
    using False h(1) by (simp add: frame_def h_def)
  moreover have "k - 2 < length p" "p \<noteq> []" using assms(3) False h(1) by (auto simp: frame_def h_def)
  ultimately show ?thesis
    using assms(2) False h by (auto simp: ReadDatagram_def read_full_def Let_def)
qed

text \<open>The datagram framing, for every buffer size, and the 8-byte flow identifier that
  answers a datagram-flow request (\<^verbatim>\<open>binary.Write\<close> and \<^verbatim>\<open>binary.Read\<close> of a \<^verbatim>\<open>uint64\<close>).\<close>

interpretation dg: framing frame "\<lambda>r. ReadDatagram r cap" "\<lambda>p. length p \<le> MaxDatagram \<and> length p \<le> cap"
  for cap
  by unfold_locales (simp add: ReadDatagram_frame)

definition read_uint64 :: "byte list \<Rightarrow> (64 word) res \<times> byte list" where
  "read_uint64 r =
     (case read_full 8 r of (Inl e, r') \<Rightarrow> (Inl e, r') | (Inr b, r') \<Rightarrow> (Inr (get_uint64 b), r'))"

interpretation fid: framing put_uint64 read_uint64 "\<lambda>_. True"
  using get_put_uint64 [where bs = "[]"] by unfold_locales (simp add: read_uint64_def)

section \<open>Flow headers of QUIC datagrams (dgram.go)\<close>

definition DatagramHeaderLen :: nat where "DatagramHeaderLen = 8"

definition EncodeDatagram :: "64 word \<Rightarrow> byte list \<Rightarrow> byte list" where
  "EncodeDatagram flowID payload = put_uint64 flowID @ payload"

text \<open>\<open>None\<close> is the \<^verbatim>\<open>ok = false\<close> result.\<close>

definition DecodeDatagram :: "byte list \<Rightarrow> (64 word \<times> byte list) option" where
  "DecodeDatagram b =
     (if length b < DatagramHeaderLen then None
      else Some (get_uint64 (take DatagramHeaderLen b), drop DatagramHeaderLen b))"

lemma Decode_Encode: "DecodeDatagram (EncodeDatagram f p) = Some (f, p)"
  using get_put_uint64 [of f "[]"]
  by (simp add: DecodeDatagram_def EncodeDatagram_def DatagramHeaderLen_def)

lemma Encode_Decode: "DecodeDatagram b = Some (f, p) \<Longrightarrow> EncodeDatagram f p = b"
  using put_get_uint64 [of "take 8 b" "[]"]
  by (auto simp: DecodeDatagram_def EncodeDatagram_def DatagramHeaderLen_def split: if_splits)

section \<open>Control messages and ping (proto.go)\<close>

definition Ping :: byte where "Ping = 0x01"
definition Pong :: byte where "Pong = 0x02"
definition TCPF :: byte where "TCPF = 0x03"
definition TCP :: byte where "TCP = 0x04"
definition UDP :: byte where "UDP = 0x05"
definition UDPDGRAM :: byte where "UDPDGRAM = 0x06"

lemmas msg_type_defs = Ping_def Pong_def TCPF_def TCP_def UDP_def UDPDGRAM_def

record Message =
  Type :: byte
  MAddr :: "Addr option"
  MTCPF :: "TCPFlagSet list"

definition message :: "byte \<Rightarrow> Message" where
  "message t = \<lparr>Type = t, MAddr = None, MTCPF = []\<rparr>"

text \<open>
  \<^verbatim>\<open>Message.Write\<close> and \<^verbatim>\<open>Message.Read\<close> go through \<^verbatim>\<open>encoding/gob\<close>, whose format stays a
  parameter: \<open>enc\<close> gives the bytes of a message, \<open>dec\<close> takes one message off the stream.
\<close>

type_synonym gob_enc = "Message \<Rightarrow> byte list"
type_synonym gob_dec = "byte list \<Rightarrow> Message res \<times> byte list"

definition msg_Write :: "gob_enc \<Rightarrow> 'w writer \<Rightarrow> 'w \<Rightarrow> Message \<Rightarrow> error option \<times> 'w" where
  "msg_Write enc wr w m = wr w (enc m)"

definition PingRoundTrip ::
  "gob_enc \<Rightarrow> gob_dec \<Rightarrow> 'w writer \<Rightarrow> 'w \<Rightarrow> ('w \<Rightarrow> byte list) \<Rightarrow> error option \<times> 'w" where
  \<comment> \<open>\<open>reply\<close>: what the stream delivers once the request has been written\<close>
  "PingRoundTrip enc dec wr w reply =
     (case msg_Write enc wr w (message Ping) of
        (Some e, w1) \<Rightarrow> (Some e, w1)
      | (None, w1) \<Rightarrow>
          (case dec (reply w1) of
             (Inl e, _) \<Rightarrow> (Some e, w1)
           | (Inr resp, _) \<Rightarrow>
               if Type resp \<noteq> Pong then (Some io_ErrUnexpectedEOF, w1) else (None, w1)))"

definition ServePing ::
  "gob_enc \<Rightarrow> gob_dec \<Rightarrow> 'w writer \<Rightarrow> 'w \<Rightarrow> byte list \<Rightarrow> error option \<times> 'w" where
  "ServePing enc dec wr w input =
     (case dec input of
        (Inl e, _) \<Rightarrow> (Some e, w)
      | (Inr msg, _) \<Rightarrow>
          if Type msg \<noteq> Ping then (Some io_ErrUnexpectedEOF, w)
          else msg_Write enc wr w (message Pong))"

section \<open>Properties\<close>

text \<open>C38. Datagram framing: any sequence of payloads that fit a frame and the reader's buffer,
  written one after the other to a byte stream, is read back in the same order with the same
  boundaries, and what follows on the stream is left untouched.\<close>

theorem datagram_stream_roundtrip:
  assumes "list_all (\<lambda>p. length p \<le> MaxDatagram \<and> length p \<le> cap) ps"
  shows "\<exists>s. write_all pipe_write [] ps = (None, s)
     \<and> read_n (\<lambda>r. ReadDatagram r cap) (length ps) (s @ rest) = (Inr ps, rest)"
  using assms write_all_pipe [of ps "[]"] dg.read_n_concat [OF assms, of rest]
  by (simp add: list_all_iff)

theorem datagram_stream_roundtrip_witness:
  "\<exists>s. write_all pipe_write [] [[1, 2, 3], [], [0xFF]] = (None, s)
     \<and> read_n (\<lambda>r. ReadDatagram r 4) 3 (s @ [7]) = (Inr [[1, 2, 3], [], [0xFF]], [7])"
  using datagram_stream_roundtrip [of 4 "[[1, 2, 3], [], [0xFF]]" "[7]"]
  by (simp add: MaxDatagram_def numeral_3_eq_3)

text \<open>A stream cut inside a frame never yields a payload: reading a proper prefix of a frame
  reports \<^verbatim>\<open>io.EOF\<close> when nothing or exactly the length header arrived and
  \<^verbatim>\<open>io.ErrUnexpectedEOF\<close> everywhere else, and a payload beyond \<^verbatim>\<open>MaxDatagram\<close> is refused
  without writing anything.\<close>

lemma datagram_truncated:
  assumes "length p \<le> MaxDatagram" and "length p \<le> cap" and "k < length (frame p)"
  shows "ReadDatagram (take k (frame p)) cap
     = (Inl (if k = 0 \<or> k = 2 then io_EOF else io_ErrUnexpectedEOF), [])
   \<and> (MaxDatagram < length q \<longrightarrow>
      WriteDatagram wr w q = (Some (Errorf ''datagram too large: %d'' [show_nat (length q)]), w))"
  using assms by (simp_all add: ReadDatagram_prefix WriteDatagram_def)

text \<open>The QUIC datagram header: decoding succeeds exactly on what encoding produces, and
  recovers the flow identifier and the payload.\<close>

lemma flow_header_roundtrip:
  "DecodeDatagram b = Some (flowID, payload) \<longleftrightarrow> b = EncodeDatagram flowID payload"
  using Decode_Encode Encode_Decode by metis

text \<open>Ping: when the codec reads back the two control messages, a client whose request is
  answered by \<^verbatim>\<open>ServePing\<close> gets no error, and the server gets none either.\<close>

lemma ping_served:
  assumes "dec (enc (message Ping)) = (Inr (message Ping), [])"
    and "dec (enc (message Pong)) = (Inr (message Pong), [])"
  shows "PingRoundTrip enc dec pipe_write [] (\<lambda>req. snd (ServePing enc dec pipe_write [] req))
       = (None, enc (message Ping))
     \<and> fst (ServePing enc dec pipe_write [] (enc (message Ping))) = None"
  using assms
  by (simp_all add: PingRoundTrip_def ServePing_def msg_Write_def pipe_write_def message_def
      msg_type_defs)

end
