(* ===== verification/Config.thy ===== *)
theory Config
  imports Netutil
begin

text \<open>
  \<^verbatim>\<open>internal/config/config.go\<close> and the parts of \<^verbatim>\<open>upstream.go\<close> validation depends on: the
  configuration as the YAML decoder leaves it, the port-range syntax, transport merging
  and \<^verbatim>\<open>Validate\<close>, which checks a configuration and fills in its defaults in place. The
  model of \<^verbatim>\<open>Validate\<close> returns the updated configuration, or the error of the first check
  that fails.
\<close>

section \<open>Data\<close>

record HealthCheckConfig =
  hc_Interval :: string
  hc_Timeout :: string
  hc_FailThreshold :: int
  hc_RecoverThreshold :: int

record KCPConfig =
  k_Mode :: string
  k_Block :: string
  k_Key :: string
  k_MTU :: int
  k_DataShard :: int
  k_ParityShard :: int
  k_SndWnd :: int
  k_RcvWnd :: int

record QUICConfig =
  q_ALPN :: string
  q_IdleTimeout :: string
  q_MaxIdleTimeout :: string

record TransportConfig =
  t_Protocol :: string
  t_Conn :: int
  t_KCP :: KCPConfig
  t_QUIC :: QUICConfig

record UpstreamServer =
  us_Name :: string
  us_Addr :: string
  us_Key :: string
  us_Weight :: int
  us_Priority :: int
  us_Transport :: "TransportConfig option"

record UpstreamConfig =
  u_Strategy :: string
  u_HealthCheck :: HealthCheckConfig
  u_Servers :: "UpstreamServer list"

record ForwardRule =
  f_Listen :: string
  f_Target :: string
  f_Protocol :: string
  f_BindUpstream :: string

record SOCKSAuth =
  sa_User :: string
  sa_Pass :: string

record SOCKS5Rule =
  s_Listen :: string
  s_Auth :: "SOCKSAuth option"

record RangeConfig =
  r_Enabled :: bool
  r_Protocol :: string
  r_RedirectPort :: int
  r_TargetHost :: string
  r_Ports :: string
  r_Exclude :: string
  r_BindUpstream :: string

record IPConfig =
  ip_Addr :: string
  ip_RouterMAC :: string

record TCPFlagsConfig =
  tf_LocalFlag :: "string list"
  tf_RemoteFlag :: "string list"

record NetworkConfig =
  n_Interface :: string
  n_IPv4 :: IPConfig
  n_IPv6 :: "IPConfig option"
  n_TCP :: TCPFlagsConfig

record AdminConfig =
  ad_Listen :: string
  ad_Metrics :: bool
  ad_Token :: string

text \<open>\<^verbatim>\<open>Log\<close>, \<^verbatim>\<open>Listen\<close> and \<^verbatim>\<open>Server\<close> have one string field each; a nil pointer is \<open>None\<close>.\<close>

record Config =
  c_Core :: string
  c_Version :: int
  c_Role :: string
  c_Name :: string
  c_LogLevel :: string
  c_Upstream :: "UpstreamConfig option"
  c_Forward :: "ForwardRule list"
  c_SOCKS5 :: "SOCKS5Rule list"
  c_Range :: "RangeConfig option"
  c_Listen :: "string option"
  c_Network :: NetworkConfig
  c_Server :: "string option"
  c_Transport :: TransportConfig
  c_Admin :: "AdminConfig option"

definition RoleClient :: string where "RoleClient = ''client''"
definition RoleServer :: string where "RoleServer = ''server''"

abbreviation blank :: "string \<Rightarrow> bool" where
  "blank s \<equiv> trim_space s = []"

section \<open>Port ranges\<close>

definition port_ok :: "int \<Rightarrow> bool" where
  "port_ok p = (1 \<le> p \<and> p \<le> 65535)"

definition parse_exclude_part :: "string \<Rightarrow> int res" where
  "parse_exclude_part part =
     (case atoi part of
        None \<Rightarrow> Inl (Errorf ''invalid exclude port %q'' [part])
      | Some p \<Rightarrow> if p < 1 \<or> 65535 < p then Inl (Errorf ''invalid exclude port %q'' [part]) else Inr p)"

definition parse_port_part :: "string \<Rightarrow> (int \<times> int) res" where
  "parse_port_part part =
     (if CHR ''-'' \<in> set part then
        (let (a, b) = split2 CHR ''-'' part
         in case (atoi (trim_space a), atoi (trim_space b)) of
              (Some lo, Some hi) \<Rightarrow>
                if lo < 1 \<or> 65535 < hi \<or> hi < lo then Inl (Errorf ''invalid port range %q'' [part])
                else Inr (lo, hi)
            | _ \<Rightarrow> Inl (Errorf ''invalid port range %q'' [part]))
      else
        (case atoi part of
           None \<Rightarrow> Inl (Errorf ''invalid port %q'' [part])
         | Some p \<Rightarrow> if p < 1 \<or> 65535 < p then Inl (Errorf ''invalid port %q'' [part]) else Inr (p, p)))"

text \<open>The parts between commas, trimmed; empty parts are skipped.\<close>

definition comma_parts :: "string \<Rightarrow> string list" where
  "comma_parts s = filter (\<lambda>p. p \<noteq> []) (map trim_space (split_on CHR '','' s))"

definition parsePortRanges :: "string \<Rightarrow> (int \<times> int) list res" where
  "parsePortRanges s =
     (case map_res parse_port_part (comma_parts s) of
        Inl e \<Rightarrow> Inl e
      | Inr [] \<Rightarrow> Inl (Errorf ''no ports specified'' [])
      | Inr out \<Rightarrow> Inr out)"

definition PortRanges :: "RangeConfig \<Rightarrow> (int \<times> int) list res" where
  "PortRanges r = parsePortRanges (r_Ports r)"

definition ExcludePorts :: "RangeConfig \<Rightarrow> int list res" where
  "ExcludePorts r = map_res parse_exclude_part (comma_parts (r_Exclude r))"

lemma parse_port_part_bounds:
  "parse_port_part p = Inr (lo, hi) \<Longrightarrow> 1 \<le> lo \<and> lo \<le> hi \<and> hi \<le> 65535"
  by (auto simp: parse_port_part_def split: if_splits option.splits prod.splits)

lemma parsePortRanges_Inr:
  "parsePortRanges s = Inr rs \<longleftrightarrow> rs \<noteq> [] \<and> map_res parse_port_part (comma_parts s) = Inr rs"
  by (auto simp: parsePortRanges_def split: sum.splits list.splits)

text \<open>The notation of a list of ranges, and that the parser reads it back.\<close>

definition show_range :: "int \<times> int \<Rightarrow> string" where
  "show_range r = (case r of (lo, hi) \<Rightarrow>
     if lo = hi then itoa lo else itoa lo @ CHR ''-'' # itoa hi)"

definition range_ok :: "int \<times> int \<Rightarrow> bool" where
  "range_ok r = (case r of (lo, hi) \<Rightarrow> 1 \<le> lo \<and> lo \<le> hi \<and> hi \<le> 65535)"

lemma itoa_port_free: "1 \<le> p \<Longrightarrow> CHR '','' \<notin> set (itoa p) \<and> CHR ''-'' \<notin> set (itoa p)"
  using itoa_free_nonneg [of "CHR '',''" p] itoa_free_nonneg [of "CHR ''-''" p]
  by (simp add: is_digit_def)

lemma show_range_shape:
  assumes "range_ok r"
  shows "CHR '','' \<notin> set (show_range r)" "list_all graphic (show_range r)" "show_range r \<noteq> []"
  using assms itoa_port_free [of "fst r"] itoa_port_free [of "snd r"] itoa_graphic
  by (auto simp: show_range_def range_ok_def graphic_def split: prod.splits)

lemma parse_show_range:
  assumes "range_ok r"
  shows "parse_port_part (show_range r) = Inr r"
proof -
  obtain lo hi where r: "r = (lo, hi)" by (cases r)
  with assms have b: "1 \<le> lo" "lo \<le> hi" "hi \<le> 65535" by (auto simp: range_ok_def)
  have i: "int64 lo" "int64 hi" using b by (auto simp: int64_def)
  show ?thesis
    using b i itoa_port_free [of lo] itoa_port_free [of hi]
    by (simp add: parse_port_part_def show_range_def r split2_append trim_space_graphic [OF itoa_graphic])
qed

lemma comma_parts_join:
  assumes "rs \<noteq> []" and "list_all range_ok rs"
  shows "comma_parts (join_with CHR '','' (map show_range rs)) = map show_range rs"
proof -
  have ok: "\<And>r. r \<in> set rs \<Longrightarrow> range_ok r" using assms(2) by (auto simp: list_all_iff)
  then have "split_on CHR '','' (join_with CHR '','' (map show_range rs)) = map show_range rs"
    using assms(1) show_range_shape(1) by (intro split_on_join) auto
  moreover have "map trim_space (map show_range rs) = map show_range rs"
    using ok show_range_shape(2) by (auto simp: trim_space_graphic)
  moreover have "filter (\<lambda>p. p \<noteq> []) (map show_range rs) = map show_range rs"
    using ok show_range_shape(3) by (auto simp: filter_id_conv)
  ultimately show ?thesis by (simp add: comma_parts_def del: map_map)
qed

lemma parsePortRanges_show:
  assumes "rs \<noteq> []" and "list_all range_ok rs"
  shows "parsePortRanges (join_with CHR '','' (map show_range rs)) = Inr rs"
proof -
  have "map_res parse_port_part (map show_range rs) = Inr rs"
    using assms(2) by (induction rs) (auto simp: parse_show_range)
  with assms show ?thesis by (simp add: parsePortRanges_Inr comma_parts_join)
qed

lemma ExcludePorts_bounds: "ExcludePorts r = Inr ps \<Longrightarrow> p \<in> set ps \<Longrightarrow> port_ok p"
  by (auto simp: ExcludePorts_def parse_exclude_part_def port_ok_def
      dest!: map_res_set split: option.splits if_splits)

section \<open>Transport settings\<close>

definition mergeTransport :: "TransportConfig \<Rightarrow> TransportConfig option \<Rightarrow> TransportConfig" where
  "mergeTransport base over =
     (case over of None \<Rightarrow> base
      | Some ov \<Rightarrow>
          \<lparr>t_Protocol = (if t_Protocol ov \<noteq> [] then t_Protocol ov else t_Protocol base),
           t_Conn = (if t_Conn ov > 0 then t_Conn ov else t_Conn base),
           t_KCP =
             (let b = t_KCP base; k = t_KCP ov
              in \<lparr>k_Mode = (if k_Mode k \<noteq> [] then k_Mode k else k_Mode b),
                  k_Block = (if k_Block k \<noteq> [] then k_Block k else k_Block b),
                  k_Key = (if k_Key k \<noteq> [] then k_Key k else k_Key b),
                  k_MTU = (if k_MTU k > 0 then k_MTU k else k_MTU b),
                  k_DataShard = (if k_DataShard k > 0 then k_DataShard k else k_DataShard b),
                  k_ParityShard = (if k_ParityShard k > 0 then k_ParityShard k else k_ParityShard b),
                  k_SndWnd = (if k_SndWnd k > 0 then k_SndWnd k else k_SndWnd b),
                  k_RcvWnd = (if k_RcvWnd k > 0 then k_RcvWnd k else k_RcvWnd b)\<rparr>),
           t_QUIC =
             (let b = t_QUIC base; q = t_QUIC ov
              in \<lparr>q_ALPN = (if q_ALPN q \<noteq> [] then q_ALPN q else q_ALPN b),
                  q_IdleTimeout = (if q_IdleTimeout q \<noteq> [] then q_IdleTimeout q else q_IdleTimeout b),
                  q_MaxIdleTimeout =
                    (if q_MaxIdleTimeout q \<noteq> [] then q_MaxIdleTimeout q else q_MaxIdleTimeout b)\<rparr>)\<rparr>)"

lemma first_string:
  "(if (if z \<noteq> [] then z else y) \<noteq> [] then (if z \<noteq> [] then z else y) else x)
     = (if z \<noteq> [] then z else if y \<noteq> [] then y else x)" for z :: "'a list"
  by simp

lemma first_positive:
  "(if 0 < (if 0 < z then z else y) then (if 0 < z then z else y) else x)
     = (if 0 < z then z else if 0 < y then y else x)" for z :: int
  by simp

text \<open>
  \<^verbatim>\<open>validateTransport\<close>. The shard counts are added as 64-bit integers, so their sum wraps.
\<close>

definition check_kcp :: "string \<Rightarrow> KCPConfig \<Rightarrow> KCPConfig res" where
  "check_kcp label k0 =
     (let k1 = (if blank (k_Mode k0) then k0\<lparr>k_Mode := ''fast''\<rparr> else k0);
          k2 = (if blank (k_Block k1) then k1\<lparr>k_Block := ''aes-128-gcm''\<rparr> else k1);
          k = (if k_MTU k2 \<le> 0 then k2\<lparr>k_MTU := 1150\<rparr> else k2)
      in if k_DataShard k < 0 \<or> k_ParityShard k < 0
           then Inl (Errorf ''%s.kcp data_shard/parity_shard must be >= 0'' [label])
         else if k_ParityShard k > 0 \<and> k_DataShard k = 0
           then Inl (Errorf ''%s.kcp.data_shard must be > 0 when parity_shard is set'' [label])
         else if wrap64 (k_DataShard k + k_ParityShard k) > 255
           then Inl (Errorf ''%s.kcp data_shard+parity_shard must be <= 255'' [label])
         else if k_SndWnd k < 0 \<or> k_RcvWnd k < 0
           then Inl (Errorf ''%s.kcp snd_wnd/rcv_wnd must be >= 0'' [label])
         else Inr k)"

definition norm_proto :: "TransportConfig \<Rightarrow> string" where
  "norm_proto t = to_lower (trim_space (t_Protocol t))"

definition validateTransport :: "TransportConfig \<Rightarrow> string \<Rightarrow> TransportConfig res" where
  "validateTransport t0 label =
     (let p0 = norm_proto t0;
          proto = (if p0 = [] then ''kcp'' else p0);
          t1 = (if p0 = [] then t0\<lparr>t_Protocol := ''kcp''\<rparr> else t0)
      in if proto \<noteq> ''kcp'' \<and> proto \<noteq> ''quic''
           then Inl (Errorf ''%s.protocol: must be kcp or quic'' [label])
         else
           let t2 = (if t_Conn t1 < 1 then t1\<lparr>t_Conn := 6\<rparr> else t1)
           in if blank (k_Key (t_KCP t2))
                then Inl (Errorf ''%s.kcp.key is required (shared secret for kcp and quic)'' [label])
              else if proto = ''kcp'' then
                (case check_kcp label (t_KCP t2) of
                   Inl e \<Rightarrow> Inl e | Inr k \<Rightarrow> Inr (t2\<lparr>t_KCP := k\<rparr>))
              else Inr (if blank (q_ALPN (t_QUIC t2))
                        then t2\<lparr>t_QUIC := (t_QUIC t2)\<lparr>q_ALPN := ''paqetpremium''\<rparr>\<rparr> else t2))"

section \<open>Upstream names\<close>

text \<open>The name of the \<open>i\<close>-th configured server.\<close>

definition server_name :: "nat \<Rightarrow> UpstreamServer \<Rightarrow> string" where
  "server_name i s =
     (if blank (us_Name s) then ''upstream-'' @ show_nat (i + 1) else trim_space (us_Name s))"

definition has_servers :: "Config \<Rightarrow> bool" where
  "has_servers c = (case c_Upstream c of None \<Rightarrow> False | Some u \<Rightarrow> u_Servers u \<noteq> [])"

definition has_server_addr :: "Config \<Rightarrow> bool" where
  "has_server_addr c = (case c_Server c of None \<Rightarrow> False | Some a \<Rightarrow> \<not> blank a)"

definition upstreamNameSet :: "Config \<Rightarrow> string set" where
  "upstreamNameSet c =
     (if has_servers c
      then set (map (\<lambda>(i, s). server_name i s) (enumerate 0 (u_Servers (the (c_Upstream c)))))
      else if has_server_addr c then {''default''} else {})"

section \<open>Validation\<close>

definition check_network :: "Config \<Rightarrow> error option" where
  "check_network c =
     (let n = c_Network c
      in if blank (n_Interface n) then Some (Errorf ''network.interface is required'' [])
         else if blank (ip_Addr (n_IPv4 n)) then Some (Errorf ''network.ipv4.addr is required'' [])
         else if blank (ip_RouterMAC (n_IPv4 n))
           then Some (Errorf ''network.ipv4.router_mac is required'' [])
         else (case n_IPv6 n of None \<Rightarrow> None
               | Some v6 \<Rightarrow>
                   if \<not> blank (ip_Addr v6) \<and> blank (ip_RouterMAC v6)
                   then Some (Errorf ''network.ipv6.router_mac is required when ipv6.addr is set'' [])
                   else None))"

definition range_on :: "Config \<Rightarrow> bool" where
  "range_on c = (case c_Range c of None \<Rightarrow> False | Some r \<Rightarrow> r_Enabled r)"

text \<open>The defaults of an enabled range block, then the checks of its two port lists.\<close>

definition range_defaults :: "RangeConfig \<Rightarrow> RangeConfig" where
  "range_defaults r1 =
     (let r2 = (if r_RedirectPort r1 \<le> 0 then r1\<lparr>r_RedirectPort := 47999\<rparr> else r1);
          r3 = (if blank (r_TargetHost r2) then r2\<lparr>r_TargetHost := ''127.0.0.1''\<rparr> else r2);
          r4 = (if blank (r_Ports r3) then r3\<lparr>r_Ports := ''1-65535''\<rparr> else r3)
      in if blank (r_Exclude r4) then r4\<lparr>r_Exclude := ''22''\<rparr> else r4)"

definition check_range :: "RangeConfig \<Rightarrow> RangeConfig res" where
  "check_range r0 =
     (let r1 = (if blank (r_Protocol r0) then r0\<lparr>r_Protocol := ''tcp''\<rparr> else r0)
      in if r_Protocol r1 \<noteq> ''tcp'' then Inl (Errorf ''range.protocol: only tcp is supported'' [])
         else
           let r = range_defaults r1
           in (case PortRanges r of
                 Inl e \<Rightarrow> Inl (Wrapf ''range.ports: %w'' [] e)
               | Inr _ \<Rightarrow>
                   (case ExcludePorts r of
                      Inl e \<Rightarrow> Inl (Wrapf ''range.exclude: %w'' [] e)
                    | Inr _ \<Rightarrow> Inr r)))"

fun check_forward_binds :: "string set \<Rightarrow> ForwardRule list \<Rightarrow> error option" where
  "check_forward_binds names [] = None"
| "check_forward_binds names (r # rs) =
     (if \<not> blank (f_BindUpstream r) \<and> trim_space (f_BindUpstream r) \<notin> names
      then Some (Errorf ''forward rule %q: bind_upstream %q does not match any upstream''
                   [f_Listen r, f_BindUpstream r])
      else check_forward_binds names rs)"

definition check_range_bind :: "string set \<Rightarrow> RangeConfig \<Rightarrow> error option" where
  "check_range_bind names r =
     (if \<not> blank (r_BindUpstream r) \<and> trim_space (r_BindUpstream r) \<notin> names
      then Some (Errorf ''range.bind_upstream %q does not match any upstream'' [r_BindUpstream r])
      else None)"

definition check_binds :: "Config \<Rightarrow> error option" where
  "check_binds c =
     (case check_forward_binds (upstreamNameSet c) (c_Forward c) of
        Some e \<Rightarrow> Some e
      | None \<Rightarrow>
          (case c_Range c of None \<Rightarrow> None
           | Some r \<Rightarrow> if r_Enabled r then check_range_bind (upstreamNameSet c) r else None))"

definition validate_server :: "Config \<Rightarrow> Config res" where
  "validate_server c =
     (case c_Listen c of
        None \<Rightarrow> Inl (Errorf ''listen.addr is required for server role'' [])
      | Some a \<Rightarrow> if blank a then Inl (Errorf ''listen.addr is required for server role'' []) else Inr c)"

definition validate_range :: "Config \<Rightarrow> Config res" where
  "validate_range c =
     (case c_Range c of None \<Rightarrow> Inr c
      | Some r \<Rightarrow>
          if \<not> r_Enabled r then Inr c
          else (case check_range r of Inl e \<Rightarrow> Inl e | Inr r' \<Rightarrow> Inr (c\<lparr>c_Range := Some r'\<rparr>)))"

definition validate_client :: "Config \<Rightarrow> Config res" where
  "validate_client c0 =
     (if \<not> has_servers c0 \<and> \<not> has_server_addr c0
      then Inl (Errorf ''client requires upstream.servers or server.addr'' [])
      else (case validate_range c0 of Inl e \<Rightarrow> Inl e
            | Inr c \<Rightarrow>
                if c_Forward c = [] \<and> c_SOCKS5 c = [] \<and> \<not> range_on c
                then Inl (Errorf ''client requires forward, socks5, or range rules'' [])
                else (case check_binds c of Some e \<Rightarrow> Inl e | None \<Rightarrow> Inr c)))"

text \<open>
  The loop over \<^verbatim>\<open>upstream.servers\<close>: the merged transport is validated on a copy, which is
  dropped again. The label is \<^verbatim>\<open>upstream "name"\<close>.
\<close>

definition upstream_label :: "string \<Rightarrow> string" where
  "upstream_label name = ''upstream '' @ [CHR 0x22] @ name @ [CHR 0x22]"

definition check_server :: "TransportConfig \<Rightarrow> nat \<Rightarrow> UpstreamServer \<Rightarrow> error option" where
  "check_server tr i s =
     (if blank (us_Addr s) then Some (Errorf ''upstream.servers[%d].addr is required'' [show_nat i])
      else if blank (us_Key s) then Some (Errorf ''upstream.servers[%d].key is required'' [show_nat i])
      else (case us_Transport s of None \<Rightarrow> None
            | Some ov \<Rightarrow>
                let m0 = mergeTransport tr (Some ov);
                    m = m0\<lparr>t_KCP := (t_KCP m0)\<lparr>k_Key :=
                          (if \<not> blank (us_Key s) then us_Key s else k_Key (t_KCP tr))\<rparr>\<rparr>
                in (case validateTransport m (upstream_label (server_name i s)) of
                      Inl e \<Rightarrow> Some e | Inr _ \<Rightarrow> None)))"

fun check_servers :: "TransportConfig \<Rightarrow> nat \<Rightarrow> UpstreamServer list \<Rightarrow> error option" where
  "check_servers tr i [] = None"
| "check_servers tr i (s # ss) =
     (case check_server tr i s of Some e \<Rightarrow> Some e | None \<Rightarrow> check_servers tr (i + 1) ss)"

definition validate_upstream :: "Config \<Rightarrow> Config res" where
  "validate_upstream c =
     (case c_Upstream c of None \<Rightarrow> Inr c
      | Some u0 \<Rightarrow>
          let u = (if blank (u_Strategy u0) then u0\<lparr>u_Strategy := ''failover''\<rparr> else u0)
          in (case check_servers (c_Transport c) 0 (u_Servers u) of
                Some e \<Rightarrow> Inl e
              | None \<Rightarrow> Inr (c\<lparr>c_Upstream := Some u\<rparr>)))"

definition validate_log :: "Config \<Rightarrow> Config" where
  "validate_log c = (if blank (c_LogLevel c) then c\<lparr>c_LogLevel := ''info''\<rparr> else c)"

definition Validate :: "Config \<Rightarrow> Config res" where
  "Validate c0 =
     (let role = to_lower (trim_space (c_Role c0))
      in if role \<noteq> RoleClient \<and> role \<noteq> RoleServer
           then Inl (Errorf ''role must be %q or %q'' [RoleClient, RoleServer])
         else
           let c1 = c0\<lparr>c_Role := role\<rparr>
           in (case check_network c1 of Some e \<Rightarrow> Inl e
               | None \<Rightarrow>
                   (case validateTransport (c_Transport c1) ''transport'' of Inl e \<Rightarrow> Inl e
                    | Inr t \<Rightarrow>
                        let c2 = c1\<lparr>c_Transport := t\<rparr>
                        in (case (if role = RoleServer then validate_server c2 else validate_client c2) of
                              Inl e \<Rightarrow> Inl e
                            | Inr c3 \<Rightarrow>
                                (case validate_upstream c3 of Inl e \<Rightarrow> Inl e
                                 | Inr c4 \<Rightarrow> Inr (validate_log c4))))))"

text \<open>\<^verbatim>\<open>Load\<close>: the file and the YAML decoder are parameters.\<close>

definition Load :: "(string \<Rightarrow> byte list res) \<Rightarrow> (byte list \<Rightarrow> Config res) \<Rightarrow> string \<Rightarrow> Config res" where
  "Load read_file unmarshal path =
     (case read_file path of Inl e \<Rightarrow> Inl (Wrapf ''read config: %w'' [] e)
      | Inr data \<Rightarrow>
          (case unmarshal data of Inl e \<Rightarrow> Inl (Wrapf ''parse config: %w'' [] e)
           | Inr cfg \<Rightarrow> Validate cfg))"

section \<open>What a valid configuration is\<close>

text \<open>
  The specification of validation, without defaults and order of checks: \<open>Validate\<close> ends in
  a valid configuration and leaves a valid configuration as it is.
\<close>

definition valid_kcp :: "KCPConfig \<Rightarrow> bool" where
  "valid_kcp k \<longleftrightarrow> \<not> blank (k_Mode k) \<and> \<not> blank (k_Block k) \<and> 0 < k_MTU k
     \<and> 0 \<le> k_DataShard k \<and> 0 \<le> k_ParityShard k \<and> (0 < k_ParityShard k \<longrightarrow> 0 < k_DataShard k)
     \<and> wrap64 (k_DataShard k + k_ParityShard k) \<le> 255 \<and> 0 \<le> k_SndWnd k \<and> 0 \<le> k_RcvWnd k"

definition valid_transport :: "TransportConfig \<Rightarrow> bool" where
  "valid_transport t \<longleftrightarrow> 1 \<le> t_Conn t \<and> \<not> blank (k_Key (t_KCP t))
     \<and> (norm_proto t = ''kcp'' \<and> valid_kcp (t_KCP t)
        \<or> norm_proto t = ''quic'' \<and> \<not> blank (q_ALPN (t_QUIC t)))"

definition valid_range :: "RangeConfig \<Rightarrow> bool" where
  "valid_range r \<longleftrightarrow> r_Protocol r = ''tcp'' \<and> 0 < r_RedirectPort r \<and> \<not> blank (r_TargetHost r)
     \<and> \<not> blank (r_Ports r) \<and> \<not> blank (r_Exclude r)
     \<and> \<not> is_err (PortRanges r) \<and> \<not> is_err (ExcludePorts r)"

definition binds_to :: "string set \<Rightarrow> string \<Rightarrow> bool" where
  "binds_to names b \<longleftrightarrow> blank b \<or> trim_space b \<in> names"

definition valid_client :: "Config \<Rightarrow> bool" where
  "valid_client c \<longleftrightarrow> (has_servers c \<or> has_server_addr c)
     \<and> (\<forall>r. c_Range c = Some r \<longrightarrow> r_Enabled r
           \<longrightarrow> valid_range r \<and> binds_to (upstreamNameSet c) (r_BindUpstream r))
     \<and> (c_Forward c \<noteq> [] \<or> c_SOCKS5 c \<noteq> [] \<or> range_on c)
     \<and> (\<forall>r \<in> set (c_Forward c). binds_to (upstreamNameSet c) (f_BindUpstream r))"

definition valid_upstream :: "Config \<Rightarrow> bool" where
  "valid_upstream c \<longleftrightarrow> (\<forall>u. c_Upstream c = Some u \<longrightarrow>
     \<not> blank (u_Strategy u)
     \<and> (\<forall>(i, s) \<in> set (enumerate 0 (u_Servers u)). check_server (c_Transport c) i s = None))"

definition valid_config :: "Config \<Rightarrow> bool" where
  "valid_config c \<longleftrightarrow> (c_Role c = RoleClient \<and> valid_client c
        \<or> c_Role c = RoleServer \<and> (\<exists>a. c_Listen c = Some a \<and> \<not> blank a))
     \<and> check_network c = None \<and> valid_transport (c_Transport c) \<and> valid_upstream c
     \<and> \<not> blank (c_LogLevel c)"

lemma trim_literal [simp]:
  "trim_space ''kcp'' = ''kcp''" "trim_space ''fast'' = ''fast''" "trim_space ''tcp'' = ''tcp''"
  "trim_space ''aes-128-gcm'' = ''aes-128-gcm''" "trim_space ''paqetpremium'' = ''paqetpremium''"
  "trim_space ''127.0.0.1'' = ''127.0.0.1''" "trim_space ''1-65535'' = ''1-65535''"
  "trim_space ''22'' = ''22''" "trim_space ''failover'' = ''failover''" "trim_space ''info'' = ''info''"
  "trim_space ''client'' = ''client''" "trim_space ''server'' = ''server''"
  by (simp_all add: graphic_def)

lemma lower_literal [simp]:
  "to_lower ''kcp'' = ''kcp''" "to_lower ''client'' = ''client''" "to_lower ''server'' = ''server''"
  by (simp_all add: to_lower_graphic graphic_def lower_char_def)

lemma trim_empty [simp]: "trim_space [] = []"
  by (rule trim_space_graphic) simp

lemma check_kcp_valid: "check_kcp l k = Inr k' \<Longrightarrow> valid_kcp k'"
  by (auto simp: check_kcp_def valid_kcp_def Let_def split: if_splits)

lemma check_kcp_fix: "valid_kcp k \<Longrightarrow> check_kcp l k = Inr k"
  by (auto simp: check_kcp_def valid_kcp_def)

lemma check_kcp_key: "check_kcp l k = Inr k' \<Longrightarrow> k_Key k' = k_Key k"
  by (auto simp: check_kcp_def Let_def split: if_splits)

lemma validateTransport_valid: "validateTransport t l = Inr t' \<Longrightarrow> valid_transport t'"
  by (auto simp: validateTransport_def valid_transport_def norm_proto_def Let_def
      dest: check_kcp_valid check_kcp_key split: if_splits sum.splits)

lemma validateTransport_fix: "valid_transport t \<Longrightarrow> validateTransport t l = Inr t"
  by (auto simp: validateTransport_def valid_transport_def check_kcp_fix)

lemma range_defaults_set:
  "r_Protocol (range_defaults r) = r_Protocol r" "0 < r_RedirectPort (range_defaults r)"
  "\<not> blank (r_TargetHost (range_defaults r))" "\<not> blank (r_Ports (range_defaults r))"
  "\<not> blank (r_Exclude (range_defaults r))"
  by (simp_all add: range_defaults_def Let_def)

lemma range_defaults_id:
  "0 < r_RedirectPort r \<Longrightarrow> \<not> blank (r_TargetHost r) \<Longrightarrow> \<not> blank (r_Ports r) \<Longrightarrow> \<not> blank (r_Exclude r)
     \<Longrightarrow> range_defaults r = r"
  by (simp add: range_defaults_def)

lemma check_range_valid: "check_range r = Inr r' \<Longrightarrow> valid_range r'"
  using range_defaults_set
  by (auto simp: check_range_def valid_range_def Let_def split: if_splits sum.splits)

lemma check_range_fix: "valid_range r \<Longrightarrow> check_range r = Inr r"
  by (auto simp: check_range_def valid_range_def range_defaults_id split: sum.splits)

lemma check_forward_binds_iff:
  "check_forward_binds N rs = None \<longleftrightarrow> (\<forall>r \<in> set rs. binds_to N (f_BindUpstream r))"
  by (induction rs) (auto simp: binds_to_def)

lemma check_binds_iff:
  "check_binds c = None \<longleftrightarrow> (\<forall>r \<in> set (c_Forward c). binds_to (upstreamNameSet c) (f_BindUpstream r))
     \<and> (\<forall>r. c_Range c = Some r \<longrightarrow> r_Enabled r \<longrightarrow> binds_to (upstreamNameSet c) (r_BindUpstream r))"
proof -
  have "check_range_bind N r = None \<longleftrightarrow> binds_to N (r_BindUpstream r)" for N r
    by (simp add: check_range_bind_def binds_to_def)
  then show ?thesis
    unfolding check_forward_binds_iff [symmetric]
    by (cases "check_forward_binds (upstreamNameSet c) (c_Forward c)"; cases "c_Range c")
      (simp_all add: check_binds_def)
qed

lemma check_servers_iff:
  "check_servers tr i ss = None \<longleftrightarrow> (\<forall>(j, s) \<in> set (enumerate i ss). check_server tr j s = None)"
  by (induction ss arbitrary: i) (auto split: option.splits)

lemma upstreamNameSet_frame [simp]:
  "upstreamNameSet (c\<lparr>c_Range := r\<rparr>) = upstreamNameSet c"
  "upstreamNameSet (c\<lparr>c_LogLevel := l\<rparr>) = upstreamNameSet c"
  "has_servers (c\<lparr>c_Range := r\<rparr>) = has_servers c" "has_servers (c\<lparr>c_LogLevel := l\<rparr>) = has_servers c"
  "has_server_addr (c\<lparr>c_Range := r\<rparr>) = has_server_addr c"
  "has_server_addr (c\<lparr>c_LogLevel := l\<rparr>) = has_server_addr c"
  "has_server_addr (c\<lparr>c_Upstream := u\<rparr>) = has_server_addr c"
  by (simp_all add: upstreamNameSet_def has_servers_def has_server_addr_def)

lemma upstreamNameSet_strategy [simp]:
  assumes "c_Upstream c = Some u"
  shows "upstreamNameSet (c\<lparr>c_Upstream := Some (u\<lparr>u_Strategy := x\<rparr>)\<rparr>) = upstreamNameSet c"
    and "has_servers (c\<lparr>c_Upstream := Some (u\<lparr>u_Strategy := x\<rparr>)\<rparr>) = has_servers c"
  using assms by (simp_all add: upstreamNameSet_def has_servers_def has_server_addr_def)

lemma check_network_frame [simp]:
  "check_network (c\<lparr>c_Range := r\<rparr>) = check_network c"
  "check_network (c\<lparr>c_LogLevel := l\<rparr>) = check_network c"
  "check_network (c\<lparr>c_Upstream := u\<rparr>) = check_network c"
  "check_network (c\<lparr>c_Transport := t\<rparr>) = check_network c"
  by (simp_all add: check_network_def)

lemma validate_client_valid:
  assumes "validate_client c = Inr c'"
  shows "valid_client c' \<and> (\<exists>r. c' = c\<lparr>c_Range := r\<rparr>)"
proof -
  from assms obtain c1 where r: "validate_range c = Inr c1"
    and rules: "c_Forward c1 \<noteq> [] \<or> c_SOCKS5 c1 \<noteq> [] \<or> range_on c1"
    and binds: "check_binds c1 = None" and c': "c' = c1"
    and has: "has_servers c \<or> has_server_addr c"
    by (auto simp: validate_client_def split: if_splits sum.splits option.splits)
  from r have fr: "\<exists>r. c1 = c\<lparr>c_Range := r\<rparr>"
    by (cases "c_Range c") (auto simp: validate_range_def split: if_splits sum.splits intro: exI [of _ "c_Range c"])
  moreover from r have "\<forall>r. c_Range c1 = Some r \<longrightarrow> r_Enabled r \<longrightarrow> valid_range r"
    by (auto simp: validate_range_def dest: check_range_valid split: option.splits if_splits sum.splits)
  ultimately show ?thesis
    using rules binds has c' by (auto simp: valid_client_def check_binds_iff)
qed

lemma validate_client_fix: "valid_client c \<Longrightarrow> validate_client c = Inr c"
proof -
  assume v: "valid_client c"
  have "validate_range c = Inr c"
    using v by (cases "c_Range c") (auto simp: validate_range_def valid_client_def check_range_fix)
  moreover have "check_binds c = None"
    using v by (auto simp: valid_client_def check_binds_iff)
  ultimately show ?thesis using v by (auto simp: validate_client_def valid_client_def)
qed

lemma validate_upstream_valid:
  assumes "validate_upstream c = Inr c'"
  shows "valid_upstream c' \<and> (c' = c \<or> (\<exists>u x. c_Upstream c = Some u \<and> c' = c\<lparr>c_Upstream := Some (u\<lparr>u_Strategy := x\<rparr>)\<rparr>))"
  using assms
  by (cases "c_Upstream c")
    (force simp: validate_upstream_def valid_upstream_def Let_def check_servers_iff split: option.splits if_splits)+

lemma validate_upstream_fix: "valid_upstream c \<Longrightarrow> validate_upstream c = Inr c"
  by (cases "c_Upstream c")
    (simp_all add: validate_upstream_def valid_upstream_def flip: check_servers_iff)

text \<open>The stages after the role-specific one keep what it established.\<close>

lemma valid_client_frame:
  "valid_client c \<Longrightarrow> valid_client (validate_log c)"
  "valid_client c \<Longrightarrow> c_Upstream c = Some u
     \<Longrightarrow> valid_client (c\<lparr>c_Upstream := Some (u\<lparr>u_Strategy := x\<rparr>)\<rparr>)"
  by (auto simp: valid_client_def validate_log_def range_on_def)

lemma validate_log_simps [simp]:
  "\<not> blank (c_LogLevel (validate_log c))" "c_Role (validate_log c) = c_Role c"
  "check_network (validate_log c) = check_network c" "c_Transport (validate_log c) = c_Transport c"
  "c_Listen (validate_log c) = c_Listen c" "valid_upstream (validate_log c) = valid_upstream c"
  by (simp_all add: validate_log_def valid_upstream_def)

lemma Validate_valid:
  assumes "Validate c = Inr c'"
  shows "valid_config c'"
proof -
  let ?role = "to_lower (trim_space (c_Role c))"
  from assms obtain t c3 c4 where role: "?role = RoleClient \<or> ?role = RoleServer"
    and net: "check_network (c\<lparr>c_Role := ?role\<rparr>) = None"
    and t: "validateTransport (c_Transport c) ''transport'' = Inr t"
    and c3: "(if ?role = RoleServer then validate_server (c\<lparr>c_Role := ?role, c_Transport := t\<rparr>)
              else validate_client (c\<lparr>c_Role := ?role, c_Transport := t\<rparr>)) = Inr c3"
    and c4: "validate_upstream c3 = Inr c4" and c': "c' = validate_log c4"
    by (auto simp: Validate_def Let_def split: if_splits option.splits sum.splits)
  let ?c2 = "c\<lparr>c_Role := ?role, c_Transport := t\<rparr>"
  have c2: "check_network ?c2 = None" "valid_transport (c_Transport ?c2)"
    using net validateTransport_valid [OF t] by simp_all
  have ne: "RoleClient \<noteq> RoleServer" by (simp add: RoleClient_def RoleServer_def)
  have r3: "c_Role c3 = ?role \<and> check_network c3 = None \<and> c_Transport c3 = t
      \<and> (?role = RoleClient \<longrightarrow> valid_client c3)
      \<and> (?role = RoleServer \<longrightarrow> (\<exists>a. c_Listen c3 = Some a \<and> \<not> blank a))"
    using c3 role ne c2(1)
    by (auto simp: validate_server_def dest!: validate_client_valid split: if_splits option.splits)
  from validate_upstream_valid [OF c4] have v4: "valid_upstream c4"
    and cases4: "c4 = c3 \<or> (\<exists>u x. c_Upstream c3 = Some u \<and> c4 = c3\<lparr>c_Upstream := Some (u\<lparr>u_Strategy := x\<rparr>)\<rparr>)"
    by blast+
  have "c_Role c4 = ?role \<and> check_network c4 = None \<and> c_Transport c4 = t
      \<and> (?role = RoleClient \<longrightarrow> valid_client c4)
      \<and> (?role = RoleServer \<longrightarrow> (\<exists>a. c_Listen c4 = Some a \<and> \<not> blank a))"
    using cases4 r3 by (auto intro: valid_client_frame(2))
  then show ?thesis
    using role c2(2) v4 by (auto simp: c' valid_config_def intro: valid_client_frame(1))
qed

lemma Validate_fix:
  assumes "valid_config c"
  shows "Validate c = Inr c"
proof -
  have role: "to_lower (trim_space (c_Role c)) = c_Role c"
    "c_Role c = RoleClient \<or> c_Role c = RoleServer"
    using assms by (auto simp: valid_config_def RoleClient_def RoleServer_def)
  have stage: "(if c_Role c = RoleServer then validate_server c else validate_client c) = Inr c"
    using assms by (auto simp: valid_config_def validate_server_def validate_client_fix
        RoleClient_def RoleServer_def)
  have v: "check_network c = None" "valid_transport (c_Transport c)" "valid_upstream c"
    "\<not> blank (c_LogLevel c)"
    using assms by (auto simp: valid_config_def)
  show ?thesis
    using role(2) stage v
    by (auto simp: Validate_def Let_def role(1) validateTransport_fix validate_upstream_fix
        validate_log_def)
qed

lemma parsePortRanges_ok: "parsePortRanges s = Inr rs \<Longrightarrow> rs \<noteq> [] \<and> list_all range_ok rs"
  using parse_port_part_bounds
  by (fastforce simp: parsePortRanges_Inr list_all_iff range_ok_def dest: map_res_set)

section \<open>Sample configurations\<close>

definition sample_transport :: TransportConfig where
  "sample_transport = \<lparr>t_Protocol = [], t_Conn = 0,
     t_KCP = \<lparr>k_Mode = [], k_Block = [], k_Key = ''secret'', k_MTU = 0, k_DataShard = 0,
              k_ParityShard = 0, k_SndWnd = 0, k_RcvWnd = 0\<rparr>,
     t_QUIC = \<lparr>q_ALPN = [], q_IdleTimeout = [], q_MaxIdleTimeout = []\<rparr>\<rparr>"

definition sample_server :: Config where
  "sample_server = \<lparr>c_Core = [], c_Version = 1, c_Role = '' Server'', c_Name = [], c_LogLevel = [],
     c_Upstream = None, c_Forward = [], c_SOCKS5 = [], c_Range = None, c_Listen = Some '':9999'',
     c_Network = \<lparr>n_Interface = ''eth0'',
       n_IPv4 = \<lparr>ip_Addr = ''10.0.0.1:9999'', ip_RouterMAC = ''aa:bb:cc:dd:ee:ff''\<rparr>,
       n_IPv6 = None, n_TCP = \<lparr>tf_LocalFlag = [], tf_RemoteFlag = []\<rparr>\<rparr>,
     c_Server = None, c_Transport = sample_transport, c_Admin = None\<rparr>"

definition sample_client :: Config where
  "sample_client = sample_server\<lparr>c_Role := ''client'', c_Listen := None,
     c_Forward := [\<lparr>f_Listen = ''127.0.0.1:80'', f_Target = ''127.0.0.1:8080'', f_Protocol = ''tcp'',
                    f_BindUpstream = ''fra''\<rparr>],
     c_Upstream := Some \<lparr>u_Strategy = ''weighted'',
       u_HealthCheck = \<lparr>hc_Interval = [], hc_Timeout = [], hc_FailThreshold = 0, hc_RecoverThreshold = 0\<rparr>,
       u_Servers = [\<lparr>us_Name = ''ams'', us_Addr = ''1.2.3.4:443'', us_Key = ''k1'', us_Weight = 2,
                     us_Priority = 2, us_Transport = None\<rparr>,
                    \<lparr>us_Name = ''fra'', us_Addr = ''5.6.7.8:443'', us_Key = ''k2'', us_Weight = 0,
                     us_Priority = 1, us_Transport = None\<rparr>]\<rparr>\<rparr>"

lemma sample_server_accepted: "\<exists>c'. Validate sample_server = Inr c'"
proof -
  have "\<not> is_err (Validate sample_server)" by code_simp
  then show ?thesis by (simp add: not_is_err_iff)
qed

lemma sample_client_accepted: "\<exists>c'. Validate sample_client = Inr c'"
proof -
  have "\<not> is_err (Validate sample_client)" by code_simp
  then show ?thesis by (simp add: not_is_err_iff)
qed

section \<open>Properties\<close>

text \<open>Port ranges: the written form of any non-empty list of valid ranges is parsed back to
  that list, and whatever text is accepted, every range lies within 1..65535 with its ends in
  order.\<close>

lemma port_ranges_roundtrip:
  "(rs \<noteq> [] \<and> list_all range_ok rs \<longrightarrow>
      parsePortRanges (join_with CHR '','' (map show_range rs)) = Inr rs)
   \<and> (parsePortRanges s = Inr rs' \<longrightarrow> rs' \<noteq> [] \<and> list_all range_ok rs')"
  by (auto simp: parsePortRanges_show parsePortRanges_ok)


text \<open>Validation is idempotent: validating its own result changes nothing, so a
  configuration may be written back and loaded again.\<close>

lemma validate_idempotent:
  assumes "Validate c = Inr c'"
  shows "Validate c' = Inr c'"
  using Validate_fix [OF Validate_valid [OF assms]] .

text \<open>Per-server transport overrides: an absent override changes nothing, applying an override
  twice is applying it once, and overriding in two steps is the same as overriding with the
  overridden override.\<close>

lemma merge_transport_laws:
  "mergeTransport base None = base
   \<and> mergeTransport (mergeTransport base ov) ov = mergeTransport base ov
   \<and> mergeTransport (mergeTransport base (Some a)) (Some b)
     = mergeTransport base (Some (mergeTransport a (Some b)))"
proof (intro conjI)
  show "mergeTransport base None = base" by (simp add: mergeTransport_def)
  show "mergeTransport (mergeTransport base ov) ov = mergeTransport base ov"
    by (cases ov) (simp_all add: mergeTransport_def Let_def)
  show "mergeTransport (mergeTransport base (Some a)) (Some b)
     = mergeTransport base (Some (mergeTransport a (Some b)))"
    unfolding mergeTransport_def Let_def
    by (simp only: option.case TransportConfig.simps KCPConfig.simps QUICConfig.simps
        first_string first_positive)
qed

text \<open>The sum of the shard counts is taken in 64 bits: two counts whose sum wraps to a negative
  number pass the check that bounds it by 255.\<close>

lemma shard_sum_overflow:
  "check_kcp ''transport''
     \<lparr>k_Mode = ''fast'', k_Block = ''aes'', k_Key = ''k'', k_MTU = 1150, k_DataShard = 2 ^ 62,
      k_ParityShard = 2 ^ 62, k_SndWnd = 0, k_RcvWnd = 0\<rparr>
   = Inr \<lparr>k_Mode = ''fast'', k_Block = ''aes'', k_Key = ''k'', k_MTU = 1150, k_DataShard = 2 ^ 62,
      k_ParityShard = 2 ^ 62, k_SndWnd = 0, k_RcvWnd = 0\<rparr>"
  by (rule check_kcp_fix) (simp add: valid_kcp_def wrap64_def graphic_def)

end
