(* ===== verification/Resolve.thy ===== *)
theory Resolve
  imports Config
begin

text \<open>
  \<^verbatim>\<open>internal/config/upstream.go\<close> and \<^verbatim>\<open>resolve.go\<close>: from a validated configuration to the
  values the run time works with (upstream endpoints in priority order, health settings,
  the network runtime of a packet connection). Parameters: \<open>pd\<close> is \<^verbatim>\<open>time.ParseDuration\<close>
  (nanoseconds), \<open>iface\<close> is \<^verbatim>\<open>net.InterfaceByName\<close>, \<open>rnd\<close> the value of \<^verbatim>\<open>rand.Intn(32768)\<close>.
\<close>

section \<open>Health settings and strategies\<close>

definition second :: int where "second = 1000000000"

record HealthSettings =
  hs_Interval :: int
  hs_Timeout :: int
  hs_FailThreshold :: int
  hs_RecoverThreshold :: int

definition parseDuration :: "(string \<Rightarrow> int option) \<Rightarrow> string \<Rightarrow> int \<Rightarrow> int" where
  "parseDuration pd raw fallback =
     (let r = trim_space raw
      in if r = [] then fallback
         else (case pd r of None \<Rightarrow> fallback | Some d \<Rightarrow> d))"

definition health_settings :: "(string \<Rightarrow> int option) \<Rightarrow> UpstreamConfig \<Rightarrow> HealthSettings" where
  "health_settings pd u =
     (let hc = u_HealthCheck u
      in \<lparr>hs_Interval = parseDuration pd (hc_Interval hc) (10 * second),
          hs_Timeout = parseDuration pd (hc_Timeout hc) (3 * second),
          hs_FailThreshold = (if hc_FailThreshold hc < 1 then 3 else hc_FailThreshold hc),
          hs_RecoverThreshold = (if hc_RecoverThreshold hc < 1 then 2 else hc_RecoverThreshold hc)\<rparr>)"

text \<open>The four strategies; the string constants are their configuration names.\<close>

datatype strategy = Failover | RoundRobin | Weighted | LeastLatency

definition NormalizedStrategy :: "UpstreamConfig \<Rightarrow> strategy" where
  "NormalizedStrategy u =
     (let s = to_lower (trim_space (u_Strategy u))
      in if s = ''round_robin'' \<or> s = ''round-robin'' then RoundRobin
         else if s = ''weighted'' \<or> s = ''weight'' then Weighted
         else if s = ''least_latency'' \<or> s = ''least-latency'' \<or> s = ''latency'' then LeastLatency
         else Failover)"

definition UpstreamStrategy :: "Config \<Rightarrow> strategy" where
  "UpstreamStrategy c =
     (case c_Upstream c of Some u \<Rightarrow> NormalizedStrategy u | None \<Rightarrow> Failover)"

definition UpstreamHealthTimeout :: "(string \<Rightarrow> int option) \<Rightarrow> Config \<Rightarrow> int" where
  "UpstreamHealthTimeout pd c =
     (case c_Upstream c of Some u \<Rightarrow> hs_Timeout (health_settings pd u) | None \<Rightarrow> 3 * second)"

section \<open>Upstream endpoints\<close>

record UpstreamEndpoint =
  ep_Name :: string
  ep_Addr :: udp_addr
  ep_Key :: string
  ep_Weight :: int
  ep_Priority :: int
  ep_Transport :: TransportConfig

definition set_key :: "TransportConfig \<Rightarrow> string \<Rightarrow> TransportConfig" where
  "set_key t key = t\<lparr>t_KCP := (t_KCP t)\<lparr>k_Key := key\<rparr>\<rparr>"

definition TransportForKey :: "Config \<Rightarrow> string \<Rightarrow> TransportConfig" where
  "TransportForKey c key =
     (if key \<noteq> [] then set_key (c_Transport c) key else c_Transport c)"

definition endpoint :: "TransportConfig \<Rightarrow> nat \<times> UpstreamServer \<Rightarrow> UpstreamEndpoint res" where
  "endpoint tr p =
     (case p of (i, s) \<Rightarrow>
        (case ParseUDPAddr (us_Addr s) False of
           Inl e \<Rightarrow> Inl (Wrapf ''upstream.servers[%d].addr: %w'' [show_nat i] e)
         | Inr addr \<Rightarrow>
             let key = (if blank (us_Key s) then k_Key (t_KCP tr) else trim_space (us_Key s))
             in Inr \<lparr>ep_Name = server_name i s, ep_Addr = addr, ep_Key = key,
                     ep_Weight = (if us_Weight s < 1 then 1 else us_Weight s),
                     ep_Priority = (if us_Priority s < 1 then int i + 1 else us_Priority s),
                     ep_Transport = set_key (mergeTransport tr (us_Transport s)) key\<rparr>))"

text \<open>\<^verbatim>\<open>sort.SliceStable\<close> by priority, then name (bytewise): the stable sort by that key.\<close>

definition ep_order :: "UpstreamEndpoint \<Rightarrow> int \<times> string" where
  "ep_order e = (ep_Priority e, ep_Name e)"

definition UpstreamEndpoints :: "Config \<Rightarrow> UpstreamEndpoint list res" where
  "UpstreamEndpoints c =
     (if has_servers c then
        (case map_res (endpoint (c_Transport c)) (enumerate 0 (u_Servers (the (c_Upstream c)))) of
           Inl e \<Rightarrow> Inl e
         | Inr out \<Rightarrow> Inr (sort_key ep_order out))
      else if has_server_addr c then
        (case ParseUDPAddr (the (c_Server c)) False of
           Inl e \<Rightarrow> Inl e
         | Inr addr \<Rightarrow>
             Inr [\<lparr>ep_Name = ''default'', ep_Addr = addr, ep_Key = k_Key (t_KCP (c_Transport c)),
                   ep_Weight = 1, ep_Priority = 1, ep_Transport = c_Transport c\<rparr>])
      else Inl (Errorf ''no upstream configured'' []))"

definition UpstreamNames :: "Config \<Rightarrow> string list" where
  "UpstreamNames c = (case UpstreamEndpoints c of Inl _ \<Rightarrow> [] | Inr eps \<Rightarrow> map ep_Name eps)"

lemma endpoint_simps:
  assumes "endpoint tr (i, s) = Inr e"
  shows "ep_Name e = server_name i s" "1 \<le> ep_Weight e" "1 \<le> ep_Priority e"
    "ParseUDPAddr (us_Addr s) False = Inr (ep_Addr e)" "k_Key (t_KCP (ep_Transport e)) = ep_Key e"
    "ep_Transport e = set_key (mergeTransport tr (us_Transport s)) (ep_Key e)"
  using assms by (auto simp: endpoint_def Let_def set_key_def split: sum.splits)

lemma endpoints_names:
  "map_res (endpoint tr) iss = Inr out \<Longrightarrow> map ep_Name out = map (\<lambda>(i, s). server_name i s) iss"
proof (induction iss arbitrary: out)
  case Nil
  then show ?case by simp
next
  case (Cons p iss)
  then show ?case
    by (cases p) (auto simp: endpoint_simps split: sum.splits)
qed

lemma UpstreamEndpoints_servers:
  assumes "UpstreamEndpoints c = Inr eps" and "has_servers c"
  obtains out where "eps = sort_key ep_order out"
    and "map_res (endpoint (c_Transport c)) (enumerate 0 (u_Servers (the (c_Upstream c)))) = Inr out"
  using assms by (auto simp: UpstreamEndpoints_def split: sum.splits)

lemma UpstreamEndpoints_names_set:
  assumes "UpstreamEndpoints c = Inr eps"
  shows "set (map ep_Name eps) = upstreamNameSet c"
proof (cases "has_servers c")
  case True
  with assms obtain out where "eps = sort_key ep_order out"
    and m: "map_res (endpoint (c_Transport c)) (enumerate 0 (u_Servers (the (c_Upstream c)))) = Inr out"
    by (rule UpstreamEndpoints_servers)
  then have "set (map ep_Name eps) = set (map ep_Name out)" by simp
  also have "\<dots> = upstreamNameSet c"
    using endpoints_names [OF m] True by (simp only: upstreamNameSet_def if_True)
  finally show ?thesis .
next
  case False
  with assms show ?thesis
    by (auto simp: UpstreamEndpoints_def upstreamNameSet_def split: if_splits sum.splits)
qed

lemma UpstreamEndpoints_nonempty:
  assumes "UpstreamEndpoints c = Inr eps"
  shows "eps \<noteq> []"
proof (cases "has_servers c")
  case True
  with assms obtain out where "eps = sort_key ep_order out"
    and "map_res (endpoint (c_Transport c)) (enumerate 0 (u_Servers (the (c_Upstream c)))) = Inr out"
    by (rule UpstreamEndpoints_servers)
  then have "length eps = length (u_Servers (the (c_Upstream c)))"
    by (simp add: map_res_length)
  with True show ?thesis by (auto simp: has_servers_def split: option.splits)
next
  case False
  with assms show ?thesis by (auto simp: UpstreamEndpoints_def split: if_splits sum.splits)
qed

lemma UpstreamEndpoints_elem:
  assumes "UpstreamEndpoints c = Inr eps" and "e \<in> set eps"
  shows "1 \<le> ep_Weight e \<and> 1 \<le> ep_Priority e
    \<and> 1 \<le> ua_port (ep_Addr e) \<and> ua_port (ep_Addr e) \<le> 65535
    \<and> k_Key (t_KCP (ep_Transport e)) = ep_Key e"
proof (cases "has_servers c")
  case True
  with assms(1) obtain out where eps: "eps = sort_key ep_order out"
    and m: "map_res (endpoint (c_Transport c)) (enumerate 0 (u_Servers (the (c_Upstream c)))) = Inr out"
    by (rule UpstreamEndpoints_servers)
  from assms(2) eps have "e \<in> set out" by simp
  with m obtain i s where "endpoint (c_Transport c) (i, s) = Inr e"
    by (metis map_res_set prod.exhaust)
  then show ?thesis
    using ParseUDPAddr_port [of "us_Addr s" False "ep_Addr e"] endpoint_simps
    by (metis int_one_le_iff_zero_less order_le_less)
next
  case False
  with assms show ?thesis
    using ParseUDPAddr_port [of "the (c_Server c)" False "ep_Addr e"]
    by (auto simp: UpstreamEndpoints_def split: if_splits sum.splits)
qed

section \<open>The network runtime\<close>

record Interface =
  if_Name :: string
  if_HardwareAddr :: "byte list"

record NetworkRuntime =
  nr_Interface :: Interface
  nr_IPv4 :: udp_addr
  nr_RouterMAC :: "byte list"
  nr_IPv6 :: "udp_addr option"
  nr_IPv6RouterMAC :: "byte list"
  nr_Port :: int
  nr_LocalFlags :: "TCPFlagSet list"
  nr_RemoteFlags :: "TCPFlagSet list"
  nr_Sockbuf :: int

definition resolve_ipv6 ::
  "NetworkConfig \<Rightarrow> bool \<Rightarrow> int \<Rightarrow> (udp_addr option \<times> byte list) res" where
  "resolve_ipv6 n allowZero port =
     (case n_IPv6 n of None \<Rightarrow> Inr (None, [])
      | Some v6 \<Rightarrow>
          if blank (ip_Addr v6) then Inr (None, [])
          else (case ParseUDPAddr (ip_Addr v6) allowZero of
                  Inl e \<Rightarrow> Inl (Wrapf ''network.ipv6.addr: %w'' [] e)
                | Inr a \<Rightarrow>
                    (case parse_mac (ip_RouterMAC v6) of
                       Inl e \<Rightarrow> Inl (Wrapf ''network.ipv6.router_mac: %w'' [] e)
                     | Inr m \<Rightarrow>
                         Inr (Some (if ua_port a = 0 then a\<lparr>ua_port := port\<rparr> else a), m))))"

definition ResolveNetwork ::
  "(string \<Rightarrow> Interface res) \<Rightarrow> int \<Rightarrow> Config \<Rightarrow> NetworkRuntime res" where
  "ResolveNetwork iface rnd c =
     (let n = c_Network c; allowZero = (c_Role c = RoleClient)
      in case iface (n_Interface n) of
           Inl e \<Rightarrow> Inl (Wrapf ''network interface %q: %w'' [n_Interface n] e)
         | Inr ifc \<Rightarrow>
        (case ParseUDPAddr (ip_Addr (n_IPv4 n)) allowZero of
           Inl e \<Rightarrow> Inl (Wrapf ''network.ipv4.addr: %w'' [] e)
         | Inr a0 \<Rightarrow>
        let ipv4 = (if ua_port a0 = 0 then a0\<lparr>ua_port := 32768 + rnd\<rparr> else a0)
        in (case parse_mac (ip_RouterMAC (n_IPv4 n)) of
              Inl e \<Rightarrow> Inl (Wrapf ''network.ipv4.router_mac: %w'' [] e)
            | Inr mac \<Rightarrow>
           (case ParseTCPFlags (tf_LocalFlag (n_TCP n)) ''PA'' of
              Inl e \<Rightarrow> Inl (Wrapf ''network.tcp.local_flag: %w'' [] e)
            | Inr lf \<Rightarrow>
           (case ParseTCPFlags (tf_RemoteFlag (n_TCP n)) ''PA'' of
              Inl e \<Rightarrow> Inl (Wrapf ''network.tcp.remote_flag: %w'' [] e)
            | Inr rf \<Rightarrow>
           (case resolve_ipv6 n allowZero (ua_port ipv4) of
              Inl e \<Rightarrow> Inl e
            | Inr (v6, v6mac) \<Rightarrow>
                Inr \<lparr>nr_Interface = ifc, nr_IPv4 = ipv4, nr_RouterMAC = mac, nr_IPv6 = v6,
                     nr_IPv6RouterMAC = v6mac, nr_Port = ua_port ipv4, nr_LocalFlags = lf,
                     nr_RemoteFlags = rf,
                     nr_Sockbuf = (if c_Role c = RoleServer then 8 * 1024 * 1024
                                   else 4 * 1024 * 1024)\<rparr>))))))"

definition ResolveNetworkWithPort ::
  "(string \<Rightarrow> Interface res) \<Rightarrow> int \<Rightarrow> Config \<Rightarrow> int \<Rightarrow> NetworkRuntime res" where
  "ResolveNetworkWithPort iface rnd c port =
     (let n = c_Network c; v4 = n_IPv4 n;
          with_addr = (\<lambda>a. ResolveNetwork iface rnd
             (c\<lparr>c_Network := n\<lparr>n_IPv4 := v4\<lparr>ip_Addr := a\<rparr>\<rparr>\<rparr>))
      in if port > 0 then
           (case split_host_port (ip_Addr v4) of
              Inl e \<Rightarrow> Inl (Wrapf ''network.ipv4.addr: %w'' [] e)
            | Inr (host, _) \<Rightarrow> with_addr (host @ CHR '':'' # itoa port))
         else with_addr (ip_Addr v4))"

definition RemoteServerAddr :: "Config \<Rightarrow> udp_addr res" where
  "RemoteServerAddr c =
     (if has_server_addr c then ParseUDPAddr (the (c_Server c)) False
      else if has_servers c then ParseUDPAddr (us_Addr (hd (u_Servers (the (c_Upstream c))))) False
      else Inl (Errorf ''no remote server configured'' []))"

definition ListenUDPAddr :: "Config \<Rightarrow> udp_addr res" where
  "ListenUDPAddr c =
     (case c_Listen c of
        None \<Rightarrow> Inl (Errorf ''listen.addr missing'' [])
      | Some a0 \<Rightarrow>
          let a = trim_space a0
          in ParseUDPAddr (if has_prefix a '':'' then ''0.0.0.0'' @ a else a) False)"

lemma UpstreamEndpoints_sorted: "UpstreamEndpoints c = Inr eps \<Longrightarrow> sorted (map ep_order eps)"
  by (auto simp: UpstreamEndpoints_def split: if_splits sum.splits)

lemma resolve_ipv6_port:
  "resolve_ipv6 n z p = Inr (Some a, m) \<Longrightarrow> 1 \<le> p \<Longrightarrow> p \<le> 65535 \<Longrightarrow> 1 \<le> ua_port a \<and> ua_port a \<le> 65535"
  by (auto simp: resolve_ipv6_def dest!: ParseUDPAddr_port split: option.splits if_splits sum.splits)

lemma ParseTCPFlags_nonempty: "ParseTCPFlags fs d = Inr ys \<Longrightarrow> ys \<noteq> []"
  by (auto simp: ParseTCPFlags_def dest: map_res_length split: if_splits sum.splits)

lemma sample_client_endpoints:
  "\<exists>eps. UpstreamEndpoints sample_client = Inr eps \<and> map ep_Name eps = [''fra'', ''ams'']"
proof -
  have "case UpstreamEndpoints sample_client of Inl e \<Rightarrow> False
      | Inr eps \<Rightarrow> map ep_Name eps = [''fra'', ''ams'']" by code_simp
  then show ?thesis by (simp split: sum.splits)
qed

section \<open>Properties\<close>

text \<open>Upstream endpoints: the list is not empty, ordered by priority and then name, carries
  exactly the configured names, and every endpoint has a positive weight and priority, a usable
  port and its own key in its transport settings.\<close>

lemma upstream_endpoints_sound:
  assumes "UpstreamEndpoints c = Inr eps"
  shows "eps \<noteq> [] \<and> sorted (map ep_order eps) \<and> set (map ep_Name eps) = upstreamNameSet c
    \<and> (\<forall>e \<in> set eps. 1 \<le> ep_Weight e \<and> 1 \<le> ep_Priority e
           \<and> 1 \<le> ua_port (ep_Addr e) \<and> ua_port (ep_Addr e) \<le> 65535
           \<and> k_Key (t_KCP (ep_Transport e)) = ep_Key e)"
  using UpstreamEndpoints_nonempty [OF assms] UpstreamEndpoints_sorted [OF assms]
    UpstreamEndpoints_names_set [OF assms] UpstreamEndpoints_elem [OF assms] by simp_all

text \<open>Binding: in a client configuration that passed validation, every upstream a forward rule
  or the enabled range block is bound to is the name of an endpoint the run time will create.\<close>

lemma validated_binds_resolve:
  assumes "Validate c = Inr c'" and "c_Role c' = RoleClient" and "UpstreamEndpoints c' = Inr eps"
  shows "(\<forall>r \<in> set (c_Forward c'). blank (f_BindUpstream r)
           \<or> (\<exists>e \<in> set eps. ep_Name e = trim_space (f_BindUpstream r)))
     \<and> (\<forall>r. c_Range c' = Some r \<and> r_Enabled r \<longrightarrow> blank (r_BindUpstream r)
           \<or> (\<exists>e \<in> set eps. ep_Name e = trim_space (r_BindUpstream r)))"
proof (intro conjI)
  have "RoleClient \<noteq> RoleServer" by (simp add: RoleClient_def RoleServer_def)
  with Validate_valid [OF assms(1)] assms(2) have v: "valid_client c'"
    unfolding valid_config_def by metis
  have n: "binds_to (upstreamNameSet c') b \<longleftrightarrow> blank b \<or> (\<exists>e \<in> set eps. ep_Name e = trim_space b)" for b
    unfolding UpstreamEndpoints_names_set [OF assms(3), symmetric] binds_to_def set_map image_iff by metis
  show "\<forall>r \<in> set (c_Forward c'). blank (f_BindUpstream r)
           \<or> (\<exists>e \<in> set eps. ep_Name e = trim_space (f_BindUpstream r))"
    using v unfolding valid_client_def n by blast
  show "\<forall>r. c_Range c' = Some r \<and> r_Enabled r \<longrightarrow> blank (r_BindUpstream r)
           \<or> (\<exists>e \<in> set eps. ep_Name e = trim_space (r_BindUpstream r))"
    using v unfolding valid_client_def n by blast
qed

text \<open>
  The defaults validation fills in for a per-server override are lost: the configuration below is
  valid, yet the KCP settings of its endpoint have no block cipher.
\<close>

definition sample_override :: Config where
  "sample_override = sample_client\<lparr>
     c_Transport := (c_Transport sample_client)\<lparr>t_Protocol := ''quic''\<rparr>,
     c_Forward := [\<lparr>f_Listen = ''127.0.0.1:80'', f_Target = ''127.0.0.1:8080'', f_Protocol = ''tcp'',
                    f_BindUpstream = []\<rparr>],
     c_Upstream := Some \<lparr>u_Strategy = ''failover'',
       u_HealthCheck = \<lparr>hc_Interval = [], hc_Timeout = [], hc_FailThreshold = 0, hc_RecoverThreshold = 0\<rparr>,
       u_Servers = [\<lparr>us_Name = ''ams'', us_Addr = ''1.2.3.4:443'', us_Key = ''k1'', us_Weight = 2,
                     us_Priority = 2, us_Transport = Some (sample_transport\<lparr>t_Protocol := ''kcp''\<rparr>)\<rparr>]\<rparr>\<rparr>"

lemma override_defaults_lost:
  "case Validate sample_override of Inl _ \<Rightarrow> False
   | Inr c \<Rightarrow> (case UpstreamEndpoints c of Inl _ \<Rightarrow> False
              | Inr eps \<Rightarrow> map (\<lambda>e. (norm_proto (ep_Transport e), k_Block (t_KCP (ep_Transport e)))) eps
                          = [(''kcp'', [])])"
  by code_simp

text \<open>A client that leaves the port of its packet connection open.\<close>

definition open_port_client :: Config where
  "open_port_client = sample_client\<lparr>c_Network := (c_Network sample_client)\<lparr>n_IPv4 := (n_IPv4 (c_Network sample_client))\<lparr>ip_Addr := ''10.0.0.1:0''\<rparr>\<rparr>\<rparr>"

text \<open>C39. Network resolution: the local port of a packet connection is always usable, equals the
  port of the IPv4 source address, is in the ephemeral half 32768..65535 when the configuration
  leaves it open, and at least one local and one remote flag set come out.\<close>

theorem resolve_network_ports:
  assumes "ResolveNetwork iface rnd c = Inr nr" and "0 \<le> rnd" and "rnd < 32768"
  shows "(1 \<le> nr_Port nr \<and> nr_Port nr \<le> 65535) \<and> ua_port (nr_IPv4 nr) = nr_Port nr
    \<and> (\<forall>a. nr_IPv6 nr = Some a \<longrightarrow> 1 \<le> ua_port a \<and> ua_port a \<le> 65535)
    \<and> (32768 \<le> nr_Port nr \<or>
        ParseUDPAddr (ip_Addr (n_IPv4 (c_Network c))) (c_Role c = RoleClient) = Inr (nr_IPv4 nr))
    \<and> nr_LocalFlags nr \<noteq> [] \<and> nr_RemoteFlags nr \<noteq> []"
proof (intro conjI)
  obtain ifc a0 mac lf rf v6 v6mac where n:
    "ParseUDPAddr (ip_Addr (n_IPv4 (c_Network c))) (c_Role c = RoleClient) = Inr a0"
    "ParseTCPFlags (tf_LocalFlag (n_TCP (c_Network c))) ''PA'' = Inr lf"
    "ParseTCPFlags (tf_RemoteFlag (n_TCP (c_Network c))) ''PA'' = Inr rf"
    "resolve_ipv6 (c_Network c) (c_Role c = RoleClient) (ua_port (nr_IPv4 nr)) = Inr (v6, v6mac)"
    "nr_IPv4 nr = (if ua_port a0 = 0 then a0\<lparr>ua_port := 32768 + rnd\<rparr> else a0)"
    "nr_Port nr = ua_port (nr_IPv4 nr)" "nr_IPv6 nr = v6" "nr_LocalFlags nr = lf" "nr_RemoteFlags nr = rf"
    using assms(1) by (auto simp: ResolveNetwork_def Let_def split: sum.splits prod.splits)
  have p: "1 \<le> nr_Port nr \<and> nr_Port nr \<le> 65535"
    using ParseUDPAddr_port [OF n(1)] n(5,6) assms(2,3) by auto
  then show "1 \<le> nr_Port nr" "nr_Port nr \<le> 65535" by simp_all
  show "32768 \<le> nr_Port nr \<or>
      ParseUDPAddr (ip_Addr (n_IPv4 (c_Network c))) (c_Role c = RoleClient) = Inr (nr_IPv4 nr)"
    using n(1,5,6) assms(2) by auto
  from p show "\<forall>a. nr_IPv6 nr = Some a \<longrightarrow> 1 \<le> ua_port a \<and> ua_port a \<le> 65535"
    using resolve_ipv6_port [of _ _ _ _ v6mac] n(4,6,7) by fastforce
  show "ua_port (nr_IPv4 nr) = nr_Port nr" using n(6) by simp
  show "nr_LocalFlags nr \<noteq> []" "nr_RemoteFlags nr \<noteq> []"
    using ParseTCPFlags_nonempty [OF n(2)] ParseTCPFlags_nonempty [OF n(3)] n(8,9) by simp_all
qed

theorem resolve_network_ports_witness:
  "case ResolveNetwork (\<lambda>n. Inr \<lparr>if_Name = n, if_HardwareAddr = []\<rparr>) 7 open_port_client of
     Inl _ \<Rightarrow> False | Inr nr \<Rightarrow> nr_Port nr = 32775 \<and> 1 \<le> nr_Port nr \<and> nr_Port nr \<le> 65535"
proof -
  have "case ResolveNetwork (\<lambda>n. Inr \<lparr>if_Name = n, if_HardwareAddr = []\<rparr>) 7 open_port_client of
      Inl _ \<Rightarrow> False | Inr nr \<Rightarrow> nr_Port nr = 32775" by code_simp
  then obtain nr where nr: "ResolveNetwork (\<lambda>n. Inr \<lparr>if_Name = n, if_HardwareAddr = []\<rparr>) 7 open_port_client = Inr nr" "nr_Port nr = 32775"
    by (auto split: sum.splits)
  with resolve_network_ports [OF nr(1)] show ?thesis by simp
qed

end
