(* ===== verification/World.thy ===== *)
theory World
  imports Protocol Resolve
begin

text \<open>
  What lies outside the sources: the operating system, pcap, kcp-go, quic-go, smux and the
  cryptographic library. A \<open>world\<close> records which external objects (connections, sessions,
  streams) are open and what was written to them; an \<open>env\<close> says, for every call and every
  world, how the call ends. An external object is a handle; a smux stream is owned by its
  session and dies with it. The clock advances with every call, so an environment may answer
  the same call differently each time.

  The interface at the end is what every constructor of the sources that acquires such objects
  keeps: a failed call leaves nothing open, and closing the result releases exactly what the
  call acquired.
\<close>

section \<open>Worlds and environments\<close>

type_synonym handle = nat

text \<open>The setters of a kcp-go session.\<close>

datatype kcp_setting =
    SetNoDelay int int int int
  | SetWindowSize int int
  | SetMtu int
  | SetWriteDelay bool
  | SetACKNoDelay bool
  | SetDSCP int

text \<open>The settings of a smux session the sources choose.\<close>

record smux_config =
  sc_Version :: int
  sc_KeepAliveInterval :: int
  sc_KeepAliveTimeout :: int
  sc_MaxFrameSize :: int
  sc_MaxReceiveBuffer :: int
  sc_MaxStreamBuffer :: int

text \<open>\<open>w_open\<close>: the open objects with their owners; \<open>w_log\<close>: the writes, oldest first; \<open>w_kcp\<close>: the
  settings applied to kcp-go sessions, oldest first; \<open>w_flags\<close>: the flag sets announced to packet
  connections (by their send handle) for their peers, oldest first.\<close>

record world =
  w_clock :: nat
  w_next :: handle
  w_open :: "(handle \<times> handle option) list"
  w_log :: "(handle \<times> byte list) list"
  w_kcp :: "(handle \<times> kcp_setting list) list"
  w_flags :: "(handle \<times> udp_addr \<times> TCPFlagSet list) list"

datatype call =
    PcapNewInactive string
  | PcapSetup handle string int
  | PcapActivate handle
  | PcapSetDirection handle bool
  | PcapSetBPFFilter handle string
  | PcapWritePacket handle
  | KcpNewConn
  | KcpServeConn
  | KcpAccept
  | SmuxClient smux_config
  | SmuxServer smux_config
  | QuicTransport
  | QuicDial
  | QuicOpenStream
  | QuicListen
  | QuicAccept
  | QuicAcceptStream
  | SmuxOpenStream handle
  | StreamWrite handle
  | QuicSendDatagram handle
  | SmuxAcceptStream handle
  | NetDial string string
  | NetListen string string
  | NetAccept handle
  | SockWriteTo handle udp_addr

text \<open>
  \<open>e_fail\<close>: the error of a call, if it fails; \<open>e_input\<close>: the bytes a stream still delivers
  before EOF or its deadline; \<open>e_recv\<close>: the next QUIC
  datagram of a connection; \<open>e_peer\<close>: the remote address of a connection; \<open>e_rtt\<close>: the elapsed time a caller measures; the rest are the
  library functions the resolved values need.
\<close>

record env =
  e_fail :: "call \<Rightarrow> world \<Rightarrow> error option"
  e_input :: "handle \<Rightarrow> world \<Rightarrow> byte list"
  e_recv :: "handle \<Rightarrow> world \<Rightarrow> byte list res"
  e_peer :: "handle \<Rightarrow> udp_addr"
  e_rtt :: "world \<Rightarrow> int"
  e_rnd :: "world \<Rightarrow> int"
  e_iface :: "string \<Rightarrow> Interface res"
  e_pd :: "string \<Rightarrow> int option"
  e_enc :: gob_enc
  e_dec :: gob_dec

definition tick :: "world \<Rightarrow> world" where
  "tick w = w\<lparr>w_clock := w_clock w + 1\<rparr>"

definition acquire :: "env \<Rightarrow> call \<Rightarrow> handle option \<Rightarrow> world \<Rightarrow> handle res \<times> world" where
  "acquire env c owner w =
     (case e_fail env c w of
        Some e \<Rightarrow> (Inl e, tick w)
      | None \<Rightarrow> (Inr (w_next w), (tick w)\<lparr>w_next := w_next w + 1,
                                       w_open := (w_next w, owner) # w_open w\<rparr>))"

text \<open>A call that acquires nothing: its error, if any.\<close>

definition attempt :: "env \<Rightarrow> call \<Rightarrow> world \<Rightarrow> error option \<times> world" where
  "attempt env c w = (e_fail env c w, tick w)"

definition live :: "handle set \<Rightarrow> handle \<times> handle option \<Rightarrow> bool" where
  "live H x = (case x of (h, p) \<Rightarrow> h \<notin> H \<and> (\<forall>q. p = Some q \<longrightarrow> q \<notin> H))"

text \<open>Closing is idempotent; the streams of a closed smux session are closed with it.\<close>

definition close_handle :: "handle \<Rightarrow> world \<Rightarrow> world" where
  "close_handle h w = w\<lparr>w_open := filter (\<lambda>(x, p). x \<noteq> h \<and> p \<noteq> Some h) (w_open w)\<rparr>"

definition close_opt :: "handle option \<Rightarrow> world \<Rightarrow> world" where
  "close_opt h w = (case h of None \<Rightarrow> w | Some x \<Rightarrow> close_handle x w)"

text \<open>A packet connection is the list of handles it holds.\<close>

type_synonym packet_conn = "handle list"

definition close_conn :: "packet_conn \<Rightarrow> world \<Rightarrow> world" where
  "close_conn hs w = fold close_handle hs w"

definition is_open :: "handle \<Rightarrow> world \<Rightarrow> bool" where
  "is_open h w = (h \<in> fst ` set (w_open w))"

definition stream_write :: "env \<Rightarrow> handle \<Rightarrow> world writer" where
  "stream_write env h w bs =
     (case e_fail env (StreamWrite h) w of
        Some e \<Rightarrow> (Some e, tick w)
      | None \<Rightarrow> (None, (tick w)\<lparr>w_log := w_log w @ [(h, bs)]\<rparr>))"

text \<open>Everything written to a handle, in order.\<close>

definition written :: "handle \<Rightarrow> world \<Rightarrow> byte list" where
  "written h w = concat (map snd (filter (\<lambda>x. fst x = h) (w_log w)))"

text \<open>Handles are never reused.\<close>

definition world_ok :: "world \<Rightarrow> bool" where
  "world_ok w \<longleftrightarrow> distinct (map fst (w_open w))
     \<and> (\<forall>(h, p) \<in> set (w_open w). h < w_next w \<and> (\<forall>q. p = Some q \<longrightarrow> q < w_next w))
     \<and> (\<forall>(h, b) \<in> set (w_log w). h < w_next w)"

lemma tick_simps [simp]:
  "w_next (tick w) = w_next w" "w_open (tick w) = w_open w" "w_log (tick w) = w_log w"
  "world_ok (tick w) = world_ok w"
  by (simp_all add: tick_def world_ok_def)

lemma close_handle_simps [simp]:
  "w_next (close_handle h w) = w_next w" "w_log (close_handle h w) = w_log w"
  by (simp_all add: close_handle_def)

lemma close_handle_open: "w_open (close_handle h w) = filter (live {h}) (w_open w)"
  by (auto simp: close_handle_def live_def intro!: filter_cong)

lemma close_opt_simps [simp]:
  "w_next (close_opt h w) = w_next w" "w_log (close_opt h w) = w_log w"
  "close_opt None w = w" "close_opt (Some x) w = close_handle x w"
  by (cases h; simp add: close_opt_def)+

lemma close_opt_open: "w_open (close_opt h w) = filter (live (set_option h)) (w_open w)"
  by (cases h) (auto simp: close_handle_open live_def filter_id_conv)

lemma live_insert_un: "live (insert h A) x \<longleftrightarrow> live {h} x \<and> live A x"
  by (auto simp: live_def split: prod.splits)

lemma close_conn_simps [simp]:
  "w_next (close_conn hs w) = w_next w" "w_log (close_conn hs w) = w_log w"
  by (induction hs arbitrary: w) (simp_all add: close_conn_def)

lemma close_conn_open: "w_open (close_conn hs w) = filter (live (set hs)) (w_open w)"
proof (induction hs arbitrary: w)
  case Nil
  then show ?case by (simp add: close_conn_def live_def case_prod_beta)
next
  case (Cons h hs)
  then show ?case
    by (auto simp: close_conn_def close_handle_open live_insert_un [of h "set hs"] intro!: filter_cong)
qed

lemma attempt_simps: "attempt env c w = (r, w') \<Longrightarrow> w' = tick w"
  by (simp add: attempt_def)

lemma live_un: "live (A \<union> B) x \<longleftrightarrow> live A x \<and> live B x"
  by (auto simp: live_def split: prod.splits)

lemma live_empty [simp]: "live {} x"
  by (auto simp: live_def split: prod.splits)

lemma filter_live_un: "filter (live A) (filter (live B) xs) = filter (live (A \<union> B)) xs"
  by (auto simp: live_un intro!: filter_cong)

lemma world_ok_close [simp]: "world_ok w \<Longrightarrow> world_ok (close_handle h w)"
proof -
  assume w: "world_ok w"
  then have "distinct (map fst (filter (live {h}) (w_open w)))"
    by (simp add: world_ok_def distinct_map_filter)
  with w show ?thesis by (auto simp: world_ok_def close_handle_open)
qed

lemma world_ok_close_opt [simp]: "world_ok w \<Longrightarrow> world_ok (close_opt h w)"
  by (cases h) simp_all

lemma world_ok_close_conn [simp]: "world_ok w \<Longrightarrow> world_ok (close_conn hs w)"
  by (induction hs arbitrary: w) (simp_all add: close_conn_def)

lemma acquire_fail: "acquire env c p w = (Inl e, w') \<Longrightarrow> w_open w' = w_open w \<and> w_next w' = w_next w
    \<and> w_log w' = w_log w"
  by (auto simp: acquire_def split: option.splits)

lemma acquire_ok:
  "acquire env c p w = (Inr h, w') \<Longrightarrow>
     h = w_next w \<and> w_open w' = (h, p) # w_open w \<and> w_next w' = w_next w + 1 \<and> w_log w' = w_log w"
  by (auto simp: acquire_def split: option.splits)

lemma acquire_world_ok:
  assumes "world_ok w" and "acquire env c p w = (r, w')" and "\<And>q. p = Some q \<Longrightarrow> q < w_next w"
  shows "world_ok w'"
proof (cases "e_fail env c w")
  case None
  with assms(2) have w': "w' = (tick w)\<lparr>w_next := w_next w + 1, w_open := (w_next w, p) # w_open w\<rparr>"
    by (simp add: acquire_def)
  have "w_next w \<notin> fst ` set (w_open w)"
    using assms(1) by (fastforce simp: world_ok_def)
  with assms(1,3) show ?thesis
    unfolding w' by (fastforce simp: world_ok_def)
next
  case (Some e)
  with assms show ?thesis by (auto simp: acquire_def)
qed

lemma stream_write_simps:
  assumes "stream_write env h w bs = (r, w')"
  shows "w_open w' = w_open w" "w_next w' = w_next w" "r = None \<Longrightarrow> w_log w' = w_log w @ [(h, bs)]"
  using assms by (auto simp: stream_write_def split: option.splits)

lemma stream_write_world_ok:
  "world_ok w \<Longrightarrow> h < w_next w \<Longrightarrow> stream_write env h w bs = (r, w') \<Longrightarrow> world_ok w'"
  by (cases "e_fail env (StreamWrite h) w") (simp_all add: stream_write_def world_ok_def tick_def, force+)

lemma old_live:
  assumes "world_ok w" and "H \<subseteq> {n. w_next w \<le> n}"
  shows "filter (live H) (w_open w) = w_open w"
  using assms by (force simp: filter_id_conv world_ok_def live_def)

section \<open>Constructors that acquire resources\<close>

text \<open>
  A loop that constructs one object per key and, when a construction fails, releases what it
  has built so far.
\<close>

fun dial_each ::
  "('k \<Rightarrow> world \<Rightarrow> 'a res \<times> world) \<Rightarrow> ('a \<Rightarrow> world \<Rightarrow> world) \<Rightarrow> 'k list \<Rightarrow> 'a list \<Rightarrow> world
     \<Rightarrow> 'a list res \<times> world" where
  "dial_each dial release [] acc w = (Inr acc, w)"
| "dial_each dial release (k # ks) acc w =
     (case dial k w of
        (Inl e, w1) \<Rightarrow> (Inl e, fold release acc w1)
      | (Inr x, w1) \<Rightarrow> dial_each dial release ks (acc @ [x]) w1)"

definition grows :: "world \<Rightarrow> handle set \<Rightarrow> world \<Rightarrow> bool" where
  "grows w H w' \<longleftrightarrow> world_ok w' \<and> w_next w \<le> w_next w' \<and> H \<subseteq> {w_next w..<w_next w'}
     \<and> (\<exists>new. w_open w' = new @ w_open w \<and> (\<forall>x \<in> set new. \<not> live H x))"

lemma grows_refl: "world_ok w \<Longrightarrow> grows w {} w"
  by (simp add: grows_def)

lemma grows_trans:
  assumes "grows w1 A w2" and "grows w2 B w3"
  shows "grows w1 (A \<union> B) w3"
proof -
  obtain a b where "w_open w2 = a @ w_open w1" "\<forall>x \<in> set a. \<not> live A x"
    "w_open w3 = b @ w_open w2" "\<forall>x \<in> set b. \<not> live B x"
    using assms by (auto simp: grows_def)
  then have "w_open w3 = (b @ a) @ w_open w1 \<and> (\<forall>x \<in> set (b @ a). \<not> live (A \<union> B) x)"
    by (auto simp: live_un)
  with assms show ?thesis by (fastforce simp: grows_def)
qed

text \<open>Releasing what was acquired since \<open>w\<close> restores the open objects of \<open>w\<close>.\<close>

lemma grows_undo:
  assumes "world_ok w" and "grows w H w'"
  shows "filter (live H) (w_open w') = w_open w"
proof -
  obtain new where n: "w_open w' = new @ w_open w" "\<forall>x \<in> set new. \<not> live H x"
    using assms(2) by (auto simp: grows_def)
  have "filter (live H) new = []" using n(2) by (simp add: filter_empty_conv)
  moreover have "filter (live H) (w_open w) = w_open w"
    using assms by (intro old_live) (auto simp: grows_def)
  ultimately show ?thesis using n(1) by simp
qed

lemma grows_acquire:
  assumes "world_ok w" and "acquire env c p w = (Inr h, w')" and "\<And>q. p = Some q \<Longrightarrow> q < w_next w"
  shows "grows w {h} w'"
proof -
  from acquire_ok [OF assms(2)] have "w_open w' = [(h, p)] @ w_open w \<and> h = w_next w
      \<and> w_next w' = w_next w + 1" by simp
  with acquire_world_ok [OF assms] show ?thesis
    by (auto simp: grows_def live_def)
qed

text \<open>A call that changes neither the open objects nor the supply of handles.\<close>

lemma grows_same:
  "grows w H w' \<Longrightarrow> w_open w'' = w_open w' \<Longrightarrow> w_next w'' = w_next w' \<Longrightarrow> world_ok w'' \<Longrightarrow> grows w H w''"
  by (auto simp: grows_def)

text \<open>What a failed constructor leaves behind: the same objects, and handles still fresh.\<close>

definition unchanged :: "world \<Rightarrow> world \<Rightarrow> bool" where
  "unchanged w w' \<longleftrightarrow> w_open w' = w_open w \<and> world_ok w' \<and> w_next w \<le> w_next w'"

lemma acquire_unchanged:
  "world_ok w \<Longrightarrow> acquire env c None w = (Inl e, w') \<Longrightarrow> unchanged w w'"
  using acquire_fail [of env c None w e w'] acquire_world_ok [of w env c None "Inl e" w']
  by (simp add: unchanged_def)

lemma unchanged_ok: "unchanged w w' \<Longrightarrow> world_ok w'"
  by (simp add: unchanged_def)

lemma unchanged_trans: "unchanged w w' \<Longrightarrow> unchanged w' w'' \<Longrightarrow> unchanged w w''"
  by (auto simp: unchanged_def)

lemma acquire_owned_unchanged:
  "world_ok w \<Longrightarrow> q < w_next w \<Longrightarrow> acquire env c (Some q) w = (Inl e, w') \<Longrightarrow> unchanged w w'"
  using acquire_fail [of env c "Some q" w e w'] acquire_world_ok [of w env c "Some q" "Inl e" w']
  by (simp add: unchanged_def)

lemma grows_is_open: "is_open h w \<Longrightarrow> grows w H w' \<Longrightarrow> is_open h w'"
  by (auto simp: grows_def is_open_def)

lemma unchanged_is_open: "unchanged w w' \<Longrightarrow> is_open h w' = is_open h w"
  by (simp add: unchanged_def is_open_def)

lemma is_open_fresh: "world_ok w \<Longrightarrow> is_open h w \<Longrightarrow> h < w_next w"
  by (auto simp: world_ok_def is_open_def)

lemma stream_write_unchanged:
  "world_ok w \<Longrightarrow> h < w_next w \<Longrightarrow> stream_write env h w bs = (r, w') \<Longrightarrow> unchanged w w'"
  using stream_write_simps [of env h w bs r w'] stream_write_world_ok [of w h env bs r w']
  by (simp add: unchanged_def)

lemma grows_ok: "grows w H w' \<Longrightarrow> world_ok w'"
  by (simp add: grows_def)

lemma grows_unchanged: "grows w H w' \<Longrightarrow> unchanged w' w'' \<Longrightarrow> grows w H w''"
  by (force simp: grows_def unchanged_def)

text \<open>Closing everything acquired since \<open>w\<close> gives back \<open>w\<close>'s objects.\<close>

lemma grows_close_unchanged:
  "world_ok w \<Longrightarrow> grows w H w' \<Longrightarrow> w_open w'' = filter (live H) (w_open w') \<Longrightarrow> w_next w'' = w_next w'
     \<Longrightarrow> world_ok w'' \<Longrightarrow> unchanged w w''"
  by (auto simp: unchanged_def grows_undo) (simp add: grows_def)

text \<open>Releasing a part of what was acquired.\<close>

lemma grows_drop:
  assumes "world_ok w" and "grows w (A \<union> B) w'" and "w_open w'' = filter (live B) (w_open w')"
    and "w_next w'' = w_next w'" and "world_ok w''"
  shows "grows w A w''"
proof -
  obtain new where n: "w_open w' = new @ w_open w" "\<forall>x \<in> set new. \<not> live (A \<union> B) x"
    using assms(2) by (auto simp: grows_def)
  have "filter (live B) (w_open w) = w_open w"
    using assms(1,2) by (intro old_live) (auto simp: grows_def)
  then have "w_open w'' = filter (live B) new @ w_open w" using assms(3) n(1) by simp
  moreover have "\<forall>x \<in> set (filter (live B) new). \<not> live A x" using n(2) by (auto simp: live_un)
  ultimately show ?thesis
    using assms(2,4,5) unfolding grows_def
    by (intro conjI exI [of _ "filter (live B) new"]) auto
qed

locale dialer =
  fixes dial :: "'k \<Rightarrow> world \<Rightarrow> 'a res \<times> world"
    and release :: "'a \<Rightarrow> world \<Rightarrow> world"
    and holds :: "'a \<Rightarrow> handle set"
  assumes dial_fail: "world_ok w \<Longrightarrow> dial k w = (Inl e, w') \<Longrightarrow>
      w_open w' = w_open w \<and> world_ok w' \<and> w_next w \<le> w_next w'"
    and dial_ok: "world_ok w \<Longrightarrow> dial k w = (Inr x, w') \<Longrightarrow> grows w (holds x) w'"
    and release_open: "w_open (release x w) = filter (live (holds x)) (w_open w)"
    and release_next: "w_next (release x w) = w_next w"
    and release_ok: "world_ok w \<Longrightarrow> world_ok (release x w)"
begin

lemma dial_release: "world_ok w \<Longrightarrow> dial k w = (Inr x, w') \<Longrightarrow> w_open (release x w') = w_open w"
  by (simp add: release_open grows_undo dial_ok)

definition holds_all :: "'a list \<Rightarrow> handle set" where
  "holds_all xs = (\<Union>x \<in> set xs. holds x)"

lemma holds_all_simps [simp]: "holds_all [] = {}" "holds_all (x # xs) = holds x \<union> holds_all xs"
  "holds_all (xs @ ys) = holds_all xs \<union> holds_all ys"
  by (auto simp: holds_all_def)

lemma release_all_open: "w_open (fold release xs w) = filter (live (holds_all xs)) (w_open w)"
proof (induction xs arbitrary: w)
  case Nil
  then show ?case by simp
next
  case (Cons x xs)
  then show ?case by (simp add: release_open filter_live_un Un_commute del: filter_filter)
qed

lemma release_all_next [simp]: "w_next (fold release xs w) = w_next w"
  by (induction xs arbitrary: w) (simp_all add: release_next)

lemma release_all_ok: "world_ok w \<Longrightarrow> world_ok (fold release xs w)"
  by (induction xs arbitrary: w) (simp_all add: release_ok)

lemma dial_each_ok:
  assumes "grows w0 (holds_all acc) w" and "dial_each dial release ks acc w = (Inr xs, w')"
  shows "grows w0 (holds_all xs) w' \<and> length xs = length acc + length ks"
  using assms
proof (induction ks arbitrary: acc w)
  case Nil
  then show ?case by simp
next
  case (Cons k ks)
  then obtain x w1 where d: "dial k w = (Inr x, w1)"
    "dial_each dial release ks (acc @ [x]) w1 = (Inr xs, w')"
    by (auto split: prod.splits sum.splits)
  have "world_ok w" using Cons.prems(1) by (simp add: grows_def)
  from grows_trans [OF Cons.prems(1) dial_ok [OF this d(1)]]
  have "grows w0 (holds_all (acc @ [x])) w1" by simp
  from Cons.IH [OF this d(2)] show ?case by simp
qed

lemma dial_each_fail:
  assumes "world_ok w0" and "grows w0 (holds_all acc) w" and "dial_each dial release ks acc w = (Inl e, w')"
  shows "w_open w' = w_open w0 \<and> world_ok w' \<and> w_next w0 \<le> w_next w'"
  using assms(2,3)
proof (induction ks arbitrary: acc w)
  case Nil
  then show ?case by simp
next
  case (Cons k ks)
  have ok: "world_ok w" and le: "w_next w0 \<le> w_next w" using Cons.prems(1) by (simp_all add: grows_def)
  obtain r w1 where d: "dial k w = (r, w1)" by fastforce
  show ?case
  proof (cases r)
    case (Inl e1)
    with d Cons.prems(2) have w': "w' = fold release acc w1" by simp
    from dial_fail [OF ok d [unfolded Inl]] have w1: "w_open w1 = w_open w" "world_ok w1"
      "w_next w \<le> w_next w1" by simp_all
    with grows_undo [OF assms(1) Cons.prems(1)] le show ?thesis
      by (simp add: w' release_all_open release_all_ok)
  next
    case (Inr x)
    from grows_trans [OF Cons.prems(1) dial_ok [OF ok d [unfolded Inr]]]
    have "grows w0 (holds_all (acc @ [x])) w1" by simp
    from Cons.IH [OF this] Cons.prems(2) d Inr show ?thesis by simp
  qed
qed

end

text \<open>
  A constructor whose result is usable right away and stays usable while further objects are
  acquired.
\<close>

locale live_dialer = dialer +
  fixes ready :: "'b \<Rightarrow> world \<Rightarrow> bool"
  assumes dial_ready: "world_ok w \<Longrightarrow> dial k w = (Inr x, w') \<Longrightarrow> ready x w'"
    and ready_mono: "ready x w \<Longrightarrow> grows w H w' \<Longrightarrow> ready x w'"
begin

lemma dial_each_ready:
  assumes "world_ok w" and "dial_each dial release ks acc w = (Inr xs, w')" and "\<forall>x \<in> set acc. ready x w"
  shows "\<forall>x \<in> set xs. ready x w'"
  using assms
proof (induction ks arbitrary: acc w)
  case Nil
  then show ?case by simp
next
  case (Cons k ks)
  then obtain x w1 where d: "dial k w = (Inr x, w1)"
    "dial_each dial release ks (acc @ [x]) w1 = (Inr xs, w')"
    by (auto split: prod.splits sum.splits)
  have g: "grows w (holds x) w1" by (rule dial_ok [OF Cons.prems(1) d(1)])
  have "\<forall>y \<in> set (acc @ [x]). ready y w1"
    using Cons.prems(3) ready_mono [OF _ g] dial_ready [OF Cons.prems(1) d(1)] by auto
  from Cons.IH [OF _ d(2) this] g show ?case by (simp add: grows_def)
qed

end

end
