(* ===== verification/Transport.thy ===== *)
theory Transport
  imports World
begin

text \<open>
  \<^verbatim>\<open>internal/transport\<close>: the options of a transport from its configuration (\<^verbatim>\<open>options.go\<close>,
  \<^verbatim>\<open>kcp.go\<close>), the certificate both ends derive from the shared secret and pin
  (\<^verbatim>\<open>tlskey.go\<close>), and the sessions (\<^verbatim>\<open>session.go\<close>, \<^verbatim>\<open>quic.go\<close>): dialling, listening,
  accepting and closing, with every external object they acquire.
\<close>

section \<open>Cryptographic library\<close>

datatype cipher = AESBlockCrypt | AESGCMCrypt | Salsa20BlockCrypt | NoneBlockCrypt | NilCrypt

text \<open>The object a kcp-go constructor returns is identified by the constructor and its key.\<close>

datatype BlockCrypt = BlockCrypt cipher "byte list"

record tls_certificate =
  tc_leaf :: "byte list"
  tc_key :: "byte list"

text \<open>
  The functions of the crypto packages: \<open>pbkdf2\<close> (secret, salt, iterations, key length),
  \<open>new_block\<close> (the error of a block-cipher constructor, if any), \<open>sha256\<close>, the order of P-256,
  the base-point multiplication, \<^verbatim>\<open>x509.CreateCertificate\<close> for the fixed template (from the
  byte the constant reader delivers, the public point and the scalar), \<^verbatim>\<open>MarshalECPrivateKey\<close>,
  PEM encoding (block type, bytes) and \<^verbatim>\<open>tls.X509KeyPair\<close>.
\<close>

record crypto =
  cr_pbkdf2 :: "byte list \<Rightarrow> byte list \<Rightarrow> nat \<Rightarrow> nat \<Rightarrow> byte list"
  cr_new_block :: "cipher \<Rightarrow> byte list \<Rightarrow> error option"
  cr_sha256 :: "byte list \<Rightarrow> byte list"
  cr_order :: int
  cr_base_mult :: "int \<Rightarrow> int \<times> int"
  cr_create_cert :: "byte \<Rightarrow> int \<times> int \<Rightarrow> int \<Rightarrow> byte list res"
  cr_marshal_key :: "int \<Rightarrow> byte list res"
  cr_pem :: "string \<Rightarrow> byte list \<Rightarrow> byte list"
  cr_key_pair :: "byte list \<Rightarrow> byte list \<Rightarrow> tls_certificate res"

definition bytes_of :: "string \<Rightarrow> byte list" where
  "bytes_of s = map char_byte s"

section \<open>Options\<close>

definition ProtocolKCP :: string where "ProtocolKCP = ''kcp''"
definition ProtocolQUIC :: string where "ProtocolQUIC = ''quic''"

record KCPOptions =
  ko_Block :: "BlockCrypt option"
  ko_Mode :: string
  ko_MTU :: int
  ko_SndWnd :: int
  ko_RcvWnd :: int
  ko_DataShard :: int
  ko_ParityShard :: int

record QUICOptions =
  qo_ALPN :: string
  qo_IdleTimeout :: int
  qo_MaxIdleTimeout :: int

record Options =
  o_Protocol :: string
  o_SecretKey :: string
  o_KCP :: KCPOptions
  o_QUIC :: QUICOptions
  o_SmuxBuf :: int
  o_StreamBuf :: int

definition zero_kcp_options :: KCPOptions where
  "zero_kcp_options = \<lparr>ko_Block = None, ko_Mode = [], ko_MTU = 0, ko_SndWnd = 0, ko_RcvWnd = 0,
     ko_DataShard = 0, ko_ParityShard = 0\<rparr>"

definition kcpSalt :: string where "kcpSalt = ''paqet''"

text \<open>The table of \<^verbatim>\<open>NewBlockCrypt\<close>: key length (0: the whole derived key) and constructor.\<close>

definition block_table :: "string \<Rightarrow> (nat \<times> cipher) option" where
  "block_table = map_of
     [(''aes'', (0, AESBlockCrypt)), (''aes-128'', (16, AESBlockCrypt)),
      (''aes-128-gcm'', (16, AESGCMCrypt)), (''aes-192'', (24, AESBlockCrypt)),
      (''salsa20'', (0, Salsa20BlockCrypt)), (''aes-256'', (32, AESBlockCrypt)),
      (''none'', (0, NoneBlockCrypt)), (''null'', (0, NilCrypt))]"

definition build_block :: "crypto \<Rightarrow> cipher \<Rightarrow> byte list \<Rightarrow> BlockCrypt option res" where
  "build_block cr c material =
     (if c = NilCrypt then Inr None
      else (case cr_new_block cr c material of
              Some e \<Rightarrow> Inl e | None \<Rightarrow> Inr (Some (BlockCrypt c material))))"

definition NewBlockCrypt :: "crypto \<Rightarrow> string \<Rightarrow> string \<Rightarrow> BlockCrypt option res" where
  "NewBlockCrypt cr block key =
     (let derived = cr_pbkdf2 cr (bytes_of key) (bytes_of kcpSalt) 100000 32
      in case block_table block of
           None \<Rightarrow> Inl (Errorf ''unsupported kcp block %q'' [block])
         | Some (keyLen, c) \<Rightarrow>
             build_block cr c
               (if keyLen > 0 \<and> length derived \<ge> keyLen then take keyLen derived else derived))"

definition quic_options :: "(string \<Rightarrow> int option) \<Rightarrow> QUICConfig \<Rightarrow> QUICOptions" where
  "quic_options pd q =
     (let alpn = trim_space (q_ALPN q)
      in \<lparr>qo_ALPN = (if alpn = [] then ''paqetpremium'' else alpn),
          qo_IdleTimeout = parseDuration pd (q_IdleTimeout q) (30 * second),
          qo_MaxIdleTimeout = parseDuration pd (q_MaxIdleTimeout q) (60 * second)\<rparr>)"

definition kcp_options :: "BlockCrypt option \<Rightarrow> int \<Rightarrow> KCPConfig \<Rightarrow> KCPOptions" where
  "kcp_options block wnd k =
     \<lparr>ko_Block = block,
      ko_Mode = (let m = trim_space (k_Mode k) in if m = [] then ''fast'' else m),
      ko_MTU = (if k_MTU k \<le> 0 then 1150 else k_MTU k),
      ko_SndWnd = (if k_SndWnd k > 0 then k_SndWnd k else wnd),
      ko_RcvWnd = (if k_RcvWnd k > 0 then k_RcvWnd k else wnd),
      ko_DataShard = k_DataShard k,
      ko_ParityShard = k_ParityShard k\<rparr>"

definition OptionsFromConfig ::
  "crypto \<Rightarrow> (string \<Rightarrow> int option) \<Rightarrow> string \<Rightarrow> TransportConfig \<Rightarrow> Options res" where
  "OptionsFromConfig cr pd role t =
     (let p0 = to_lower (trim_space (t_Protocol t));
          proto = (if p0 = [] then ProtocolKCP else p0);
          key = trim_space (k_Key (t_KCP t));
          wnd = (if role = RoleServer then 1024 else 512);
          opt = \<lparr>o_Protocol = proto, o_SecretKey = key, o_KCP = zero_kcp_options,
                 o_QUIC = quic_options pd (t_QUIC t), o_SmuxBuf = 4 * 1024 * 1024,
                 o_StreamBuf = 2 * 1024 * 1024\<rparr>
      in if key = [] then Inl (Errorf ''transport.kcp.key is required (shared tunnel secret)'' [])
         else if proto = ProtocolKCP then
           (case NewBlockCrypt cr (k_Block (t_KCP t)) key of
              Inl e \<Rightarrow> Inl e
            | Inr block \<Rightarrow> Inr (opt\<lparr>o_KCP := kcp_options block wnd (t_KCP t)\<rparr>))
         else if proto = ProtocolQUIC then Inr opt
         else Inl (Errorf ''transport.protocol: unsupported %q (use kcp or quic)'' [proto]))"

text \<open>\<^verbatim>\<open>ApplyKCP\<close> as the sequence of setter calls it makes on the kcp-go session.\<close>

definition kcp_tuning :: "string \<Rightarrow> (int \<times> int \<times> int \<times> int) \<times> bool \<times> bool" where
  "kcp_tuning mode =
     (if mode = ''normal'' then ((0, 40, 2, 1), True, False)
      else if mode = ''fast2'' then ((1, 20, 2, 1), False, True)
      else if mode = ''fast3'' then ((1, 10, 2, 1), False, True)
      else ((0, 30, 2, 1), True, False))"

definition ApplyKCP :: "Options \<Rightarrow> kcp_setting list" where
  "ApplyKCP opt =
     (case kcp_tuning (ko_Mode (o_KCP opt)) of
        ((noDelay, interval, resend, noCongestion), wDelay, ackNoDelay) \<Rightarrow>
          [SetNoDelay noDelay interval resend noCongestion,
           SetWindowSize (ko_SndWnd (o_KCP opt)) (ko_RcvWnd (o_KCP opt)),
           SetMtu (ko_MTU (o_KCP opt)), SetWriteDelay wDelay, SetACKNoDelay ackNoDelay, SetDSCP 46])"

definition smuxConfig :: "Options \<Rightarrow> smux_config" where
  "smuxConfig opt = \<lparr>sc_Version = 2, sc_KeepAliveInterval = 10 * second,
     sc_KeepAliveTimeout = 30 * second, sc_MaxFrameSize = 65535,
     sc_MaxReceiveBuffer = o_SmuxBuf opt, sc_MaxStreamBuffer = o_StreamBuf opt\<rparr>"

section \<open>Certificates from the shared secret\<close>

definition be_int :: "byte list \<Rightarrow> int" where
  "be_int bs = foldl (\<lambda>a b. a * 256 + uint b) 0 bs"

definition constReader_Read :: "byte \<Rightarrow> nat \<Rightarrow> byte list" where
  "constReader_Read c n = replicate n c"

definition deriveScalar :: "byte list \<Rightarrow> int \<Rightarrow> int" where
  "deriveScalar seed n = be_int seed mod (n - 1) + 1"

definition deriveCert :: "crypto \<Rightarrow> string \<Rightarrow> (tls_certificate \<times> byte list) res" where
  "deriveCert cr secret =
     (let seed = cr_sha256 cr (bytes_of (secret @ '':paqetpremium-quic-v1''));
          d = deriveScalar seed (cr_order cr);
          pub = cr_base_mult cr d
      in case cr_create_cert cr (hd seed) pub d of
           Inl e \<Rightarrow> Inl e
         | Inr der \<Rightarrow>
             (case cr_marshal_key cr d of
                Inl e \<Rightarrow> Inl e
              | Inr keyDER \<Rightarrow>
                  (case cr_key_pair cr (cr_pem cr ''CERTIFICATE'' der) (cr_pem cr ''EC PRIVATE KEY'' keyDER) of
                     Inl e \<Rightarrow> Inl e
                   | Inr tlsCert \<Rightarrow> Inr (tlsCert, der))))"

definition pinnedVerify :: "byte list \<Rightarrow> byte list list \<Rightarrow> error option" where
  "pinnedVerify expectedDER rawCerts =
     (case rawCerts of
        [] \<Rightarrow> Some (Errorf ''paqetpremium: peer presented no certificate'' [])
      | c # _ \<Rightarrow>
          if c \<noteq> expectedDER
          then Some (Errorf ''paqetpremium: peer certificate not derived from shared secret'' [])
          else None)"

datatype client_auth = NoClientCert | RequireAnyClientCert

record tls_config =
  tl_MinVersion :: int
  tl_NextProtos :: "string list"
  tl_Certificates :: "tls_certificate list"
  tl_ClientAuth :: client_auth
  tl_InsecureSkipVerify :: bool
  tl_ServerName :: string
  tl_Verify :: "byte list list \<Rightarrow> error option"

definition VersionTLS13 :: int where "VersionTLS13 = 0x0304"

definition tlsConfigFromSecret :: "crypto \<Rightarrow> string \<Rightarrow> string \<Rightarrow> bool \<Rightarrow> tls_config res" where
  "tlsConfigFromSecret cr secret alpn server =
     (case deriveCert cr secret of
        Inl e \<Rightarrow> Inl e
      | Inr (tlsCert, der) \<Rightarrow>
          Inr \<lparr>tl_MinVersion = VersionTLS13, tl_NextProtos = [alpn], tl_Certificates = [tlsCert],
               tl_ClientAuth = (if server then RequireAnyClientCert else NoClientCert),
               tl_InsecureSkipVerify = \<not> server,
               tl_ServerName = (if server then [] else ''paqetpremium''),
               tl_Verify = pinnedVerify der\<rparr>)"

section \<open>Sessions\<close>

record Session =
  ss_PacketConn :: "packet_conn option"
  ss_remoteAddr :: "udp_addr option"
  ss_KCP :: "handle option"
  ss_quicTr :: "handle option"
  ss_quicConn :: "handle option"
  ss_quicStream :: "handle option"
  ss_Smux :: "handle option"

definition maxDatagramPayload :: nat where "maxDatagramPayload = 1180 - 8"

definition DatagramsOK :: "Session \<Rightarrow> bool" where
  "DatagramsOK s = (ss_quicConn s \<noteq> None)"

definition SendDatagram :: "env \<Rightarrow> Session \<Rightarrow> byte list \<Rightarrow> world \<Rightarrow> error option \<times> world" where
  "SendDatagram env s b w =
     (case ss_quicConn s of
        None \<Rightarrow> (Some (Errorf ''datagrams not supported'' []), w)
      | Some q \<Rightarrow>
          (case e_fail env (QuicSendDatagram q) w of
             Some e \<Rightarrow> (Some e, tick w)
           | None \<Rightarrow> (None, (tick w)\<lparr>w_log := w_log w @ [(q, b)]\<rparr>)))"

definition ReceiveDatagram :: "env \<Rightarrow> Session \<Rightarrow> world \<Rightarrow> byte list res \<times> world" where
  "ReceiveDatagram env s w =
     (case ss_quicConn s of
        None \<Rightarrow> (Inl (Errorf ''datagrams not supported'' []), w)
      | Some q \<Rightarrow> (e_recv env q w, tick w))"

definition MaxDatagramPayload :: "Session \<Rightarrow> nat" where
  "MaxDatagramPayload s = maxDatagramPayload"

definition RemoteAddr :: "env \<Rightarrow> Session \<Rightarrow> udp_addr option" where
  "RemoteAddr env s =
     (case ss_remoteAddr s of
        Some a \<Rightarrow> Some a
      | None \<Rightarrow>
          (case ss_KCP s of
             Some k \<Rightarrow> Some (e_peer env k)
           | None \<Rightarrow> map_option (e_peer env) (ss_quicConn s)))"

definition close_conn_opt :: "packet_conn option \<Rightarrow> world \<Rightarrow> world" where
  "close_conn_opt c w = (case c of None \<Rightarrow> w | Some hs \<Rightarrow> close_conn hs w)"

lemma close_conn_opt_simps [simp]:
  "w_next (close_conn_opt c w) = w_next w" "w_log (close_conn_opt c w) = w_log w"
  "world_ok w \<Longrightarrow> world_ok (close_conn_opt c w)"
  "w_open (close_conn_opt c w) = filter (live (\<Union> (set ` set_option c))) (w_open w)"
  by (cases c; simp add: close_conn_opt_def close_conn_open filter_id_conv)+

definition session_Close :: "Session \<Rightarrow> world \<Rightarrow> world" where
  "session_Close s w =
     (let w1 = close_opt (ss_Smux s) w;
          w2 = close_opt (ss_quicStream s) w1;
          w3 = close_opt (ss_quicConn s) w2;
          w4 = close_opt (ss_quicTr s) w3;
          w5 = close_opt (ss_KCP s) w4
      in close_conn_opt (ss_PacketConn s) w5)"

text \<open>\<^verbatim>\<open>smux.Client\<close> and \<^verbatim>\<open>smux.Server\<close> on a connection, with the sources' configuration.\<close>

definition smuxClient :: "env \<Rightarrow> Options \<Rightarrow> world \<Rightarrow> handle res \<times> world" where
  "smuxClient env opt w =
     (case acquire env (SmuxClient (smuxConfig opt)) None w of
        (Inl e, w1) \<Rightarrow> (Inl (Wrapf ''smux client: %w'' [] e), w1)
      | (Inr h, w1) \<Rightarrow> (Inr h, w1))"

definition smuxServer :: "env \<Rightarrow> Options \<Rightarrow> world \<Rightarrow> handle res \<times> world" where
  "smuxServer env opt w =
     (case acquire env (SmuxServer (smuxConfig opt)) None w of
        (Inl e, w1) \<Rightarrow> (Inl (Wrapf ''smux server: %w'' [] e), w1)
      | (Inr h, w1) \<Rightarrow> (Inr h, w1))"

definition apply_kcp :: "handle \<Rightarrow> Options \<Rightarrow> world \<Rightarrow> world" where
  "apply_kcp k opt w = w\<lparr>w_kcp := w_kcp w @ [(k, ApplyKCP opt)]\<rparr>"

definition dialKCP :: "env \<Rightarrow> udp_addr \<Rightarrow> Options \<Rightarrow> packet_conn \<Rightarrow> world \<Rightarrow> Session res \<times> world" where
  "dialKCP env addr opt pconn w =
     (case acquire env KcpNewConn None w of
        (Inl e, w1) \<Rightarrow> (Inl (Wrapf ''kcp dial: %w'' [] e), w1)
      | (Inr k, w1) \<Rightarrow>
          (case smuxClient env opt (apply_kcp k opt w1) of
             (Inl e, w2) \<Rightarrow> (Inl e, close_handle k w2)
           | (Inr sm, w2) \<Rightarrow>
               (Inr \<lparr>ss_PacketConn = Some pconn, ss_remoteAddr = Some addr, ss_KCP = Some k,
                     ss_quicTr = None, ss_quicConn = None, ss_quicStream = None, ss_Smux = Some sm\<rparr>,
                w2)))"

text \<open>Making a \<^verbatim>\<open>quic.Transport\<close> is a struct literal: it cannot fail, but it has to be closed.\<close>

definition new_quic_transport :: "world \<Rightarrow> handle \<times> world" where
  "new_quic_transport w =
     (w_next w, w\<lparr>w_next := w_next w + 1, w_open := (w_next w, None) # w_open w\<rparr>)"

definition dialQUIC ::
  "crypto \<Rightarrow> env \<Rightarrow> udp_addr \<Rightarrow> Options \<Rightarrow> packet_conn \<Rightarrow> world \<Rightarrow> Session res \<times> world" where
  "dialQUIC cr env addr opt pconn w =
     (case tlsConfigFromSecret cr (o_SecretKey opt) (qo_ALPN (o_QUIC opt)) False of
        Inl e \<Rightarrow> (Inl (Wrapf ''quic tls: %w'' [] e), w)
      | Inr tlsConf \<Rightarrow>
          let (tr, w1) = new_quic_transport w
          in case acquire env QuicDial None w1 of
               (Inl e, w2) \<Rightarrow> (Inl (Wrapf ''quic dial: %w'' [] e), close_handle tr w2)
             | (Inr q, w2) \<Rightarrow>
                 (case acquire env QuicOpenStream None w2 of
                    (Inl e, w3) \<Rightarrow>
                      (Inl (Wrapf ''quic stream: %w'' [] e), close_handle tr (close_handle q w3))
                  | (Inr st, w3) \<Rightarrow>
                      (case smuxClient env opt w3 of
                         (Inl e, w4) \<Rightarrow>
                           (Inl e, close_handle tr (close_handle q (close_handle st w4)))
                       | (Inr sm, w4) \<Rightarrow>
                           (Inr \<lparr>ss_PacketConn = Some pconn, ss_remoteAddr = Some addr, ss_KCP = None,
                                 ss_quicTr = Some tr, ss_quicConn = Some q, ss_quicStream = Some st,
                                 ss_Smux = Some sm\<rparr>, w4))))"

definition transport_Dial ::
  "crypto \<Rightarrow> env \<Rightarrow> udp_addr \<Rightarrow> Options \<Rightarrow> packet_conn \<Rightarrow> world \<Rightarrow> Session res \<times> world" where
  "transport_Dial cr env addr opt pconn w =
     (if o_Protocol opt = ProtocolQUIC then dialQUIC cr env addr opt pconn w
      else dialKCP env addr opt pconn w)"

section \<open>Listeners\<close>

record quicListener =
  ql_packetConn :: "packet_conn option"
  ql_opt :: Options
  ql_transport :: "handle option"
  ql_listener :: "handle option"

record Listener =
  l_packetConn :: "packet_conn option"
  l_opt :: Options
  l_kcpLn :: "handle option"
  l_quicLn :: "quicListener option"

definition listenQUIC :: "crypto \<Rightarrow> env \<Rightarrow> Options \<Rightarrow> packet_conn \<Rightarrow> world \<Rightarrow> quicListener res \<times> world" where
  "listenQUIC cr env opt pconn w =
     (case tlsConfigFromSecret cr (o_SecretKey opt) (qo_ALPN (o_QUIC opt)) True of
        Inl e \<Rightarrow> (Inl (Wrapf ''quic tls: %w'' [] e), w)
      | Inr tlsConf \<Rightarrow>
          let (tr, w1) = new_quic_transport w
          in case acquire env QuicListen None w1 of
               (Inl e, w2) \<Rightarrow> (Inl (Wrapf ''quic listen: %w'' [] e), close_handle tr w2)
             | (Inr ln, w2) \<Rightarrow>
                 (Inr \<lparr>ql_packetConn = Some pconn, ql_opt = opt, ql_transport = Some tr,
                       ql_listener = Some ln\<rparr>, w2))"

definition Listen :: "crypto \<Rightarrow> env \<Rightarrow> Options \<Rightarrow> packet_conn \<Rightarrow> world \<Rightarrow> Listener res \<times> world" where
  "Listen cr env opt pconn w =
     (if o_Protocol opt = ProtocolQUIC then
        (case listenQUIC cr env opt pconn w of
           (Inl e, w1) \<Rightarrow> (Inl e, w1)
         | (Inr qln, w1) \<Rightarrow>
             (Inr \<lparr>l_packetConn = Some pconn, l_opt = opt, l_kcpLn = None, l_quicLn = Some qln\<rparr>, w1))
      else
        (case acquire env KcpServeConn None w of
           (Inl e, w1) \<Rightarrow> (Inl (Wrapf ''kcp listen: %w'' [] e), w1)
         | (Inr ln, w1) \<Rightarrow>
             (Inr \<lparr>l_packetConn = Some pconn, l_opt = opt, l_kcpLn = Some ln, l_quicLn = None\<rparr>, w1)))"

definition quic_Accept :: "env \<Rightarrow> quicListener \<Rightarrow> world \<Rightarrow> Session res \<times> world" where
  "quic_Accept env l w =
     (case acquire env QuicAccept None w of
        (Inl e, w1) \<Rightarrow> (Inl e, w1)
      | (Inr q, w1) \<Rightarrow>
          (case acquire env QuicAcceptStream None w1 of
             (Inl e, w2) \<Rightarrow> (Inl (Wrapf ''quic accept stream: %w'' [] e), close_handle q w2)
           | (Inr st, w2) \<Rightarrow>
               (case smuxServer env (ql_opt l) w2 of
                  (Inl e, w3) \<Rightarrow> (Inl e, close_handle q (close_handle st w3))
                | (Inr sm, w3) \<Rightarrow>
                    (Inr \<lparr>ss_PacketConn = None, ss_remoteAddr = Some (e_peer env q), ss_KCP = None,
                          ss_quicTr = None, ss_quicConn = Some q, ss_quicStream = Some st,
                          ss_Smux = Some sm\<rparr>, w3))))"

text \<open>A listener has a QUIC or a KCP half; with neither, \<^verbatim>\<open>AcceptKCP\<close> on nil panics.\<close>

definition Accept :: "env \<Rightarrow> Listener \<Rightarrow> world \<Rightarrow> Session res \<times> world" where
  "Accept env l w =
     (case l_quicLn l of
        Some q \<Rightarrow> quic_Accept env q w
      | None \<Rightarrow>
          (case l_kcpLn l of
             None \<Rightarrow> (Inl (Panic ''nil pointer dereference''), w)
           | Some _ \<Rightarrow>
               (case acquire env KcpAccept None w of
                  (Inl e, w1) \<Rightarrow> (Inl e, w1)
                | (Inr k, w1) \<Rightarrow>
                    (case smuxServer env (l_opt l) (apply_kcp k (l_opt l) w1) of
                       (Inl e, w2) \<Rightarrow> (Inl e, close_handle k w2)
                     | (Inr sm, w2) \<Rightarrow>
                         (Inr \<lparr>ss_PacketConn = None, ss_remoteAddr = Some (e_peer env k),
                               ss_KCP = Some k, ss_quicTr = None, ss_quicConn = None,
                               ss_quicStream = None, ss_Smux = Some sm\<rparr>, w2)))))"

definition quic_listener_Close :: "quicListener \<Rightarrow> world \<Rightarrow> world" where
  "quic_listener_Close l w =
     close_conn_opt (ql_packetConn l) (close_opt (ql_transport l) (close_opt (ql_listener l) w))"

definition listener_Close :: "Listener \<Rightarrow> world \<Rightarrow> world" where
  "listener_Close l w =
     (case l_quicLn l of
        Some q \<Rightarrow> quic_listener_Close q w
      | None \<Rightarrow> close_conn_opt (l_packetConn l) (close_opt (l_kcpLn l) w))"

section \<open>Resources of a session\<close>

definition session_own :: "Session \<Rightarrow> handle set" where
  "session_own s = set_option (ss_Smux s) \<union> set_option (ss_quicStream s) \<union> set_option (ss_quicConn s)
     \<union> set_option (ss_quicTr s) \<union> set_option (ss_KCP s)"

definition session_holds :: "Session \<Rightarrow> handle set" where
  "session_holds s = session_own s \<union> \<Union> (set ` set_option (ss_PacketConn s))"

lemma session_Close_open: "w_open (session_Close s w) = filter (live (session_holds s)) (w_open w)"
  by (simp add: session_Close_def Let_def close_opt_open filter_live_un session_holds_def session_own_def
      Un_ac del: filter_filter)

lemma session_Close_simps [simp]:
  "w_next (session_Close s w) = w_next w" "w_log (session_Close s w) = w_log w"
  "world_ok w \<Longrightarrow> world_ok (session_Close s w)"
  by (simp_all add: session_Close_def Let_def)

lemma apply_kcp_grows: "grows w H w' \<Longrightarrow> grows w H (apply_kcp k opt w')"
  by (simp add: grows_def apply_kcp_def world_ok_def)

lemma new_quic_transport_grows:
  assumes "world_ok w" and "new_quic_transport w = (h, w')"
  shows "grows w {h} w'"
proof -
  have w': "w' = w\<lparr>w_next := w_next w + 1, w_open := (w_next w, None) # w_open w\<rparr>" "h = w_next w"
    using assms(2) by (auto simp: new_quic_transport_def)
  have "w_next w \<notin> fst ` set (w_open w)" using assms(1) by (fastforce simp: world_ok_def)
  then have "world_ok w'" using assms(1) unfolding w' by (fastforce simp: world_ok_def)
  then show ?thesis
    by (simp add: grows_def w' live_def)
qed

lemma smuxClient_ok:
  "world_ok w \<Longrightarrow> smuxClient env opt w = (Inr h, w') \<Longrightarrow> grows w {h} w'"
  by (auto simp: smuxClient_def split: prod.splits sum.splits intro: grows_acquire)

lemma smuxClient_fail:
  "world_ok w \<Longrightarrow> smuxClient env opt w = (Inl e, w') \<Longrightarrow> unchanged w w'"
  by (auto simp: smuxClient_def split: prod.splits sum.splits intro: acquire_unchanged)

lemma smuxServer_ok:
  "world_ok w \<Longrightarrow> smuxServer env opt w = (Inr h, w') \<Longrightarrow> grows w {h} w'"
  by (auto simp: smuxServer_def split: prod.splits sum.splits intro: grows_acquire)

lemma smuxServer_fail:
  "world_ok w \<Longrightarrow> smuxServer env opt w = (Inl e, w') \<Longrightarrow> unchanged w w'"
  by (auto simp: smuxServer_def split: prod.splits sum.splits intro: acquire_unchanged)

lemma dialKCP_fail:
  assumes w: "world_ok w" and d: "dialKCP env addr opt pconn w = (Inl e, w')"
  shows "unchanged w w'"
proof -
  obtain r1 w1 where a: "acquire env KcpNewConn None w = (r1, w1)" by fastforce
  show ?thesis
  proof (cases r1)
    case (Inl e1)
    with a d acquire_unchanged [OF w] show ?thesis by (auto simp: dialKCP_def)
  next
    case (Inr k)
    have g: "grows w {k} (apply_kcp k opt w1)"
      using grows_acquire [OF w, of env KcpNewConn None k w1] a Inr by (simp add: apply_kcp_grows)
    obtain e2 w2 where s: "smuxClient env opt (apply_kcp k opt w1) = (Inl e2, w2)"
      and w': "w' = close_handle k w2"
      using d a Inr by (auto simp: dialKCP_def split: prod.splits sum.splits)
    have g2: "grows w {k} w2"
      by (rule grows_unchanged [OF g smuxClient_fail [OF grows_ok [OF g] s]])
    show ?thesis
      by (rule grows_close_unchanged [OF w g2])
        (simp_all add: w' close_handle_open grows_ok [OF g2])
  qed
qed

lemma dialKCP_ok:
  assumes w: "world_ok w" and d: "dialKCP env addr opt pconn w = (Inr s, w')"
  shows "grows w (session_own s) w' \<and> ss_PacketConn s = Some pconn \<and> ss_Smux s \<noteq> None"
proof -
  obtain k w1 sm where a: "acquire env KcpNewConn None w = (Inr k, w1)"
    and s: "smuxClient env opt (apply_kcp k opt w1) = (Inr sm, w')"
    and se: "s = \<lparr>ss_PacketConn = Some pconn, ss_remoteAddr = Some addr, ss_KCP = Some k,
      ss_quicTr = None, ss_quicConn = None, ss_quicStream = None, ss_Smux = Some sm\<rparr>"
    using d by (auto simp: dialKCP_def split: prod.splits sum.splits)
  have g: "grows w {k} (apply_kcp k opt w1)"
    using grows_acquire [OF w a] by (simp add: apply_kcp_grows)
  have "grows w ({k} \<union> {sm}) w'"
    by (rule grows_trans [OF g smuxClient_ok [OF grows_ok [OF g] s]])
  moreover have "{k} \<union> {sm} = session_own s" by (auto simp: se session_own_def)
  ultimately show ?thesis by (simp add: se)
qed

lemma dialQUIC_fail:
  assumes w: "world_ok w" and d: "dialQUIC cr env addr opt pconn w = (Inl e, w')"
  shows "unchanged w w'"
proof (cases "tlsConfigFromSecret cr (o_SecretKey opt) (qo_ALPN (o_QUIC opt)) False")
  case (Inl e1)
  with d w show ?thesis by (simp add: dialQUIC_def unchanged_def)
next
  case (Inr tlsConf)
  obtain tr w1 where t: "new_quic_transport w = (tr, w1)" by fastforce
  note g1 = new_quic_transport_grows [OF w t]
  obtain r2 w2 where a2: "acquire env QuicDial None w1 = (r2, w2)" by fastforce
  show ?thesis
  proof (cases r2)
    case e2: (Inl e2)
    have g2: "grows w {tr} w2"
      by (rule grows_unchanged [OF g1 acquire_unchanged [OF grows_ok [OF g1] a2 [unfolded e2]]])
    have "w' = close_handle tr w2" using d Inr t a2 e2 by (simp add: dialQUIC_def)
    then show ?thesis
      by (intro grows_close_unchanged [OF w g2]) (simp_all add: close_handle_open grows_ok [OF g2])
  next
    case q: (Inr q)
    have g2: "grows w ({tr} \<union> {q}) w2"
      by (rule grows_trans [OF g1 grows_acquire [OF grows_ok [OF g1] a2 [unfolded q]]]) simp
    obtain r3 w3 where a3: "acquire env QuicOpenStream None w2 = (r3, w3)" by fastforce
    show ?thesis
    proof (cases r3)
      case e3: (Inl e3)
      have g3: "grows w ({tr} \<union> {q}) w3"
        by (rule grows_unchanged [OF g2 acquire_unchanged [OF grows_ok [OF g2] a3 [unfolded e3]]])
      have "w' = close_handle tr (close_handle q w3)"
        using d Inr t a2 q a3 e3 by (simp add: dialQUIC_def)
      then show ?thesis
        by (intro grows_close_unchanged [OF w g3])
          (simp_all add: close_handle_open grows_ok [OF g3] filter_live_un del: filter_filter)
    next
      case st: (Inr st)
      have g3: "grows w ({tr} \<union> {q} \<union> {st}) w3"
        by (rule grows_trans [OF g2 grows_acquire [OF grows_ok [OF g2] a3 [unfolded st]]]) simp
      obtain e4 w4 where s: "smuxClient env opt w3 = (Inl e4, w4)"
        and w': "w' = close_handle tr (close_handle q (close_handle st w4))"
        using d Inr t a2 q a3 st by (auto simp: dialQUIC_def split: prod.splits sum.splits)
      have g4: "grows w ({tr} \<union> {q} \<union> {st}) w4"
        by (rule grows_unchanged [OF g3 smuxClient_fail [OF grows_ok [OF g3] s]])
      show ?thesis unfolding w'
        by (intro grows_close_unchanged [OF w g4])
          (simp_all add: close_handle_open grows_ok [OF g4] filter_live_un insert_commute del: filter_filter)
    qed
  qed
qed

lemma dialQUIC_ok:
  assumes w: "world_ok w" and d: "dialQUIC cr env addr opt pconn w = (Inr s, w')"
  shows "grows w (session_own s) w' \<and> ss_PacketConn s = Some pconn \<and> ss_Smux s \<noteq> None"
proof -
  obtain tr w1 q w2 st w3 sm where t: "new_quic_transport w = (tr, w1)"
    and a2: "acquire env QuicDial None w1 = (Inr q, w2)"
    and a3: "acquire env QuicOpenStream None w2 = (Inr st, w3)"
    and s: "smuxClient env opt w3 = (Inr sm, w')"
    and se: "s = \<lparr>ss_PacketConn = Some pconn, ss_remoteAddr = Some addr, ss_KCP = None,
       ss_quicTr = Some tr, ss_quicConn = Some q, ss_quicStream = Some st, ss_Smux = Some sm\<rparr>"
    using d by (auto simp: dialQUIC_def Let_def split: prod.splits sum.splits)
  note g1 = new_quic_transport_grows [OF w t]
  have g2: "grows w ({tr} \<union> {q}) w2"
    by (rule grows_trans [OF g1 grows_acquire [OF grows_ok [OF g1] a2]]) simp
  have g3: "grows w ({tr} \<union> {q} \<union> {st}) w3"
    by (rule grows_trans [OF g2 grows_acquire [OF grows_ok [OF g2] a3]]) simp
  have "grows w ({tr} \<union> {q} \<union> {st} \<union> {sm}) w'"
    by (rule grows_trans [OF g3 smuxClient_ok [OF grows_ok [OF g3] s]])
  moreover have "{tr} \<union> {q} \<union> {st} \<union> {sm} = session_own s" by (auto simp: se session_own_def)
  ultimately show ?thesis by (simp add: se)
qed

lemma transport_Dial_fail:
  "world_ok w \<Longrightarrow> transport_Dial cr env addr opt pconn w = (Inl e, w') \<Longrightarrow> unchanged w w'"
  by (auto simp: transport_Dial_def split: if_splits intro: dialKCP_fail dialQUIC_fail)

lemma transport_Dial_ok:
  "world_ok w \<Longrightarrow> transport_Dial cr env addr opt pconn w = (Inr s, w') \<Longrightarrow>
     grows w (session_own s) w' \<and> ss_PacketConn s = Some pconn \<and> ss_Smux s \<noteq> None"
  using dialKCP_ok dialQUIC_ok by (auto simp: transport_Dial_def split: if_splits)

text \<open>An accepted session: as for a dialled one, without a packet connection of its own.\<close>

lemma quic_Accept_fail:
  assumes w: "world_ok w" and d: "quic_Accept env l w = (Inl e, w')"
  shows "unchanged w w'"
proof -
  obtain r1 w1 where a1: "acquire env QuicAccept None w = (r1, w1)" by fastforce
  show ?thesis
  proof (cases r1)
    case (Inl e1)
    with d a1 acquire_unchanged [OF w] show ?thesis by (auto simp: quic_Accept_def)
  next
    case q: (Inr q)
    have g1: "grows w {q} w1" by (rule grows_acquire [OF w a1 [unfolded q]]) simp
    obtain r2 w2 where a2: "acquire env QuicAcceptStream None w1 = (r2, w2)" by fastforce
    show ?thesis
    proof (cases r2)
      case e2: (Inl e2)
      have g2: "grows w {q} w2"
        by (rule grows_unchanged [OF g1 acquire_unchanged [OF grows_ok [OF g1] a2 [unfolded e2]]])
      have "w' = close_handle q w2" using d a1 q a2 e2 by (simp add: quic_Accept_def)
      then show ?thesis
        by (intro grows_close_unchanged [OF w g2]) (simp_all add: close_handle_open grows_ok [OF g2])
    next
      case st: (Inr st)
      have g2: "grows w ({q} \<union> {st}) w2"
        by (rule grows_trans [OF g1 grows_acquire [OF grows_ok [OF g1] a2 [unfolded st]]]) simp
      obtain e3 w3 where s: "smuxServer env (ql_opt l) w2 = (Inl e3, w3)"
        and w': "w' = close_handle q (close_handle st w3)"
        using d a1 q a2 st by (auto simp: quic_Accept_def split: prod.splits sum.splits)
      have g3: "grows w ({q} \<union> {st}) w3"
        by (rule grows_unchanged [OF g2 smuxServer_fail [OF grows_ok [OF g2] s]])
      show ?thesis unfolding w'
        by (intro grows_close_unchanged [OF w g3])
          (simp_all add: close_handle_open grows_ok [OF g3] filter_live_un del: filter_filter)
    qed
  qed
qed

lemma quic_Accept_ok:
  assumes w: "world_ok w" and d: "quic_Accept env l w = (Inr s, w')"
  shows "grows w (session_holds s) w' \<and> DatagramsOK s"
proof -
  obtain q w1 st w2 sm where a1: "acquire env QuicAccept None w = (Inr q, w1)"
    and a2: "acquire env QuicAcceptStream None w1 = (Inr st, w2)"
    and s: "smuxServer env (ql_opt l) w2 = (Inr sm, w')"
    and se: "s = \<lparr>ss_PacketConn = None, ss_remoteAddr = Some (e_peer env q), ss_KCP = None,
       ss_quicTr = None, ss_quicConn = Some q, ss_quicStream = Some st, ss_Smux = Some sm\<rparr>"
    using d by (auto simp: quic_Accept_def split: prod.splits sum.splits)
  have g1: "grows w {q} w1" by (rule grows_acquire [OF w a1]) simp
  have g2: "grows w ({q} \<union> {st}) w2"
    by (rule grows_trans [OF g1 grows_acquire [OF grows_ok [OF g1] a2]]) simp
  have "grows w ({q} \<union> {st} \<union> {sm}) w'"
    by (rule grows_trans [OF g2 smuxServer_ok [OF grows_ok [OF g2] s]])
  moreover have "{q} \<union> {st} \<union> {sm} = session_holds s"
    by (auto simp: se session_own_def session_holds_def)
  ultimately show ?thesis by (simp add: se DatagramsOK_def)
qed

lemma kcp_Accept_fail:
  assumes w: "world_ok w" and l: "l_quicLn l = None" and d: "Accept env l w = (Inl e, w')"
  shows "unchanged w w'"
proof (cases "l_kcpLn l")
  case None
  with l d w show ?thesis by (auto simp: Accept_def unchanged_def)
next
  case (Some ln)
  obtain r1 w1 where a1: "acquire env KcpAccept None w = (r1, w1)" by fastforce
  show ?thesis
  proof (cases r1)
    case (Inl e1)
    with l Some d a1 acquire_unchanged [OF w] show ?thesis by (auto simp: Accept_def)
  next
    case k: (Inr k)
    have g: "grows w {k} (apply_kcp k (l_opt l) w1)"
      using grows_acquire [OF w a1 [unfolded k]] by (simp add: apply_kcp_grows)
    obtain e2 w2 where s: "smuxServer env (l_opt l) (apply_kcp k (l_opt l) w1) = (Inl e2, w2)"
      and w': "w' = close_handle k w2"
      using d l Some a1 k by (auto simp: Accept_def split: prod.splits sum.splits)
    have g2: "grows w {k} w2"
      by (rule grows_unchanged [OF g smuxServer_fail [OF grows_ok [OF g] s]])
    show ?thesis
      by (rule grows_close_unchanged [OF w g2]) (simp_all add: w' close_handle_open grows_ok [OF g2])
  qed
qed

lemma kcp_Accept_ok:
  assumes w: "world_ok w" and l: "l_quicLn l = None" and d: "Accept env l w = (Inr s, w')"
  shows "grows w (session_holds s) w'"
proof -
  obtain k w1 sm where a: "acquire env KcpAccept None w = (Inr k, w1)"
    and s: "smuxServer env (l_opt l) (apply_kcp k (l_opt l) w1) = (Inr sm, w')"
    and se: "s = \<lparr>ss_PacketConn = None, ss_remoteAddr = Some (e_peer env k), ss_KCP = Some k,
      ss_quicTr = None, ss_quicConn = None, ss_quicStream = None, ss_Smux = Some sm\<rparr>"
    using d l by (auto simp: Accept_def split: prod.splits sum.splits option.splits)
  have g: "grows w {k} (apply_kcp k (l_opt l) w1)"
    using grows_acquire [OF w a] by (simp add: apply_kcp_grows)
  have "grows w ({k} \<union> {sm}) w'"
    by (rule grows_trans [OF g smuxServer_ok [OF grows_ok [OF g] s]])
  moreover have "{k} \<union> {sm} = session_holds s" by (auto simp: se session_own_def session_holds_def)
  ultimately show ?thesis by simp
qed

text \<open>Accepting meets the contract of a constructor, for every listener.\<close>

interpretation accept: dialer "Accept env" session_Close session_holds
  for env
proof unfold_locales
  fix w l e w'
  assume "world_ok w" "Accept env l w = (Inl e, w')"
  then have "unchanged w w'"
    by (cases "l_quicLn l") (auto simp: Accept_def intro: quic_Accept_fail kcp_Accept_fail)
  then show "w_open w' = w_open w \<and> world_ok w' \<and> w_next w \<le> w_next w'"
    by (simp add: unchanged_def)
next
  fix w l s w'
  assume "world_ok w" "Accept env l w = (Inr s, w')"
  then show "grows w (session_holds s) w'"
    by (cases "l_quicLn l") (auto simp: Accept_def dest: quic_Accept_ok intro: kcp_Accept_ok)
qed (simp_all add: session_Close_open)

section \<open>Sample environments\<close>

text \<open>A calm environment, in which every call succeeds, and the empty world.\<close>

definition calm_env :: env where
  "calm_env = \<lparr>e_fail = (\<lambda>_ _. None), e_input = (\<lambda>_ _. []), e_recv = (\<lambda>_ _. Inl io_EOF),
     e_peer = (\<lambda>_. \<lparr>ua_ip = [10, 0, 0, 2], ua_port = 4000\<rparr>), e_rtt = (\<lambda>_. 1000000),
     e_rnd = (\<lambda>_. 7), e_iface = (\<lambda>n. Inr \<lparr>if_Name = n, if_HardwareAddr = []\<rparr>),
     e_pd = (\<lambda>_. None), e_enc = (\<lambda>m. [Type m]), e_dec = (\<lambda>b. (Inr (message (hd b)), tl b))\<rparr>"

definition world0 :: world where
  "world0 = \<lparr>w_clock = 0, w_next = 0, w_open = [], w_log = [], w_kcp = [], w_flags = []\<rparr>"

lemma world0_ok [simp]: "world_ok world0"
  by (simp add: world0_def world_ok_def)

text \<open>A toy cryptographic library whose key pair carries the certificate it was given.\<close>

definition toy_crypto :: crypto where
  "toy_crypto = \<lparr>cr_pbkdf2 = (\<lambda>k s n len. replicate len (of_nat (length k))),
     cr_new_block = (\<lambda>_ _. None), cr_sha256 = (\<lambda>b. take 32 (b @ replicate 32 0)), cr_order = 1000,
     cr_base_mult = (\<lambda>d. (d, d)), cr_create_cert = (\<lambda>b p d. Inr [b, word_of_int d]),
     cr_marshal_key = (\<lambda>d. Inr [word_of_int d]), cr_pem = (\<lambda>_ b. b),
     cr_key_pair = (\<lambda>c k. Inr \<lparr>tc_leaf = c, tc_key = k\<rparr>)\<rparr>"

definition sample_options :: Options where
  "sample_options = \<lparr>o_Protocol = ''quic'', o_SecretKey = ''secret'', o_KCP = zero_kcp_options,
     o_QUIC = \<lparr>qo_ALPN = ''paqetpremium'', qo_IdleTimeout = 0, qo_MaxIdleTimeout = 0\<rparr>,
     o_SmuxBuf = 4194304, o_StreamBuf = 2097152\<rparr>"

definition sample_kcp :: TransportConfig where
  "sample_kcp = \<lparr>t_Protocol = ''kcp'', t_Conn = 6,
     t_KCP = \<lparr>k_Mode = ''fast'', k_Block = ''aes-128-gcm'', k_Key = ''secret'', k_MTU = 1150,
              k_DataShard = 0, k_ParityShard = 0, k_SndWnd = 0, k_RcvWnd = 0\<rparr>,
     t_QUIC = \<lparr>q_ALPN = [], q_IdleTimeout = [], q_MaxIdleTimeout = []\<rparr>\<rparr>"

lemma pinnedVerify_None: "pinnedVerify der raw = None \<longleftrightarrow> raw \<noteq> [] \<and> hd raw = der"
  by (cases raw) (auto simp: pinnedVerify_def)

section \<open>Properties\<close>



text \<open>The private scalar derived from the secret is a valid one: between 1 and the group order
  minus 1, for every seed.\<close>

lemma derive_scalar_range:
  assumes "1 < n"
  shows "1 \<le> deriveScalar seed n \<and> deriveScalar seed n \<le> n - 1"
proof -
  have "0 < n - 1" using assms by simp
  from pos_mod_sign [OF this, of "be_int seed"] pos_mod_bound [OF this, of "be_int seed"]
  show ?thesis unfolding deriveScalar_def by linarith
qed

text \<open>Transport options: from a transport block that passed validation the options can fail
  only because of the block cipher, and whatever options come out name one of the two protocols,
  have a non-blank secret and ALPN, and for KCP a positive MTU and positive windows.\<close>

lemma options_sound:
  assumes "valid_transport t"
  shows "(is_err (OptionsFromConfig cr pd role t) \<longrightarrow>
            norm_proto t = ProtocolKCP
            \<and> is_err (NewBlockCrypt cr (k_Block (t_KCP t)) (trim_space (k_Key (t_KCP t)))))
     \<and> (\<forall>opt. OptionsFromConfig cr pd role t = Inr opt \<longrightarrow>
            o_Protocol opt = norm_proto t \<and> o_Protocol opt \<in> {ProtocolKCP, ProtocolQUIC}
            \<and> o_SecretKey opt \<noteq> [] \<and> qo_ALPN (o_QUIC opt) \<noteq> []
            \<and> (o_Protocol opt = ProtocolKCP \<longrightarrow> 0 < ko_MTU (o_KCP opt)
                 \<and> 0 < ko_SndWnd (o_KCP opt) \<and> 0 < ko_RcvWnd (o_KCP opt)))"
proof -
  have p: "norm_proto t = ''kcp'' \<or> norm_proto t = ''quic''" and k: "\<not> blank (k_Key (t_KCP t))"
    using assms by (auto simp: valid_transport_def)
  have "qo_ALPN (quic_options pd (t_QUIC t)) \<noteq> []" by (simp add: quic_options_def Let_def)
  moreover have "0 < ko_MTU (kcp_options b n c) \<and> (0 < n \<longrightarrow> 0 < ko_SndWnd (kcp_options b n c)
      \<and> 0 < ko_RcvWnd (kcp_options b n c))" for b n c
    by (simp add: kcp_options_def)
  ultimately show ?thesis
    using p k by (elim disjE) (auto simp: OptionsFromConfig_def norm_proto_def Let_def ProtocolKCP_def
        ProtocolQUIC_def split: sum.splits)
qed

text \<open>Accepting a session leaks nothing: a failed accept leaves exactly the objects that were
  open before, and closing an accepted session releases exactly what the accept acquired.\<close>

lemma accept_no_leak:
  assumes "world_ok w"
  shows "case Accept env l w of
           (Inl e, w') \<Rightarrow> w_open w' = w_open w
         | (Inr s, w') \<Rightarrow> w_open (session_Close s w') = w_open w"
  using accept.dial_fail [OF assms] accept.dial_release [OF assms]
  by (auto split: prod.splits sum.splits)

end
