(* ===== verification/Pcap.thy ===== *)
theory Pcap
  imports World
begin

unbundle bit_operations_syntax

text \<open>
  \<^verbatim>\<open>internal/pcap\<close> (Linux): the packet connection that carries tunnel traffic in crafted TCP
  segments. \<^verbatim>\<open>handle_linux.go\<close> opens a capture handle, \<^verbatim>\<open>send_linux.go\<close> builds and injects
  segments whose TCP flags cycle per peer, \<^verbatim>\<open>recv_linux.go\<close> filters and decodes, and
  \<^verbatim>\<open>conn_linux.go\<close> puts the two halves together. libpcap and gopacket's decoder and serialiser
  are parameters.
\<close>

section \<open>Opening handles (handle\_linux.go)\<close>

fun setup_steps :: "env \<Rightarrow> handle \<Rightarrow> (string \<times> int \<times> string) list \<Rightarrow> world \<Rightarrow> error option \<times> world" where
  "setup_steps env h [] w = (None, w)"
| "setup_steps env h ((op_name, arg, fmt) # steps) w =
     (case attempt env (PcapSetup h op_name arg) w of
        (Some e, w1) \<Rightarrow> (Some (Wrapf fmt [] e), w1)
      | (None, w1) \<Rightarrow> setup_steps env h steps w1)"

definition openHandle :: "env \<Rightarrow> NetworkRuntime \<Rightarrow> int \<Rightarrow> world \<Rightarrow> handle res \<times> world" where
  "openHandle env rt timeout w =
     (case acquire env (PcapNewInactive (if_Name (nr_Interface rt))) None w of
        (Inl e, w1) \<Rightarrow> (Inl (Wrapf ''pcap inactive handle on %s: %w'' [if_Name (nr_Interface rt)] e), w1)
      | (Inr inactive, w1) \<Rightarrow>
          (case setup_steps env inactive
                  [(''SetBufferSize'', nr_Sockbuf rt, ''pcap buffer size: %w''),
                   (''SetSnapLen'', 65536, ''pcap snaplen: %w''),
                   (''SetPromisc'', 1, ''pcap promisc: %w''),
                   (''SetTimeout'', timeout, ''pcap timeout: %w''),
                   (''SetImmediateMode'', 1, ''pcap immediate mode: %w'')] w1 of
             (Some e, w2) \<Rightarrow> (Inl e, close_handle inactive w2)
           | (None, w2) \<Rightarrow>
               (case acquire env (PcapActivate inactive) None w2 of
                  (Inl e, w3) \<Rightarrow>
                    (Inl (Wrapf ''pcap activate on %s: %w'' [if_Name (nr_Interface rt)] e),
                     close_handle inactive w3)
                | (Inr h, w3) \<Rightarrow> (Inr h, close_handle inactive w3))))"

section \<open>Sending (send\_linux.go)\<close>

text \<open>A \<^verbatim>\<open>net.Addr\<close> the connection is handed: a UDP address or anything else.\<close>

datatype net_addr = UDPAddr udp_addr | OtherAddr

record sendHandle =
  sh_handle :: handle
  sh_net :: NetworkRuntime
  sh_srcIP :: ip
  sh_routerMAC :: "byte list"
  sh_srcPort :: "16 word"
  sh_ipv6SrcIP :: "ip option"
  sh_ipv6RouterMAC :: "byte list"
  sh_baseTime :: "32 word"
  sh_tsCounter :: "32 word"
  sh_localFlags :: FlagCycle
  sh_remoteByPeer :: "64 word \<rightharpoonup> FlagCycle"

definition BlockForever :: int where "BlockForever = - 1"

text \<open>\<open>now\<close> is the wall clock in milliseconds.\<close>

definition newSendHandle :: "env \<Rightarrow> int \<Rightarrow> NetworkRuntime \<Rightarrow> world \<Rightarrow> sendHandle res \<times> world" where
  "newSendHandle env now rt w =
     (case openHandle env rt BlockForever w of
        (Inl e, w1) \<Rightarrow> (Inl e, w1)
      | (Inr h, w1) \<Rightarrow>
          (case attempt env (PcapSetDirection h True) w1 of
             (Some e, w2) \<Rightarrow> (Inl (Wrapf ''pcap direction out: %w'' [] e), close_handle h w2)
           | (None, w2) \<Rightarrow>
               (Inr \<lparr>sh_handle = h, sh_net = rt, sh_srcIP = ua_ip (nr_IPv4 rt),
                     sh_routerMAC = nr_RouterMAC rt, sh_srcPort = word_of_int (nr_Port rt),
                     sh_ipv6SrcIP = map_option ua_ip (nr_IPv6 rt),
                     sh_ipv6RouterMAC = (if nr_IPv6 rt = None then [] else nr_IPv6RouterMAC rt),
                     sh_baseTime = word_of_int now, sh_tsCounter = 0,
                     sh_localFlags = NewFlagCycle (nr_LocalFlags rt), sh_remoteByPeer = Map.empty\<rparr>,
                w2)))"

definition peer_key :: "udp_addr \<Rightarrow> 64 word" where
  "peer_key a = AddrKey (ua_ip a) (ua_port a)"

definition setRemoteFlags :: "sendHandle \<Rightarrow> net_addr \<Rightarrow> TCPFlagSet list \<Rightarrow> sendHandle" where
  "setRemoteFlags h addr flags =
     (case addr of
        UDPAddr ua \<Rightarrow>
          h\<lparr>sh_remoteByPeer := (sh_remoteByPeer h)(peer_key ua \<mapsto> NewFlagCycle flags)\<rparr>
      | OtherAddr \<Rightarrow> h)"

definition deleteRemoteFlags :: "sendHandle \<Rightarrow> net_addr \<Rightarrow> sendHandle" where
  "deleteRemoteFlags h addr =
     (case addr of
        UDPAddr ua \<Rightarrow> h\<lparr>sh_remoteByPeer := (sh_remoteByPeer h)(peer_key ua := None)\<rparr>
      | OtherAddr \<Rightarrow> h)"

definition flagsFor :: "sendHandle \<Rightarrow> udp_addr \<Rightarrow> (TCPFlagSet \<times> sendHandle) res" where
  "flagsFor h dst =
     (case sh_remoteByPeer h (peer_key dst) of
        Some c \<Rightarrow>
          (case Next c of Inl e \<Rightarrow> Inl e
           | Inr (f, c') \<Rightarrow> Inr (f, h\<lparr>sh_remoteByPeer := (sh_remoteByPeer h)(peer_key dst \<mapsto> c')\<rparr>))
      | None \<Rightarrow>
          (case Next (sh_localFlags h) of Inl e \<Rightarrow> Inl e
           | Inr (f, c') \<Rightarrow> Inr (f, h\<lparr>sh_localFlags := c'\<rparr>)))"

subsection \<open>Segments\<close>

datatype tcp_option_kind = OptNop | OptMSS | OptWindowScale | OptSACKPermitted | OptTimestamps

record tcp_option =
  to_kind :: tcp_option_kind
  to_length :: nat
  to_data :: "byte list"

record tcp_layer =
  tl_SrcPort :: "16 word"
  tl_DstPort :: "16 word"
  tl_flags :: TCPFlagSet
  tl_Window :: "16 word"
  tl_Options :: "tcp_option list"
  tl_Seq :: "32 word"
  tl_Ack :: "32 word"

definition put_uint32 :: "32 word \<Rightarrow> byte list" where
  "put_uint32 v = [ucast (drop_bit 24 v), ucast (drop_bit 16 v), ucast (drop_bit 8 v), ucast v]"

definition nop_option :: tcp_option where
  "nop_option = \<lparr>to_kind = OptNop, to_length = 0, to_data = []\<rparr>"

definition buildTCP :: "sendHandle \<Rightarrow> 16 word \<Rightarrow> TCPFlagSet \<Rightarrow> tcp_layer \<times> sendHandle" where
  "buildTCP h dstPort f =
     (let counter = sh_tsCounter h + 1;
          tsVal = sh_baseTime h + drop_bit 3 counter;
          tcp = (if SYN f then
                   let seq = 1 + (counter AND 0x7)
                   in \<lparr>tl_SrcPort = sh_srcPort h, tl_DstPort = dstPort, tl_flags = f, tl_Window = 65535,
                       tl_Options =
                         [\<lparr>to_kind = OptMSS, to_length = 4, to_data = [0x05, 0xb4]\<rparr>,
                          \<lparr>to_kind = OptSACKPermitted, to_length = 2, to_data = []\<rparr>,
                          \<lparr>to_kind = OptTimestamps, to_length = 10,
                           to_data = put_uint32 tsVal @ replicate 4 0\<rparr>,
                          nop_option,
                          \<lparr>to_kind = OptWindowScale, to_length = 3, to_data = [8]\<rparr>],
                       tl_Seq = seq, tl_Ack = (if ACK f then seq + 1 else 0)\<rparr>
                 else
                   let tsEcr = tsVal - (counter mod 200 + 50);
                       seq = sh_baseTime h + push_bit 7 counter
                   in \<lparr>tl_SrcPort = sh_srcPort h, tl_DstPort = dstPort, tl_flags = f, tl_Window = 65535,
                       tl_Options =
                         [nop_option, nop_option,
                          \<lparr>to_kind = OptTimestamps, to_length = 10,
                           to_data = put_uint32 tsVal @ put_uint32 tsEcr\<rparr>],
                       tl_Seq = seq, tl_Ack = seq - (counter AND 0x3ff) + 1400\<rparr>)
      in (tcp, h\<lparr>sh_tsCounter := counter\<rparr>))"

datatype ip_layer =
    IPv4Layer (ipv4_tos: nat) (ipv4_ttl: nat) (ipv4_dont_fragment: bool) (ipv4_src: ip) (ipv4_dst: ip)
  | IPv6Layer (ipv6_tclass: nat) (ipv6_hops: nat) (ipv6_src: ip) (ipv6_dst: ip)

record eth_layer =
  et_SrcMAC :: "byte list"
  et_DstMAC :: "byte list"

text \<open>gopacket's \<^verbatim>\<open>SerializeLayers\<close> with lengths and checksums filled in.\<close>

type_synonym serializer = "eth_layer \<Rightarrow> ip_layer \<Rightarrow> tcp_layer \<Rightarrow> byte list \<Rightarrow> byte list res"

definition transmit :: "env \<Rightarrow> sendHandle \<Rightarrow> byte list \<Rightarrow> world \<Rightarrow> error option \<times> world" where
  "transmit env h frame_bytes w =
     (case attempt env (PcapWritePacket (sh_handle h)) w of
        (Some e, w1) \<Rightarrow> (Some e, w1)
      | (None, w1) \<Rightarrow> (None, w1\<lparr>w_log := w_log w1 @ [(sh_handle h, frame_bytes)]\<rparr>))"

definition send_segment ::
  "serializer \<Rightarrow> env \<Rightarrow> sendHandle \<Rightarrow> eth_layer \<Rightarrow> ip_layer \<Rightarrow> udp_addr \<Rightarrow> TCPFlagSet \<Rightarrow> byte list \<Rightarrow> world
     \<Rightarrow> error option \<times> sendHandle \<times> world" where
  "send_segment ser env h eth ipl dst f payload w =
     (let (tcp, h') = buildTCP h (word_of_int (ua_port dst)) f
      in case ser eth ipl tcp payload of
           Inl e \<Rightarrow> (Some e, h', w)
         | Inr bytes \<Rightarrow> (case transmit env h' bytes w of (r, w') \<Rightarrow> (r, h', w')))"

definition writeIPv4 ::
  "serializer \<Rightarrow> env \<Rightarrow> sendHandle \<Rightarrow> byte list \<Rightarrow> udp_addr \<Rightarrow> world
     \<Rightarrow> error option \<times> sendHandle \<times> world" where
  "writeIPv4 ser env h payload dst w =
     (case flagsFor h dst of
        Inl e \<Rightarrow> (Some e, h, w)
      | Inr (f, h1) \<Rightarrow>
          send_segment ser env h1
            \<lparr>et_SrcMAC = if_HardwareAddr (nr_Interface (sh_net h1)), et_DstMAC = sh_routerMAC h1\<rparr>
            (IPv4Layer 184 64 True (sh_srcIP h1) (case to4 (ua_ip dst) of Some a \<Rightarrow> a | None \<Rightarrow> []))
            dst f payload w)"

definition writeIPv6 ::
  "serializer \<Rightarrow> env \<Rightarrow> sendHandle \<Rightarrow> byte list \<Rightarrow> udp_addr \<Rightarrow> world
     \<Rightarrow> error option \<times> sendHandle \<times> world" where
  "writeIPv6 ser env h payload dst w =
     (case sh_ipv6SrcIP h of
        None \<Rightarrow> (Some (Errorf ''ipv6 not configured'' []), h, w)
      | Some src \<Rightarrow>
          (case flagsFor h dst of
             Inl e \<Rightarrow> (Some e, h, w)
           | Inr (f, h1) \<Rightarrow>
               send_segment ser env h1
                 \<lparr>et_SrcMAC = if_HardwareAddr (nr_Interface (sh_net h1)), et_DstMAC = sh_ipv6RouterMAC h1\<rparr>
                 (IPv6Layer 184 64 src (ua_ip dst))
                 dst f payload w))"

definition send_write ::
  "serializer \<Rightarrow> env \<Rightarrow> sendHandle \<Rightarrow> byte list \<Rightarrow> udp_addr \<Rightarrow> world
     \<Rightarrow> error option \<times> sendHandle \<times> world" where
  "send_write ser env h payload dst w =
     (if to4 (ua_ip dst) = None then writeIPv6 ser env h payload dst w
      else writeIPv4 ser env h payload dst w)"

section \<open>Receiving (recv\_linux.go)\<close>

definition readTimeout :: int where "readTimeout = 100 * 1000000"

definition bpf_filter :: "NetworkRuntime \<Rightarrow> string" where
  "bpf_filter rt =
     (case nr_IPv6 rt of
        None \<Rightarrow> ''tcp and dst port '' @ itoa (nr_Port rt)
      | Some a \<Rightarrow>
          let p6 = (if ua_port a = 0 then nr_Port rt else ua_port a)
          in ''(tcp and dst port '' @ itoa (nr_Port rt) @ '') or (ip6 and tcp and dst port ''
             @ itoa p6 @ '')'')"

definition newRecvHandle :: "env \<Rightarrow> NetworkRuntime \<Rightarrow> world \<Rightarrow> handle res \<times> world" where
  "newRecvHandle env rt w =
     (case openHandle env rt readTimeout w of
        (Inl e, w1) \<Rightarrow> (Inl e, w1)
      | (Inr h, w1) \<Rightarrow>
          (case attempt env (PcapSetDirection h False) w1 of
             (Some e, w2) \<Rightarrow> (Inl (Wrapf ''pcap direction in: %w'' [] e), close_handle h w2)
           | (None, w2) \<Rightarrow>
               (case attempt env (PcapSetBPFFilter h (bpf_filter rt)) w2 of
                  (Some e, w3) \<Rightarrow> (Inl (Wrapf ''pcap bpf filter: %w'' [] e), close_handle h w3)
                | (None, w3) \<Rightarrow> (Inr h, w3))))"

text \<open>What gopacket decodes a frame into; \<open>None\<close> is a missing layer.\<close>

datatype network_layer = NetIPv4 ip | NetIPv6 ip | NetOther
datatype transport_layer = TransTCP "16 word" | TransOther

record packet =
  pk_network :: "network_layer option"
  pk_transport :: "transport_layer option"
  pk_application :: "byte list option"

text \<open>A frame that is not a TCP segment with a payload is skipped (a nil payload, no error).\<close>

definition recv_read ::
  "(byte list \<Rightarrow> packet) \<Rightarrow> byte list res \<Rightarrow> (byte list \<times> udp_addr) option res" where
  "recv_read decode data =
     (case data of
        Inl e \<Rightarrow> Inl e
      | Inr bs \<Rightarrow>
          let pkt = decode bs
          in (case pk_network pkt of
                Some (NetIPv4 src) \<Rightarrow>
                  (case pk_transport pkt of
                     Some (TransTCP p) \<Rightarrow>
                       Inr (map_option (\<lambda>b. (b, \<lparr>ua_ip = src, ua_port = uint p\<rparr>)) (pk_application pkt))
                   | _ \<Rightarrow> Inr None)
              | Some (NetIPv6 src) \<Rightarrow>
                  (case pk_transport pkt of
                     Some (TransTCP p) \<Rightarrow>
                       Inr (map_option (\<lambda>b. (b, \<lparr>ua_ip = src, ua_port = uint p\<rparr>)) (pk_application pkt))
                   | _ \<Rightarrow> Inr None)
              | _ \<Rightarrow> Inr None))"

section \<open>The packet connection (conn\_linux.go)\<close>

text \<open>A deadline is a point in time; \<open>None\<close> stands for the zero time (no deadline).\<close>

record Conn =
  cn_net :: NetworkRuntime
  cn_send :: sendHandle
  cn_recv :: handle
  cn_readDeadline :: "int option"
  cn_writeDeadline :: "int option"
  cn_cancelled :: bool

definition conn_handles :: "Conn \<Rightarrow> packet_conn" where
  "conn_handles c = [sh_handle (cn_send c), cn_recv c]"

definition pcap_Open :: "env \<Rightarrow> int \<Rightarrow> NetworkRuntime \<Rightarrow> world \<Rightarrow> Conn res \<times> world" where
  "pcap_Open env now rt w =
     (case newSendHandle env now rt w of
        (Inl e, w1) \<Rightarrow> (Inl e, w1)
      | (Inr s, w1) \<Rightarrow>
          (case newRecvHandle env rt w1 of
             (Inl e, w2) \<Rightarrow> (Inl e, close_handle (sh_handle s) w2)
           | (Inr r, w2) \<Rightarrow>
               (Inr \<lparr>cn_net = rt, cn_send = s, cn_recv = r, cn_readDeadline = None,
                     cn_writeDeadline = None, cn_cancelled = False\<rparr>, w2)))"

definition conn_Close :: "Conn \<Rightarrow> world \<Rightarrow> Conn \<times> world" where
  "conn_Close c w = (c\<lparr>cn_cancelled := True\<rparr>, close_conn (conn_handles c) w)"

fun err_is :: "error \<Rightarrow> error \<Rightarrow> bool" where
  "err_is target (Wrapf f xs e) = (Wrapf f xs e = target \<or> err_is target e)"
| "err_is target e = (e = target)"

definition NextErrorTimeoutExpired :: error where "NextErrorTimeoutExpired = Ext ''Timeout Expired''"
definition ErrDeadlineExceeded :: error where "ErrDeadlineExceeded = Ext ''i/o timeout''"

definition context_Canceled :: error where "context_Canceled = Ext ''context canceled''"

definition expired :: "int option \<Rightarrow> int \<Rightarrow> bool" where
  "expired d now = (case d of None \<Rightarrow> False | Some t \<Rightarrow> t \<le> now)"

text \<open>
  One round of the polling loop of \<^verbatim>\<open>ReadFrom\<close>: whether the context is done by then (the
  connection was closed, or its parent context ended), the time, and what the capture handle
  returns. Where the context is done and the deadline has passed, Go's \<^verbatim>\<open>select\<close> may report
  either; a round reports the context first. The loop runs over the rounds; \<open>None\<close> means it is
  still polling after the last of them.
\<close>

record poll =
  po_done :: bool
  po_now :: int
  po_data :: "byte list res"

fun read_polls ::
  "(byte list \<Rightarrow> packet) \<Rightarrow> int option \<Rightarrow> nat \<Rightarrow> poll list \<Rightarrow> (byte list \<times> net_addr) res option" where
  "read_polls decode deadline cap [] = None"
| "read_polls decode deadline cap (p # ps) =
     (if po_done p then Some (Inl context_Canceled)
      else if expired deadline (po_now p) then Some (Inl ErrDeadlineExceeded)
      else (case recv_read decode (po_data p) of
              Inl e \<Rightarrow>
                if err_is NextErrorTimeoutExpired e then read_polls decode deadline cap ps
                else if err_is io_EOF e then read_polls decode deadline cap ps
                else Some (Inl e)
            | Inr None \<Rightarrow> read_polls decode deadline cap ps
            | Inr (Some (payload, addr)) \<Rightarrow> Some (Inr (take cap payload, UDPAddr addr))))"

definition ReadFrom ::
  "(byte list \<Rightarrow> packet) \<Rightarrow> Conn \<Rightarrow> nat \<Rightarrow> poll list \<Rightarrow> (byte list \<times> net_addr) res option" where
  "ReadFrom decode c cap ps =
     read_polls decode (cn_readDeadline c) cap (map (\<lambda>p. p\<lparr>po_done := po_done p \<or> cn_cancelled c\<rparr>) ps)"

definition WriteTo ::
  "serializer \<Rightarrow> env \<Rightarrow> Conn \<Rightarrow> int \<Rightarrow> byte list \<Rightarrow> net_addr \<Rightarrow> world \<Rightarrow> nat res \<times> Conn \<times> world" where
  "WriteTo ser env c now buf addr w =
     (if cn_cancelled c then (Inl context_Canceled, c, w)
      else if expired (cn_writeDeadline c) now then (Inl ErrDeadlineExceeded, c, w)
      else (case addr of
              OtherAddr \<Rightarrow> (Inl (Ext ''expected UDPAddr''), c, w)
            | UDPAddr ua \<Rightarrow>
                (case send_write ser env (cn_send c) buf ua w of
                   (Some e, s, w1) \<Rightarrow> (Inl e, c\<lparr>cn_send := s\<rparr>, w1)
                 | (None, s, w1) \<Rightarrow> (Inr (length buf), c\<lparr>cn_send := s\<rparr>, w1))))"

definition SetDeadline :: "Conn \<Rightarrow> int option \<Rightarrow> Conn" where
  "SetDeadline c t = c\<lparr>cn_readDeadline := t, cn_writeDeadline := t\<rparr>"

definition SetReadDeadline :: "Conn \<Rightarrow> int option \<Rightarrow> Conn" where
  "SetReadDeadline c t = c\<lparr>cn_readDeadline := t\<rparr>"

definition SetWriteDeadline :: "Conn \<Rightarrow> int option \<Rightarrow> Conn" where
  "SetWriteDeadline c t = c\<lparr>cn_writeDeadline := t\<rparr>"

definition SetRemoteTCPFlags :: "Conn \<Rightarrow> net_addr \<Rightarrow> TCPFlagSet list \<Rightarrow> Conn" where
  "SetRemoteTCPFlags c addr flags = c\<lparr>cn_send := setRemoteFlags (cn_send c) addr flags\<rparr>"

definition ClearRemoteTCPFlags :: "Conn \<Rightarrow> net_addr \<Rightarrow> Conn" where
  "ClearRemoteTCPFlags c addr = c\<lparr>cn_send := deleteRemoteFlags (cn_send c) addr\<rparr>"

definition Probe :: "env \<Rightarrow> int \<Rightarrow> NetworkRuntime \<Rightarrow> world \<Rightarrow> error option \<times> world" where
  "Probe env now rt w =
     (case pcap_Open env now rt w of
        (Inl e, w1) \<Rightarrow> (Some e, w1)
      | (Inr c, w1) \<Rightarrow> (None, snd (conn_Close c w1)))"

section \<open>Handles acquired and released\<close>

lemma attempt_unchanged: "world_ok w \<Longrightarrow> attempt env c w = (r, w') \<Longrightarrow> unchanged w w'"
  by (auto simp: attempt_def unchanged_def)

lemma setup_steps_unchanged:
  "world_ok w \<Longrightarrow> setup_steps env h steps w = (r, w') \<Longrightarrow> unchanged w w'"
proof (induction steps arbitrary: w)
  case Nil
  then show ?case by (simp add: unchanged_def)
next
  case (Cons s steps)
  obtain n a f where s: "s = (n, a, f)" by (cases s)
  obtain r1 w1 where t: "attempt env (PcapSetup h n a) w = (r1, w1)" by fastforce
  have u: "unchanged w w1" by (rule attempt_unchanged [OF Cons.prems(1) t])
  show ?case
  proof (cases r1)
    case None
    with Cons.prems(2) s t have "setup_steps env h steps w1 = (r, w')" by simp
    from Cons.IH [OF unchanged_ok [OF u] this] show ?thesis by (rule unchanged_trans [OF u])
  next
    case (Some e)
    with Cons.prems(2) s t u show ?thesis by simp
  qed
qed

lemma openHandle_spec:
  assumes w: "world_ok w" and o: "openHandle env rt tmo w = (r, w')"
  shows "case r of Inl e \<Rightarrow> unchanged w w' | Inr h \<Rightarrow> grows w {h} w'"
proof -
  obtain r1 w1 where a: "acquire env (PcapNewInactive (if_Name (nr_Interface rt))) None w = (r1, w1)"
    by fastforce
  show ?thesis
  proof (cases r1)
    case (Inl e1)
    with a o acquire_unchanged [OF w, of env "PcapNewInactive (if_Name (nr_Interface rt))"]
    show ?thesis by (auto simp: openHandle_def)
  next
    case i: (Inr i)
    have g1: "grows w {i} w1" by (rule grows_acquire [OF w a [unfolded i]]) simp
    obtain steps where o1: "openHandle env rt tmo w =
        (case setup_steps env i steps w1 of
           (Some e, w2) \<Rightarrow> (Inl e, close_handle i w2)
         | (None, w2) \<Rightarrow>
             (case acquire env (PcapActivate i) None w2 of
                (Inl e, w3) \<Rightarrow> (Inl (Wrapf ''pcap activate on %s: %w'' [if_Name (nr_Interface rt)] e),
                                close_handle i w3)
              | (Inr h, w3) \<Rightarrow> (Inr h, close_handle i w3)))"
      using a i by (simp add: openHandle_def del: setup_steps.simps)
    obtain r2 w2 where s: "setup_steps env i steps w1 = (r2, w2)" by fastforce
    have g2: "grows w {i} w2"
      by (rule grows_unchanged [OF g1 setup_steps_unchanged [OF grows_ok [OF g1] s]])
    have drop: "grows w {i} w3 \<Longrightarrow> unchanged w (close_handle i w3)" for w3
      by (rule grows_close_unchanged [OF w]) (simp_all add: close_handle_open grows_ok)
    show ?thesis
    proof (cases r2)
      case (Some e2)
      with o o1 s drop [OF g2] show ?thesis by auto
    next
      case None
      obtain r3 w3 where b: "acquire env (PcapActivate i) None w2 = (r3, w3)" by fastforce
      show ?thesis
      proof (cases r3)
        case (Inl e3)
        have "grows w {i} w3"
          by (rule grows_unchanged [OF g2 acquire_unchanged [OF grows_ok [OF g2] b [unfolded Inl]]])
        with o o1 s None b Inl drop show ?thesis by auto
      next
        case (Inr h)
        have g3: "grows w ({i} \<union> {h}) w3"
          by (rule grows_trans [OF g2 grows_acquire [OF grows_ok [OF g2] b [unfolded Inr]]]) simp
        have "grows w {h} (close_handle i w3)"
          by (rule grows_drop [OF w, of "{h}" "{i}" w3])
            (use g3 in \<open>simp_all add: close_handle_open grows_ok insert_commute\<close>)
        with o o1 s None b Inr show ?thesis by auto
      qed
    qed
  qed
qed

lemma newSendHandle_spec:
  assumes w: "world_ok w" and o: "newSendHandle env now rt w = (r, w')"
  shows "case r of Inl e \<Rightarrow> unchanged w w' | Inr s \<Rightarrow> grows w {sh_handle s} w'"
proof -
  obtain r1 w1 where h: "openHandle env rt BlockForever w = (r1, w1)" by fastforce
  note sp = openHandle_spec [OF w h]
  show ?thesis
  proof (cases r1)
    case (Inl e1)
    with h o sp show ?thesis by (auto simp: newSendHandle_def)
  next
    case (Inr x)
    with sp have g: "grows w {x} w1" by simp
    obtain r2 w2 where t: "attempt env (PcapSetDirection x True) w1 = (r2, w2)" by fastforce
    have g2: "grows w {x} w2"
      by (rule grows_unchanged [OF g attempt_unchanged [OF grows_ok [OF g] t]])
    have "unchanged w (close_handle x w2)"
      by (rule grows_close_unchanged [OF w g2]) (simp_all add: close_handle_open grows_ok [OF g2])
    with o h Inr t g2 show ?thesis by (auto simp: newSendHandle_def split: option.splits)
  qed
qed

lemma newRecvHandle_spec:
  assumes w: "world_ok w" and o: "newRecvHandle env rt w = (r, w')"
  shows "case r of Inl e \<Rightarrow> unchanged w w' | Inr h \<Rightarrow> grows w {h} w'"
proof -
  obtain r1 w1 where h: "openHandle env rt readTimeout w = (r1, w1)" by fastforce
  note sp = openHandle_spec [OF w h]
  show ?thesis
  proof (cases r1)
    case (Inl e1)
    with h o sp show ?thesis by (auto simp: newRecvHandle_def)
  next
    case (Inr x)
    with sp have g: "grows w {x} w1" by simp
    obtain r2 w2 where t: "attempt env (PcapSetDirection x False) w1 = (r2, w2)" by fastforce
    have g2: "grows w {x} w2"
      by (rule grows_unchanged [OF g attempt_unchanged [OF grows_ok [OF g] t]])
    obtain r3 w3 where b: "attempt env (PcapSetBPFFilter x (bpf_filter rt)) w2 = (r3, w3)" by fastforce
    have g3: "grows w {x} w3"
      by (rule grows_unchanged [OF g2 attempt_unchanged [OF grows_ok [OF g2] b]])
    have "grows w {x} v \<Longrightarrow> unchanged w (close_handle x v)" for v
      by (rule grows_close_unchanged [OF w]) (simp_all add: close_handle_open grows_ok)
    with o h Inr t b g2 g3 show ?thesis by (auto simp: newRecvHandle_def split: option.splits)
  qed
qed

lemma pcap_Open_spec:
  assumes w: "world_ok w" and o: "pcap_Open env now rt w = (r, w')"
  shows "case r of Inl e \<Rightarrow> unchanged w w' | Inr c \<Rightarrow> grows w (set (conn_handles c)) w'"
proof -
  obtain r1 w1 where s: "newSendHandle env now rt w = (r1, w1)" by fastforce
  note sp = newSendHandle_spec [OF w s]
  show ?thesis
  proof (cases r1)
    case (Inl e1)
    with s o sp show ?thesis by (auto simp: pcap_Open_def)
  next
    case (Inr x)
    with sp have g: "grows w {sh_handle x} w1" by simp
    obtain r2 w2 where t: "newRecvHandle env rt w1 = (r2, w2)" by fastforce
    note rp = newRecvHandle_spec [OF grows_ok [OF g] t]
    show ?thesis
    proof (cases r2)
      case e2: (Inl e2)
      with rp have g2: "grows w {sh_handle x} w2" by (simp add: grows_unchanged [OF g])
      have "unchanged w (close_handle (sh_handle x) w2)"
        by (rule grows_close_unchanged [OF w g2]) (simp_all add: close_handle_open grows_ok [OF g2])
      with o s Inr t e2 show ?thesis by (auto simp: pcap_Open_def)
    next
      case h: (Inr h)
      with rp have "grows w ({sh_handle x} \<union> {h}) w2" by (intro grows_trans [OF g]) simp
      with o s Inr t h show ?thesis
        by (auto simp: pcap_Open_def conn_handles_def insert_commute)
    qed
  qed
qed

interpretation pcap_conn: dialer "\<lambda>(now, rt). pcap_Open env now rt" "\<lambda>c w. snd (conn_Close c w)"
    "\<lambda>c. set (conn_handles c)"
  for env
  by unfold_locales
    (auto simp: conn_Close_def close_conn_open unchanged_def dest!: pcap_Open_spec)

section \<open>Flag cycles of a send handle\<close>

definition send_ok :: "sendHandle \<Rightarrow> bool" where
  "send_ok h \<longleftrightarrow> cycle_ok (sh_localFlags h) \<and> (\<forall>k c. sh_remoteByPeer h k = Some c \<longrightarrow> cycle_ok c)"

lemma newSendHandle_send_ok [go_inv]: "newSendHandle env now rt w = (Inr h, w') \<Longrightarrow> send_ok h"
  by (auto simp: newSendHandle_def send_ok_def split: prod.splits sum.splits option.splits)

lemma setRemoteFlags_send_ok [go_inv]: "send_ok h \<Longrightarrow> send_ok (setRemoteFlags h a fs)"
  by (auto simp: setRemoteFlags_def send_ok_def split: net_addr.splits)

lemma deleteRemoteFlags_send_ok [go_inv]: "send_ok h \<Longrightarrow> send_ok (deleteRemoteFlags h a)"
  by (auto simp: deleteRemoteFlags_def send_ok_def split: net_addr.splits)

lemma flagsFor_ok:
  assumes "send_ok h"
  obtains f h' where "flagsFor h dst = Inr (f, h')" and "send_ok h'"
proof (cases "sh_remoteByPeer h (peer_key dst)")
  case None
  with assms that show thesis
    by (auto simp: flagsFor_def send_ok_def Next_ok cycle_ok_def)
next
  case (Some c)
  with assms that show thesis
    by (auto simp: flagsFor_def send_ok_def Next_ok cycle_ok_def)
qed

lemma buildTCP_send_ok: "send_ok h \<Longrightarrow> send_ok (snd (buildTCP h p f))"
  by (simp add: buildTCP_def Let_def send_ok_def)

lemma send_segment_send_ok:
  "send_ok h \<Longrightarrow> send_segment ser env h eth ipl dst f p w = (r, h', w') \<Longrightarrow> send_ok h'"
  using buildTCP_send_ok [of h "word_of_int (ua_port dst)" f]
  by (auto simp: send_segment_def Let_def split: prod.splits sum.splits)

lemma send_write_send_ok [go_inv]:
  assumes "send_ok h" and "send_write ser env h p dst w = (r, h', w')"
  shows "send_ok h'"
proof -
  obtain f h1 where "flagsFor h dst = Inr (f, h1)" "send_ok h1" using assms(1) by (rule flagsFor_ok)
  with assms show ?thesis
    by (auto simp: send_write_def writeIPv4_def writeIPv6_def dest: send_segment_send_ok
        split: if_splits option.splits)
qed

fun flags_n :: "nat \<Rightarrow> sendHandle \<Rightarrow> udp_addr \<Rightarrow> (TCPFlagSet list \<times> sendHandle) res" where
  "flags_n 0 h dst = Inr ([], h)"
| "flags_n (Suc n) h dst =
     (case flagsFor h dst of Inl e \<Rightarrow> Inl e
      | Inr (f, h1) \<Rightarrow>
          (case flags_n n h1 dst of Inl e \<Rightarrow> Inl e | Inr (fs, h2) \<Rightarrow> Inr (f # fs, h2)))"

text \<open>Drawing flags for a peer that has its own cycle is drawing from that cycle.\<close>

lemma flags_n_peer:
  "sh_remoteByPeer h (peer_key dst) = Some c \<Longrightarrow>
     flags_n n h dst =
       (case next_n n c of Inl e \<Rightarrow> Inl e
        | Inr (fs, c') \<Rightarrow> Inr (fs, h\<lparr>sh_remoteByPeer := (sh_remoteByPeer h)(peer_key dst \<mapsto> c')\<rparr>))"
proof (induction n arbitrary: h c)
  case 0
  then have "(sh_remoteByPeer h)(peer_key dst \<mapsto> c) = sh_remoteByPeer h" by auto
  then show ?case by simp
next
  case (Suc n)
  show ?case
  proof (cases "Next c")
    case (Inl e)
    with Suc.prems show ?thesis by (simp add: flagsFor_def)
  next
    case (Inr p)
    obtain f c' where p: "p = (f, c')" by (cases p)
    let ?h = "h\<lparr>sh_remoteByPeer := (sh_remoteByPeer h)(peer_key dst \<mapsto> c')\<rparr>"
    have "sh_remoteByPeer ?h (peer_key dst) = Some c'" by simp
    from Suc.IH [OF this] have "flags_n n ?h dst = (case next_n n c' of Inl e \<Rightarrow> Inl e
        | Inr (fs, d) \<Rightarrow> Inr (fs, h\<lparr>sh_remoteByPeer := (sh_remoteByPeer h)(peer_key dst \<mapsto> d)\<rparr>))"
      by (cases "next_n n c'") auto
    with Suc.prems Inr p show ?thesis
      by (cases "next_n n c'") (auto simp: flagsFor_def)
  qed
qed

text \<open>The bytes a TCP option takes on the wire: a no-op is a single byte.\<close>

definition option_bytes :: "tcp_option \<Rightarrow> nat" where
  "option_bytes x = (if to_kind x = OptNop then 1 else to_length x)"

definition option_fits :: "tcp_option \<Rightarrow> bool" where
  "option_fits x \<longleftrightarrow> to_kind x = OptNop \<or> to_length x = length (to_data x) + 2"

text \<open>Rounds in which \<^verbatim>\<open>ReadFrom\<close> keeps polling.\<close>

definition idle_round :: "(byte list \<Rightarrow> packet) \<Rightarrow> int option \<Rightarrow> poll \<Rightarrow> bool" where
  "idle_round decode d p \<longleftrightarrow> \<not> po_done p \<and> \<not> expired d (po_now p)
     \<and> (case recv_read decode (po_data p) of
          Inl e \<Rightarrow> err_is NextErrorTimeoutExpired e \<or> err_is io_EOF e
        | Inr x \<Rightarrow> x = None)"

lemma read_polls_idle: "list_all (idle_round decode d) ps \<Longrightarrow> read_polls decode d cap (ps @ qs) = read_polls decode d cap qs"
  by (induction ps) (auto simp: idle_round_def split: sum.splits)

lemma read_polls_first:
  "read_polls decode d cap ps = Some r \<Longrightarrow>
     \<exists>xs p ys. ps = xs @ p # ys \<and> list_all (idle_round decode d) xs
       \<and> \<not> idle_round decode d p \<and> read_polls decode d cap [p] = Some r"
proof (induction ps)
  case Nil
  then show ?case by simp
next
  case (Cons p ps)
  show ?case
  proof (cases "idle_round decode d p")
    case True
    then have "read_polls decode d cap (p # ps) = read_polls decode d cap ps"
      using read_polls_idle [of decode d "[p]"] by simp
    with Cons obtain xs q ys where "ps = xs @ q # ys" "list_all (idle_round decode d) xs"
      "\<not> idle_round decode d q" "read_polls decode d cap [q] = Some r" by auto
    with True have "p # ps = (p # xs) @ q # ys \<and> list_all (idle_round decode d) (p # xs)
       \<and> \<not> idle_round decode d q \<and> read_polls decode d cap [q] = Some r" by simp
    then show ?thesis by blast
  next
    case False
    with Cons.prems have "read_polls decode d cap [p] = Some r"
      by (auto simp: idle_round_def split: if_splits sum.splits option.splits)
    with False show ?thesis by (intro exI [of _ "[]"]) auto
  qed
qed

definition sample_runtime :: NetworkRuntime where
  "sample_runtime = \<lparr>nr_Interface = \<lparr>if_Name = ''eth0'', if_HardwareAddr = [2, 0, 0, 0, 0, 1]\<rparr>,
     nr_IPv4 = \<lparr>ua_ip = [10, 0, 0, 9], ua_port = 40000\<rparr>, nr_RouterMAC = [2, 0, 0, 0, 0, 2],
     nr_IPv6 = None, nr_IPv6RouterMAC = [], nr_Port = 40000, nr_LocalFlags = [], nr_RemoteFlags = [],
     nr_Sockbuf = 4194304\<rparr>"

definition sample_send :: sendHandle where
  "sample_send = \<lparr>sh_handle = 0, sh_net = sample_runtime, sh_srcIP = [10, 0, 0, 9],
     sh_routerMAC = [2, 0, 0, 0, 0, 2], sh_srcPort = 40000, sh_ipv6SrcIP = None, sh_ipv6RouterMAC = [],
     sh_baseTime = 1000, sh_tsCounter = 0, sh_localFlags = NewFlagCycle [], sh_remoteByPeer = Map.empty\<rparr>"

definition sample_conn :: Conn where
  "sample_conn = \<lparr>cn_net = sample_runtime, cn_send = sample_send, cn_recv = 1, cn_readDeadline = None,
     cn_writeDeadline = None, cn_cancelled = False\<rparr>"

section \<open>Properties\<close>

text \<open>Per-peer flags: once a peer has announced its flag sets, the segments sent to it carry
  them in cyclic order, starting with the first; peers with another key keep their own sequence;
  and forgetting the peer returns it to the local cycle.\<close>

lemma peer_flag_cycle:
  assumes "fs \<noteq> []" and "n \<le> 2 ^ 32"
  shows "(\<exists>h'. flags_n n (setRemoteFlags h (UDPAddr a) fs) a
            = Inr (map (\<lambda>k. fs ! (k mod length fs)) [0..<n], h'))
     \<and> (peer_key b \<noteq> peer_key a \<longrightarrow>
          map_sum id fst (flagsFor (setRemoteFlags h (UDPAddr a) fs) b) = map_sum id fst (flagsFor h b))
     \<and> flagsFor (deleteRemoteFlags h (UDPAddr a)) a
         = (case Next (sh_localFlags h) of Inl e \<Rightarrow> Inl e
            | Inr (f, c) \<Rightarrow> Inr (f, (deleteRemoteFlags h (UDPAddr a))\<lparr>sh_localFlags := c\<rparr>))"
proof (intro conjI impI)
  have "sh_remoteByPeer (setRemoteFlags h (UDPAddr a) fs) (peer_key a) = Some (NewFlagCycle fs)"
    by (simp add: setRemoteFlags_def)
  from flags_n_peer [OF this, of n] next_n_cycle [OF NewFlagCycle_ok, of fs n] assms
  show "\<exists>h'. flags_n n (setRemoteFlags h (UDPAddr a) fs) a
      = Inr (map (\<lambda>k. fs ! (k mod length fs)) [0..<n], h')"
    by (simp add: NewFlagCycle_def)
next
  assume "peer_key b \<noteq> peer_key a"
  then show "map_sum id fst (flagsFor (setRemoteFlags h (UDPAddr a) fs) b) = map_sum id fst (flagsFor h b)"
    by (auto simp: flagsFor_def setRemoteFlags_def split: option.splits sum.splits prod.splits)
next
  show "flagsFor (deleteRemoteFlags h (UDPAddr a)) a
      = (case Next (sh_localFlags h) of Inl e \<Rightarrow> Inl e
         | Inr (f, c) \<Rightarrow> Inr (f, (deleteRemoteFlags h (UDPAddr a))\<lparr>sh_localFlags := c\<rparr>))"
    by (simp add: flagsFor_def deleteRemoteFlags_def split: sum.splits prod.splits)
qed

text \<open>A send handle never runs out of flags: a fresh handle has non-empty cycles only, every
  operation keeps it so, and drawing flags for any peer then succeeds (no division by zero).\<close>

lemma send_handle_invariant:
  "(\<forall>env now rt w h w'. newSendHandle env now rt w = (Inr h, w') \<longrightarrow> send_ok h)
   \<and> (\<forall>h a fs. send_ok h \<longrightarrow> send_ok (setRemoteFlags h a fs) \<and> send_ok (deleteRemoteFlags h a))
   \<and> (\<forall>ser env h p dst w r h' w'. send_ok h \<longrightarrow> send_write ser env h p dst w = (r, h', w') \<longrightarrow> send_ok h')
   \<and> (\<forall>h dst. send_ok h \<longrightarrow> \<not> is_err (flagsFor h dst))"
proof (intro conjI allI impI)
  show "send_ok h \<Longrightarrow> \<not> is_err (flagsFor h dst)" for h dst
    by (rule flagsFor_ok [of h dst]) auto
qed (auto intro: go_inv)


text \<open>Reading skips exactly the idle rounds (time-outs, spurious EOFs, frames that are no TCP
  segment with payload): what it returns is decided by the first round that is not idle, payloads
  never exceed the caller's buffer, and once the connection is closed the next round ends the
  read with the context's error.\<close>

lemma read_from_first_event:
  "(\<forall>r. read_polls decode d cap ps = Some r \<longrightarrow>
      (\<exists>xs p ys. ps = xs @ p # ys \<and> list_all (idle_round decode d) xs \<and> \<not> idle_round decode d p
         \<and> read_polls decode d cap [p] = Some r))
   \<and> (\<forall>b a. ReadFrom decode c cap ps = Some (Inr (b, a)) \<longrightarrow> length b \<le> cap)
   \<and> (ps \<noteq> [] \<longrightarrow> ReadFrom decode (fst (conn_Close c w)) cap ps = Some (Inl context_Canceled))"
proof (intro conjI allI impI)
  show "read_polls decode d cap ps = Some r \<Longrightarrow>
      \<exists>xs p ys. ps = xs @ p # ys \<and> list_all (idle_round decode d) xs \<and> \<not> idle_round decode d p
         \<and> read_polls decode d cap [p] = Some r" for r
    by (rule read_polls_first)
  show "ReadFrom decode c cap ps = Some (Inr (b, a)) \<Longrightarrow> length b \<le> cap" for b a
    unfolding ReadFrom_def
    by (drule read_polls_first) (auto split: if_splits sum.splits option.splits)
  show "ps \<noteq> [] \<Longrightarrow> ReadFrom decode (fst (conn_Close c w)) cap ps = Some (Inl context_Canceled)"
    by (cases ps) (simp_all add: ReadFrom_def conn_Close_def)
qed

text \<open>Opening packet connections leaks nothing: a failed open leaves the open objects as they
  were, closing a connection releases exactly its two handles, and probing an interface leaves
  the open objects unchanged whatever happens.\<close>

lemma pcap_no_leak:
  assumes "world_ok w"
  shows "(case pcap_Open env now rt w of
            (Inl e, w') \<Rightarrow> w_open w' = w_open w
          | (Inr c, w') \<Rightarrow> w_open (snd (conn_Close c w')) = w_open w)
     \<and> w_open (snd (Probe env now rt w)) = w_open w"
proof -
  have o: "case pcap_Open env now rt w of
            (Inl e, w') \<Rightarrow> w_open w' = w_open w
          | (Inr c, w') \<Rightarrow> w_open (snd (conn_Close c w')) = w_open w"
    using pcap_conn.dial_fail [OF assms, of env "(now, rt)"]
      pcap_conn.dial_release [OF assms, of env "(now, rt)"]
    by (auto split: prod.splits sum.splits)
  then show ?thesis by (auto simp: Probe_def split: prod.splits sum.splits)
qed

lemma Probe_unchanged: "world_ok w \<Longrightarrow> Probe env t n w = (e, w') \<Longrightarrow> unchanged w w'"
proof -
  assume w: "world_ok w" and p: "Probe env t n w = (e, w')"
  obtain r w1 where o: "pcap_Open env t n w = (r, w1)" by fastforce
  show ?thesis
  proof (cases r)
    case (Inl x)
    with o p pcap_conn.dial_fail [OF w, of env "(t, n)"] show ?thesis by (auto simp: Probe_def unchanged_def)
  next
    case (Inr c)
    have g: "grows w (set (conn_handles c)) w1" using pcap_conn.dial_ok [OF w, of env "(t, n)"] o Inr by simp
    have "unchanged w (snd (conn_Close c w1))"
      by (rule grows_close_unchanged [OF w g pcap_conn.release_open pcap_conn.release_next pcap_conn.release_ok [OF grows_ok [OF g]]])
    with o p Inr show ?thesis by (auto simp: Probe_def)
  qed
qed

end
