(* ===== verification/Tunnelpool.thy ===== *)
theory Tunnelpool
  imports Transport Pcap "HOL-Library.AList"
begin

unbundle bit_operations_syntax

text \<open>
  \<^verbatim>\<open>internal/tunnelpool\<close>: a pool of transport sessions to one upstream. \<^verbatim>\<open>dial.go\<close> builds it,
  \<^verbatim>\<open>pool.go\<close> opens streams and datagram flows over it, round-robin and around dead sessions.

  A session is alive when its smux session is open in the world. The callback a caller registers
  for inbound datagrams is a number; the send closure of a datagram flow is the pair of session
  and flow identifier it captures. Maps that are iterated over are association lists; a map set
  to nil is \<open>None\<close>.
\<close>

section \<open>Data\<close>

record Pool =
  p_sessions :: "Session list"
  p_idx :: "32 word"
  p_udp :: "64 word \<rightharpoonup> handle"
  p_dgIdx :: "32 word"
  p_dgByKey :: "string \<rightharpoonup> Session \<times> 64 word"
  p_dgCtrl :: "(string \<times> handle) list option"
  p_dgDeliver :: "Session \<rightharpoonup> (64 word \<rightharpoonup> nat)"
  p_dgRecv :: "Session \<Rightarrow> bool"

definition empty_pool :: Pool where
  "empty_pool = \<lparr>p_sessions = [], p_idx = 0, p_udp = Map.empty, p_dgIdx = 0, p_dgByKey = Map.empty,
     p_dgCtrl = Some [], p_dgDeliver = Map.empty, p_dgRecv = (\<lambda>_. False)\<rparr>"

definition Count :: "Pool \<Rightarrow> nat" where
  "Count p = length (p_sessions p)"

definition smux_alive :: "Session \<Rightarrow> world \<Rightarrow> bool" where
  "smux_alive s w = (case ss_Smux s of None \<Rightarrow> False | Some sm \<Rightarrow> is_open sm w)"

definition Alive :: "Pool \<Rightarrow> world \<Rightarrow> bool" where
  "Alive p w = list_ex (\<lambda>s. smux_alive s w) (p_sessions p)"

definition SupportsDatagrams :: "Pool \<Rightarrow> world \<Rightarrow> bool" where
  "SupportsDatagrams p w = list_ex (\<lambda>s. DatagramsOK s \<and> smux_alive s w) (p_sessions p)"

section \<open>Streams\<close>

text \<open>The loop of \<^verbatim>\<open>openStream\<close> over the offsets from the starting session.\<close>

fun open_loop ::
  "env \<Rightarrow> Session list \<Rightarrow> nat \<Rightarrow> nat list \<Rightarrow> error option \<Rightarrow> world \<Rightarrow> handle res \<times> world" where
  "open_loop env ss start [] lastErr w =
     (Inl (case lastErr of Some e \<Rightarrow> e | None \<Rightarrow> Errorf ''no live tunnel sessions'' []), w)"
| "open_loop env ss start (off # offs) lastErr w =
     (case ss_Smux (ss ! ((start + off) mod length ss)) of
        None \<Rightarrow> open_loop env ss start offs lastErr w
      | Some sm \<Rightarrow>
          if \<not> is_open sm w then open_loop env ss start offs lastErr w
          else (case acquire env (SmuxOpenStream sm) (Some sm) w of
                  (Inl e, w1) \<Rightarrow> open_loop env ss start offs (Some e) w1
                | (Inr h, w1) \<Rightarrow> (Inr h, w1)))"

definition openStream :: "env \<Rightarrow> Pool \<Rightarrow> world \<Rightarrow> handle res \<times> Pool \<times> world" where
  "openStream env p w =
     (let n = length (p_sessions p)
      in if n = 0 then (Inl (Errorf ''no tunnel sessions'' []), p, w)
         else let start = unat ((p_idx p + 1) - 1);
                  (r, w1) = open_loop env (p_sessions p) start [0..<n] None w
              in (r, p\<lparr>p_idx := p_idx p + 1\<rparr>, w1))"

definition addr_message :: "byte \<Rightarrow> Addr \<Rightarrow> Message" where
  "addr_message t a = \<lparr>Type = t, MAddr = Some a, MTCPF = []\<rparr>"

definition OpenTCP :: "env \<Rightarrow> Pool \<Rightarrow> string \<Rightarrow> world \<Rightarrow> handle res \<times> Pool \<times> world" where
  "OpenTCP env p target w =
     (case Parse target of
        Inl e \<Rightarrow> (Inl e, p, w)
      | Inr addr \<Rightarrow>
          (case openStream env p w of
             (Inl e, p1, w1) \<Rightarrow> (Inl e, p1, w1)
           | (Inr strm, p1, w1) \<Rightarrow>
               (case msg_Write (e_enc env) (stream_write env strm) w1 (addr_message TCP addr) of
                  (Some e, w2) \<Rightarrow> (Inl e, p1, close_handle strm w2)
                | (None, w2) \<Rightarrow> (Inr strm, p1, w2))))"

text \<open>FNV-style key of the local address and the target, with 64-bit wrap-around.\<close>

definition pair_step :: "64 word \<Rightarrow> char \<Rightarrow> 64 word" where
  "pair_step h c = (h XOR ucast (char_byte c)) * 16777619"

definition addrPairKey :: "string \<Rightarrow> string \<Rightarrow> 64 word" where
  "addrPairKey a b = foldl (foldl pair_step) 2166136261 [a, b]"

text \<open>The result is the stream, whether it is new, and its key.\<close>

definition OpenUDP ::
  "env \<Rightarrow> Pool \<Rightarrow> string \<Rightarrow> string \<Rightarrow> world \<Rightarrow> (handle \<times> bool \<times> 64 word) res \<times> Pool \<times> world" where
  "OpenUDP env p localAddr target w =
     (let key = addrPairKey localAddr target
      in case p_udp p key of
           Some strm \<Rightarrow> (Inr (strm, False, key), p, w)
         | None \<Rightarrow>
             (case Parse target of
                Inl e \<Rightarrow> (Inl e, p, w)
              | Inr addr \<Rightarrow>
                  (case openStream env p w of
                     (Inl e, p1, w1) \<Rightarrow> (Inl e, p1, w1)
                   | (Inr strm, p1, w1) \<Rightarrow>
                       (case msg_Write (e_enc env) (stream_write env strm) w1 (addr_message UDP addr) of
                          (Some e, w2) \<Rightarrow> (Inl e, p1, close_handle strm w2)
                        | (None, w2) \<Rightarrow>
                            (Inr (strm, True, key), p1\<lparr>p_udp := (p_udp p1)(key \<mapsto> strm)\<rparr>, w2)))))"

definition CloseUDP :: "Pool \<Rightarrow> 64 word \<Rightarrow> world \<Rightarrow> Pool \<times> world" where
  "CloseUDP p key w =
     (case p_udp p key of
        Some strm \<Rightarrow> (p\<lparr>p_udp := (p_udp p)(key := None)\<rparr>, close_handle strm w)
      | None \<Rightarrow> (p, w))"

section \<open>Datagram flows\<close>

definition dg_usable :: "Session \<Rightarrow> world \<Rightarrow> bool" where
  "dg_usable s w = (DatagramsOK s \<and> smux_alive s w)"

definition pickQUICSession :: "Pool \<Rightarrow> world \<Rightarrow> Session option \<times> Pool" where
  "pickQUICSession p w =
     (let ss = p_sessions p; n = length ss
      in if n = 0 then (None, p)
         else let start = unat ((p_dgIdx p + 1) - 1)
              in (find (\<lambda>s. dg_usable s w) (map (\<lambda>off. ss ! ((start + off) mod n)) [0..<n]),
                  p\<lparr>p_dgIdx := p_dgIdx p + 1\<rparr>))"

text \<open>Registering a flow: the deliver callback, the receive loop of its session, its send closure
  and its control stream. A write to the nil control map panics.\<close>

definition register_flow ::
  "Pool \<Rightarrow> string \<Rightarrow> Session \<Rightarrow> 64 word \<Rightarrow> nat \<Rightarrow> handle \<Rightarrow> Pool res" where
  "register_flow p key sess flowID deliver ctrl =
     (case p_dgCtrl p of
        None \<Rightarrow> Inl (Panic ''assignment to entry in nil map'')
      | Some cs \<Rightarrow>
          Inr (p\<lparr>p_dgDeliver := (p_dgDeliver p)(sess \<mapsto>
                   (case p_dgDeliver p sess of None \<Rightarrow> Map.empty | Some m \<Rightarrow> m)(flowID \<mapsto> deliver)),
                 p_dgRecv := (p_dgRecv p)(sess := True),
                 p_dgByKey := (p_dgByKey p)(key \<mapsto> (sess, flowID)),
                 p_dgCtrl := Some (AList.update key ctrl cs)\<rparr>))"

definition OpenUDPDatagram ::
  "env \<Rightarrow> Pool \<Rightarrow> string \<Rightarrow> string \<Rightarrow> nat \<Rightarrow> world \<Rightarrow> ((Session \<times> 64 word) \<times> bool) res \<times> Pool \<times> world" where
  "OpenUDPDatagram env p key target deliver w =
     (case p_dgByKey p key of
        Some snd_fn \<Rightarrow> (Inr (snd_fn, False), p, w)
      | None \<Rightarrow>
          (case pickQUICSession p w of
             (None, p1) \<Rightarrow> (Inl (Errorf ''no quic session'' []), p1, w)
           | (Some sess, p1) \<Rightarrow>
               (case Parse target of
                  Inl e \<Rightarrow> (Inl e, p1, w)
                | Inr addr \<Rightarrow>
                    (case acquire env (SmuxOpenStream (the (ss_Smux sess))) (ss_Smux sess) w of
                       (Inl e, w1) \<Rightarrow> (Inl e, p1, w1)
                     | (Inr ctrl, w1) \<Rightarrow>
                         (case msg_Write (e_enc env) (stream_write env ctrl) w1 (addr_message UDPDGRAM addr) of
                            (Some e, w2) \<Rightarrow> (Inl e, p1, close_handle ctrl w2)
                          | (None, w2) \<Rightarrow>
                              (case read_uint64 (e_input env ctrl w2) of
                                 (Inl e, _) \<Rightarrow> (Inl e, p1, close_handle ctrl w2)
                               | (Inr flowID, _) \<Rightarrow>
                                   (case register_flow p1 key sess flowID deliver ctrl of
                                      Inl e \<Rightarrow> (Inl e, p1, w2)
                                    | Inr p2 \<Rightarrow> (Inr ((sess, flowID), True), p2, w2))))))))"

definition flow_send :: "env \<Rightarrow> Session \<times> 64 word \<Rightarrow> byte list \<Rightarrow> world \<Rightarrow> error option \<times> world" where
  "flow_send env fl payload w = SendDatagram env (fst fl) (EncodeDatagram (snd fl) payload) w"

text \<open>
  One round of the receive loop of a session: the callback a datagram goes to, with its payload.
  The loop ends at the first receive error, so it is a function of the datagrams received before,
  each with the pool as it is at that moment.
\<close>

definition dgram_dispatch :: "Pool \<Rightarrow> Session \<Rightarrow> byte list \<Rightarrow> (nat \<times> byte list) option" where
  "dgram_dispatch p sess b =
     (case DecodeDatagram b of
        None \<Rightarrow> None
      | Some (flowID, payload) \<Rightarrow>
          (case p_dgDeliver p sess of
             None \<Rightarrow> None
           | Some m \<Rightarrow> map_option (\<lambda>d. (d, payload)) (m flowID)))"

fun dgramRecvLoop :: "Session \<Rightarrow> (Pool \<times> byte list res) list \<Rightarrow> (nat \<times> byte list) list" where
  "dgramRecvLoop sess [] = []"
| "dgramRecvLoop sess ((p, r) # rs) =
     (case r of
        Inl e \<Rightarrow> []
      | Inr b \<Rightarrow>
          (case dgram_dispatch p sess b of
             None \<Rightarrow> dgramRecvLoop sess rs
           | Some d \<Rightarrow> d # dgramRecvLoop sess rs))"

section \<open>Building, pinging and closing a pool\<close>

definition sendRemoteFlags :: "env \<Rightarrow> Session \<Rightarrow> TCPFlagSet list \<Rightarrow> world \<Rightarrow> error option \<times> world" where
  "sendRemoteFlags env sess flags w =
     (case ss_Smux sess of
        None \<Rightarrow> (Some (Panic ''nil pointer dereference''), w)
      | Some sm \<Rightarrow>
          (case acquire env (SmuxOpenStream sm) (Some sm) w of
             (Inl e, w1) \<Rightarrow> (Some e, w1)
           | (Inr strm, w1) \<Rightarrow>
               (case msg_Write (e_enc env) (stream_write env strm) w1
                       \<lparr>Type = TCPF, MAddr = None, MTCPF = flags\<rparr> of
                  (r, w2) \<Rightarrow> (r, close_handle strm w2))))"

definition set_remote_flags :: "handle \<Rightarrow> udp_addr \<Rightarrow> TCPFlagSet list \<Rightarrow> world \<Rightarrow> world" where
  "set_remote_flags h remote flags w = w\<lparr>w_flags := w_flags w @ [(h, remote, flags)]\<rparr>"

definition fix_port :: "int \<Rightarrow> NetworkRuntime \<Rightarrow> NetworkRuntime" where
  "fix_port rnd rt =
     (if nr_Port rt = 0
      then rt\<lparr>nr_Port := 32768 + rnd, nr_IPv4 := (nr_IPv4 rt)\<lparr>ua_port := 32768 + rnd\<rparr>\<rparr> else rt)"

text \<open>One round of the loop of \<^verbatim>\<open>Dial\<close>: the \<open>i\<close>-th session, or an error with nothing left open.\<close>

definition dial_session ::
  "crypto \<Rightarrow> env \<Rightarrow> Config \<Rightarrow> udp_addr \<Rightarrow> Options \<Rightarrow> TCPFlagSet list \<Rightarrow> nat \<Rightarrow> world \<Rightarrow> Session res \<times> world" where
  "dial_session cr env cfg remote opt flags i w =
     (let nth = show_nat (i + 1)
      in case ResolveNetworkWithPort (e_iface env) (e_rnd env w) cfg 0 of
           Inl e \<Rightarrow> (Inl (Wrapf ''connection %d: %w'' [nth] e), w)
         | Inr rt0 \<Rightarrow>
             let rt = fix_port (e_rnd env w) rt0
             in (case pcap_Open env (int (w_clock w)) rt w of
                   (Inl e, w1) \<Rightarrow> (Inl (Wrapf ''pcap %d: %w'' [nth] e), w1)
                 | (Inr c, w1) \<Rightarrow>
                     let w2 = set_remote_flags (sh_handle (cn_send c)) remote flags w1
                     in (case transport_Dial cr env remote opt (conn_handles c) w2 of
                           (Inl e, w3) \<Rightarrow>
                             (Inl (Wrapf ''%s dial %d: %w'' [o_Protocol opt, nth] e),
                              close_conn (conn_handles c) w3)
                         | (Inr sess, w3) \<Rightarrow>
                             (case sendRemoteFlags env sess flags w3 of
                                (Some e, w4) \<Rightarrow>
                                  (Inl (Wrapf ''tcpf %d: %w'' [nth] e), session_Close sess w4)
                              | (None, w4) \<Rightarrow> (Inr sess, w4)))))"

definition pool_Close :: "Pool \<Rightarrow> world \<Rightarrow> Pool \<times> world" where
  "pool_Close p w =
     (let ctrls = (case p_dgCtrl p of None \<Rightarrow> [] | Some cs \<Rightarrow> map snd cs);
          w1 = fold close_handle ctrls w;
          w2 = fold session_Close (p_sessions p) w1
      in (p\<lparr>p_dgCtrl := None, p_sessions := []\<rparr>, w2))"

definition pool_Dial ::
  "crypto \<Rightarrow> env \<Rightarrow> Config \<Rightarrow> udp_addr \<Rightarrow> TransportConfig \<Rightarrow> TCPFlagSet list \<Rightarrow> world \<Rightarrow> Pool res \<times> world" where
  "pool_Dial cr env cfg remote tcfg flags w =
     (case OptionsFromConfig cr (e_pd env) RoleClient tcfg of
        Inl e \<Rightarrow> (Inl e, w)
      | Inr opt \<Rightarrow>
          let count = (if t_Conn (c_Transport cfg) < 1 then 1 else nat (t_Conn (c_Transport cfg)))
          in (case dial_each (dial_session cr env cfg remote opt flags) session_Close [0..<count] [] w of
                (Inl e, w1) \<Rightarrow> (Inl e, w1)
              | (Inr ss, w1) \<Rightarrow> (Inr (empty_pool\<lparr>p_sessions := ss\<rparr>), w1)))"

definition pool_New ::
  "crypto \<Rightarrow> env \<Rightarrow> Config \<Rightarrow> TCPFlagSet list \<Rightarrow> world \<Rightarrow> Pool res \<times> world" where
  "pool_New cr env cfg flags w =
     (case RemoteServerAddr cfg of
        Inl e \<Rightarrow> (Inl e, w)
      | Inr remote \<Rightarrow> pool_Dial cr env cfg remote (c_Transport cfg) flags w)"

text \<open>The deadline bounds what \<^verbatim>\<open>e_input\<close> delivers for the stream.\<close>

definition PingWithTimeout :: "env \<Rightarrow> Pool \<Rightarrow> world \<Rightarrow> error option \<times> Pool \<times> world" where
  "PingWithTimeout env p w =
     (case openStream env p w of
        (Inl e, p1, w1) \<Rightarrow> (Some e, p1, w1)
      | (Inr strm, p1, w1) \<Rightarrow>
          (case PingRoundTrip (e_enc env) (e_dec env) (stream_write env strm) w1 (e_input env strm) of
             (r, w2) \<Rightarrow> (r, p1, close_handle strm w2)))"

definition pool_Ping :: "env \<Rightarrow> Pool \<Rightarrow> world \<Rightarrow> error option \<times> Pool \<times> world" where
  "pool_Ping env p w = PingWithTimeout env p w"

section \<open>Resources of a pool\<close>

lemma transport_Dial_alive:
  assumes "world_ok w" and "transport_Dial cr env addr opt pc w = (Inr s, w')"
  shows "smux_alive s w'"
proof -
  have "is_open sm w2" if "smuxClient env opt w1 = (Inr sm, w2)" for w1 sm w2
    using that acquire_ok [of env "SmuxClient (smuxConfig opt)" None w1 sm w2]
    by (auto simp: smuxClient_def is_open_def split: prod.splits sum.splits)
  with assms(2) show ?thesis
    by (fastforce simp: transport_Dial_def dialKCP_def dialQUIC_def Let_def smux_alive_def
        split: if_splits prod.splits sum.splits)
qed

lemma sendRemoteFlags_unchanged:
  assumes w: "world_ok w" and l: "\<And>sm. ss_Smux s = Some sm \<Longrightarrow> sm < w_next w"
    and o: "sendRemoteFlags env s flags w = (r, w')"
  shows "unchanged w w'"
proof (cases "ss_Smux s")
  case None
  with o w show ?thesis by (simp add: sendRemoteFlags_def unchanged_def)
next
  case (Some sm)
  obtain r1 w1 where a: "acquire env (SmuxOpenStream sm) (Some sm) w = (r1, w1)" by fastforce
  show ?thesis
  proof (cases r1)
    case (Inl e)
    with a Some o acquire_owned_unchanged [OF w l [OF Some]] show ?thesis
      by (auto simp: sendRemoteFlags_def)
  next
    case (Inr h)
    have g: "grows w {h} w1" using l [OF Some] by (intro grows_acquire [OF w a [unfolded Inr]]) simp
    obtain w2 where wr: "stream_write env h w1 (e_enc env \<lparr>Type = TCPF, MAddr = None, MTCPF = flags\<rparr>) = (r, w2)"
      and w': "w' = close_handle h w2"
      using o Some a Inr by (auto simp: sendRemoteFlags_def msg_Write_def split: prod.splits)
    have "h < w_next w1" using g by (simp add: grows_def)
    note g2 = grows_unchanged [OF g stream_write_unchanged [OF grows_ok [OF g] this wr]]
    show ?thesis unfolding w'
      by (rule grows_close_unchanged [OF w g2]) (simp_all add: close_handle_open grows_ok [OF g2])
  qed
qed

lemma set_remote_flags_grows: "grows w H w' \<Longrightarrow> grows w H (set_remote_flags h a f w')"
  by (simp add: grows_def set_remote_flags_def world_ok_def)

lemma dial_session_spec:
  assumes w: "world_ok w" and d: "dial_session cr env cfg remote opt flags i w = (r, w')"
  shows "case r of Inl e \<Rightarrow> unchanged w w'
         | Inr s \<Rightarrow> grows w (session_holds s) w' \<and> smux_alive s w'"
proof (cases "ResolveNetworkWithPort (e_iface env) (e_rnd env w) cfg 0")
  case (Inl e)
  with d w show ?thesis by (auto simp: dial_session_def unchanged_def)
next
  case rt: (Inr rt0)
  obtain r1 w1 where p: "pcap_Open env (int (w_clock w)) (fix_port (e_rnd env w) rt0) w = (r1, w1)"
    by fastforce
  note ps = pcap_Open_spec [OF w p]
  show ?thesis
  proof (cases r1)
    case (Inl e)
    with d rt p ps show ?thesis by (auto simp: dial_session_def Let_def)
  next
    case c: (Inr c)
    let ?H = "set (conn_handles c)" and ?w2 = "set_remote_flags (sh_handle (cn_send c)) remote flags w1"
    have g: "grows w ?H ?w2" using ps c by (simp add: set_remote_flags_grows)
    obtain r3 w3 where t: "transport_Dial cr env remote opt (conn_handles c) ?w2 = (r3, w3)" by fastforce
    show ?thesis
    proof (cases r3)
      case (Inl e)
      have g3: "grows w ?H w3"
        by (rule grows_unchanged [OF g transport_Dial_fail [OF grows_ok [OF g] t [unfolded Inl]]])
      have "unchanged w (close_conn (conn_handles c) w3)"
        by (rule grows_close_unchanged [OF w g3]) (simp_all add: close_conn_open grows_ok [OF g3])
      with d rt p c t Inl show ?thesis by (auto simp: dial_session_def Let_def)
    next
      case s: (Inr s)
      note so = transport_Dial_ok [OF grows_ok [OF g] t [unfolded s]]
      have hold: "?H \<union> session_own s = session_holds s" using so by (auto simp: session_holds_def)
      have g3: "grows w (session_holds s) w3"
        using grows_trans [OF g, of "session_own s" w3] so hold by simp
      have al: "smux_alive s w3" by (rule transport_Dial_alive [OF grows_ok [OF g] t [unfolded s]])
      have sm: "sm < w_next w3" if "ss_Smux s = Some sm" for sm
        using al that is_open_fresh [OF grows_ok [OF g3]] by (simp add: smux_alive_def)
      obtain r4 w4 where f: "sendRemoteFlags env s flags w3 = (r4, w4)" by fastforce
      have u: "unchanged w3 w4" by (rule sendRemoteFlags_unchanged [OF grows_ok [OF g3] sm f])
      note g4 = grows_unchanged [OF g3 u]
      have "unchanged w (session_Close s w4)"
        by (rule grows_close_unchanged [OF w g4]) (simp_all add: session_Close_open grows_ok [OF g4])
      moreover have "smux_alive s w4"
        using al unchanged_is_open [OF u] by (simp add: smux_alive_def split: option.splits)
      ultimately show ?thesis
        using d rt p c t s f g4 by (auto simp: dial_session_def Let_def split: option.splits)
    qed
  qed
qed

interpretation sess: live_dialer "dial_session cr env cfg remote opt flags" session_Close session_holds
    smux_alive
  for cr env cfg remote opt flags
  by unfold_locales
    (auto simp: session_Close_open unchanged_def smux_alive_def dest!: dial_session_spec
      dest: grows_is_open split: option.splits)

definition ctrl_handles :: "Pool \<Rightarrow> handle list" where
  "ctrl_handles p = (case p_dgCtrl p of None \<Rightarrow> [] | Some cs \<Rightarrow> map snd cs)"

definition pool_holds :: "Pool \<Rightarrow> handle set" where
  "pool_holds p = set (ctrl_handles p) \<union> (\<Union>s \<in> set (p_sessions p). session_holds s)"

lemma fold_session_Close:
  "w_open (fold session_Close ss w) = filter (live (\<Union>s \<in> set ss. session_holds s)) (w_open w)"
  "w_next (fold session_Close ss w) = w_next w"
  "world_ok w \<Longrightarrow> world_ok (fold session_Close ss w)"
  by (induction ss arbitrary: w)
    (simp_all add: session_Close_open filter_live_un Un_commute del: filter_filter)

lemma pool_Close_world:
  "w_open (snd (pool_Close p w)) = filter (live (pool_holds p)) (w_open w)"
  "w_next (snd (pool_Close p w)) = w_next w"
  "world_ok w \<Longrightarrow> world_ok (snd (pool_Close p w))"
  by (simp_all add: pool_Close_def Let_def fold_session_Close pool_holds_def ctrl_handles_def Un_commute
      filter_live_un close_conn_open [unfolded close_conn_def] close_conn_simps [unfolded close_conn_def]
      world_ok_close_conn [unfolded close_conn_def] del: filter_filter)

definition conn_count :: "Config \<Rightarrow> nat" where
  "conn_count cfg = (if t_Conn (c_Transport cfg) < 1 then 1 else nat (t_Conn (c_Transport cfg)))"

lemma pool_Dial_spec:
  assumes w: "world_ok w" and d: "pool_Dial cr env cfg remote tcfg flags w = (r, w')"
  shows "case r of Inl e \<Rightarrow> unchanged w w'
     | Inr p \<Rightarrow> grows w (pool_holds p) w' \<and> length (p_sessions p) = conn_count cfg
          \<and> (\<forall>s \<in> set (p_sessions p). smux_alive s w')"
proof (cases "OptionsFromConfig cr (e_pd env) RoleClient tcfg")
  case (Inl e)
  with d w show ?thesis by (auto simp: pool_Dial_def unchanged_def)
next
  case opt: (Inr opt)
  obtain r1 w1 where e: "dial_each (dial_session cr env cfg remote opt flags) session_Close
      [0..<conn_count cfg] [] w = (r1, w1)" by fastforce
  have g0: "grows w (sess.holds_all []) w" by (simp add: grows_refl [OF w])
  show ?thesis
  proof (cases r1)
    case (Inl e1)
    with d opt e sess.dial_each_fail [OF w g0, of cr env cfg remote opt flags "[0..<conn_count cfg]"]
    show ?thesis by (auto simp: pool_Dial_def conn_count_def unchanged_def)
  next
    case (Inr ss)
    have p: "r = Inr (empty_pool\<lparr>p_sessions := ss\<rparr>)" "w' = w1"
      using d opt e Inr by (auto simp: pool_Dial_def conn_count_def)
    have "pool_holds (empty_pool\<lparr>p_sessions := ss\<rparr>) = sess.holds_all ss"
      by (simp add: pool_holds_def ctrl_handles_def empty_pool_def sess.holds_all_def)
    with p sess.dial_each_ok [OF g0 e [unfolded Inr]] sess.dial_each_ready [OF w e [unfolded Inr]]
    show ?thesis by simp
  qed
qed

interpretation pool: dialer "\<lambda>(remote, tcfg). pool_Dial cr env cfg remote tcfg flags"
    "\<lambda>p w. snd (pool_Close p w)" pool_holds
  for cr env cfg flags
  by unfold_locales (auto simp: pool_Close_world unchanged_def dest!: pool_Dial_spec)

section \<open>Opening streams\<close>

lemma rotated:
  assumes "ss \<noteq> []"
  shows "map (\<lambda>off. ss ! ((start + off) mod length ss)) [0..<length ss] = rotate start ss"
  by (rule nth_equalityI) (simp_all add: nth_rotate)

text \<open>A stream comes from a live session of the pool; the attempts that fail before leave nothing.\<close>

lemma open_loop_ok:
  assumes "world_ok w" and "ss \<noteq> []" and "open_loop env ss start offs le w = (Inr h, w')"
  shows "\<exists>s sm. s \<in> set ss \<and> ss_Smux s = Some sm \<and> is_open sm w \<and> w_next w \<le> h
     \<and> grows w {h} w' \<and> w_open w' = (h, Some sm) # w_open w \<and> w_log w' = w_log w"
  using assms(1,3)
proof (induction offs arbitrary: le w)
  case Nil
  then show ?case by simp
next
  case (Cons off offs)
  let ?s = "ss ! ((start + off) mod length ss)"
  have mem: "?s \<in> set ss" using assms(2) by simp
  show ?case
  proof (cases "\<exists>sm. ss_Smux ?s = Some sm \<and> is_open sm w")
    case False
    with Cons show ?thesis by (auto split: option.splits if_splits)
  next
    case True
    then obtain sm where sm: "ss_Smux ?s = Some sm" "is_open sm w" by blast
    have fresh: "sm < w_next w" by (rule is_open_fresh [OF Cons.prems(1) sm(2)])
    obtain r1 w1 where a: "acquire env (SmuxOpenStream sm) (Some sm) w = (r1, w1)" by fastforce
    show ?thesis
    proof (cases r1)
      case (Inl e)
      have u: "unchanged w w1" and lg: "w_log w1 = w_log w"
        using acquire_owned_unchanged [OF Cons.prems(1) fresh a [unfolded Inl]]
          acquire_fail [OF a [unfolded Inl]] by simp_all
      have "open_loop env ss start offs (Some e) w1 = (Inr h, w')"
        using Cons.prems(2) sm a Inl by simp
      from Cons.IH [OF unchanged_ok [OF u] this] obtain s sm' where s: "s \<in> set ss" "ss_Smux s = Some sm'"
        "is_open sm' w1" "w_next w1 \<le> h" "grows w1 {h} w'" "w_open w' = (h, Some sm') # w_open w1"
        "w_log w' = w_log w1" by blast
      have "grows w {} w1" using u by (simp add: grows_def unchanged_def)
      from grows_trans [OF this s(5)] s u lg show ?thesis
        by (auto simp: unchanged_def is_open_def)
    next
      case (Inr h1)
      with Cons.prems(2) sm a have "h1 = h" "w1 = w'" by auto
      with grows_acquire [OF Cons.prems(1) a [unfolded Inr]] acquire_ok [OF a [unfolded Inr]] fresh mem sm
      show ?thesis by auto
    qed
  qed
qed

lemma open_loop_fail:
  assumes "world_ok w" and "open_loop env ss start offs le w = (Inl e, w')"
  shows "unchanged w w'"
  using assms
proof (induction offs arbitrary: le w)
  case Nil
  then show ?case by (simp add: unchanged_def)
next
  case (Cons off offs)
  show ?case
  proof (cases "\<exists>sm. ss_Smux (ss ! ((start + off) mod length ss)) = Some sm \<and> is_open sm w")
    case False
    with Cons show ?thesis by (auto split: option.splits if_splits)
  next
    case True
    then obtain sm where sm: "ss_Smux (ss ! ((start + off) mod length ss)) = Some sm" "is_open sm w"
      by blast
    obtain e1 w1 where a: "acquire env (SmuxOpenStream sm) (Some sm) w = (Inl e1, w1)"
      and l: "open_loop env ss start offs (Some e1) w1 = (Inl e, w')"
      using Cons.prems(2) sm by (auto split: prod.splits sum.splits)
    have u: "unchanged w w1"
      by (rule acquire_owned_unchanged [OF Cons.prems(1) is_open_fresh [OF Cons.prems(1) sm(2)] a])
    from Cons.IH [OF unchanged_ok [OF u] l] show ?thesis by (rule unchanged_trans [OF u])
  qed
qed

text \<open>When opening a stream on a live session never fails, the first live session in the rotation
  is used.\<close>

lemma open_loop_calm:
  assumes "\<And>sm w. e_fail env (SmuxOpenStream sm) w = None"
  shows "fst (open_loop env ss start offs None w) =
    (case find (\<lambda>s. smux_alive s w) (map (\<lambda>off. ss ! ((start + off) mod length ss)) offs) of
       None \<Rightarrow> Inl (Errorf ''no live tunnel sessions'' [])
     | Some s \<Rightarrow> Inr (w_next w))
   \<and> (\<forall>s. find (\<lambda>s. smux_alive s w) (map (\<lambda>off. ss ! ((start + off) mod length ss)) offs) = Some s
        \<longrightarrow> w_open (snd (open_loop env ss start offs None w)) = (w_next w, ss_Smux s) # w_open w)"
  by (induction offs) (auto simp: smux_alive_def acquire_def assms split: option.splits)

lemma openStream_spec:
  assumes w: "world_ok w" and o: "openStream env p w = (r, p', w')"
  shows "(p' = p \<or> p' = p\<lparr>p_idx := p_idx p + 1\<rparr>)
     \<and> (case r of Inl e \<Rightarrow> unchanged w w'
        | Inr h \<Rightarrow> \<exists>s sm. s \<in> set (p_sessions p) \<and> ss_Smux s = Some sm \<and> is_open sm w \<and> w_next w \<le> h
            \<and> grows w {h} w' \<and> w_open w' = (h, Some sm) # w_open w \<and> w_log w' = w_log w)"
proof (cases "p_sessions p = []")
  case True
  with w o show ?thesis by (auto simp: openStream_def unchanged_def)
next
  case False
  then have l: "open_loop env (p_sessions p) (unat (p_idx p)) [0..<length (p_sessions p)] None w = (r, w')"
    and p': "p' = p\<lparr>p_idx := p_idx p + 1\<rparr>"
    using o by (auto simp: openStream_def Let_def split: prod.splits)
  show ?thesis
  proof (cases r)
    case (Inl e)
    with p' open_loop_fail [OF w l [unfolded Inl]] show ?thesis by simp
  next
    case (Inr h)
    with p' open_loop_ok [OF w False l [unfolded Inr]] show ?thesis by simp
  qed
qed

text \<open>A stream that is opened and then written its opening message, or closed again.\<close>

definition open_with ::
  "env \<Rightarrow> Pool \<Rightarrow> Message \<Rightarrow> world \<Rightarrow> handle res \<times> Pool \<times> world" where
  "open_with env p m w =
     (case openStream env p w of
        (Inl e, p1, w1) \<Rightarrow> (Inl e, p1, w1)
      | (Inr strm, p1, w1) \<Rightarrow>
          (case msg_Write (e_enc env) (stream_write env strm) w1 m of
             (Some e, w2) \<Rightarrow> (Inl e, p1, close_handle strm w2)
           | (None, w2) \<Rightarrow> (Inr strm, p1, w2)))"

lemma written_fresh: "world_ok w \<Longrightarrow> w_next w \<le> h \<Longrightarrow> written h w = []"
  by (force simp: written_def world_ok_def filter_empty_conv)

lemma open_with_spec:
  assumes w: "world_ok w" and o: "open_with env p m w = (r, p', w')"
  shows "p_sessions p' = p_sessions p \<and> p_udp p' = p_udp p \<and> p_dgByKey p' = p_dgByKey p
     \<and> (case r of Inl e \<Rightarrow> unchanged w w'
        | Inr h \<Rightarrow> written h w' = e_enc env m \<and> is_open h w' \<and> \<not> is_open h w \<and> grows w {h} w'
            \<and> (\<exists>s \<in> set (p_sessions p). smux_alive s w \<and> w_open w' = (h, ss_Smux s) # w_open w))"
proof -
  obtain r1 p1 w1 where os: "openStream env p w = (r1, p1, w1)" by (metis prod_cases3)
  note sp = openStream_spec [OF w os]
  have p1: "p_sessions p1 = p_sessions p \<and> p_udp p1 = p_udp p \<and> p_dgByKey p1 = p_dgByKey p"
    using sp by auto
  show ?thesis
  proof (cases r1)
    case (Inl e)
    with o os sp p1 show ?thesis by (auto simp: open_with_def)
  next
    case (Inr h)
    with sp obtain s sm where s: "s \<in> set (p_sessions p)" "ss_Smux s = Some sm" "is_open sm w"
      "w_next w \<le> h" "grows w {h} w1" "w_open w1 = (h, Some sm) # w_open w" "w_log w1 = w_log w"
      by auto
    have lt: "h < w_next w1" using s(5) by (simp add: grows_def)
    obtain r2 w2 where wr: "stream_write env h w1 (e_enc env m) = (r2, w2)" by fastforce
    have u: "unchanged w1 w2" by (rule stream_write_unchanged [OF grows_ok [OF s(5)] lt wr])
    note g2 = grows_unchanged [OF s(5) u]
    have nopen: "\<not> is_open h w" using s(4) is_open_fresh [OF w, of h] by auto
    show ?thesis
    proof (cases r2)
      case (Some e)
      have "unchanged w (close_handle h w2)"
        by (rule grows_close_unchanged [OF w g2]) (simp_all add: close_handle_open grows_ok [OF g2])
      with o os Inr wr Some p1 show ?thesis by (auto simp: open_with_def msg_Write_def)
    next
      case None
      have "written h w2 = e_enc env m"
        using stream_write_simps(3) [OF wr None] s(7) written_fresh [OF w s(4)] by (simp add: written_def)
      moreover have "w_open w2 = (h, ss_Smux s) # w_open w" using u s(2,6) by (simp add: unchanged_def)
      moreover have "smux_alive s w" using s(2,3) by (simp add: smux_alive_def)
      ultimately show ?thesis
        using o os Inr wr None p1 g2 nopen s(1) by (auto simp: open_with_def msg_Write_def is_open_def)
    qed
  qed
qed

lemma OpenTCP_open_with:
  "OpenTCP env p target w =
     (case Parse target of Inl e \<Rightarrow> (Inl e, p, w) | Inr a \<Rightarrow> open_with env p (addr_message TCP a) w)"
  by (simp add: OpenTCP_def open_with_def split: sum.splits)

lemma OpenUDP_open_with:
  "OpenUDP env p l target w =
     (case p_udp p (addrPairKey l target) of
        Some s \<Rightarrow> (Inr (s, False, addrPairKey l target), p, w)
      | None \<Rightarrow>
          (case Parse target of Inl e \<Rightarrow> (Inl e, p, w)
           | Inr a \<Rightarrow>
               (case open_with env p (addr_message UDP a) w of
                  (Inl e, p1, w1) \<Rightarrow> (Inl e, p1, w1)
                | (Inr s, p1, w1) \<Rightarrow>
                    (Inr (s, True, addrPairKey l target),
                     p1\<lparr>p_udp := (p_udp p1)(addrPairKey l target \<mapsto> s)\<rparr>, w1))))"
  by (simp add: OpenUDP_def open_with_def Let_def split: prod.splits sum.splits option.splits)

text \<open>The key runs the two strings together: it does not tell where the first one ends.\<close>

lemma addrPairKey_append: "addrPairKey a b = foldl pair_step 2166136261 (a @ b)"
  by (simp add: addrPairKey_def)

lemma addrPairKey_collision: "addrPairKey ''10.0.0.1:1'' ''1.2.3.4:53'' = addrPairKey ''10.0.0.1:11'' ''.2.3.4:53''"
  by (simp add: addrPairKey_append)

text \<open>A registered flow is handed out again whatever has become of its session.\<close>

lemma dead_flow_reused:
  "p_dgByKey p key = Some fl \<Longrightarrow> OpenUDPDatagram env p key target d w = (Inr (fl, False), p, w)"
  by (simp add: OpenUDPDatagram_def)

lemma pickQUICSession_spec:
  "pickQUICSession p w = (Some s, p') \<Longrightarrow> s \<in> set (p_sessions p) \<and> DatagramsOK s \<and> smux_alive s w"
  by (auto simp: pickQUICSession_def Let_def dg_usable_def find_Some_iff split: if_splits)

lemma pickQUICSession_frame:
  "pickQUICSession p w = (r, p') \<Longrightarrow> p_dgByKey p' = p_dgByKey p \<and> p_dgDeliver p' = p_dgDeliver p
     \<and> p_dgCtrl p' = p_dgCtrl p"
  by (auto simp: pickQUICSession_def Let_def split: if_splits)

lemma OpenUDPDatagram_new:
  assumes "OpenUDPDatagram env p key target d w = (Inr ((s, fid), True), p', w')"
  shows "\<exists>p1 ctrl. p_dgByKey p key = None \<and> s \<in> set (p_sessions p) \<and> DatagramsOK s \<and> smux_alive s w
     \<and> p_dgDeliver p1 = p_dgDeliver p \<and> register_flow p1 key s fid d ctrl = Inr p'"
proof -
  obtain p1 where pk: "pickQUICSession p w = (Some s, p1)" and n: "p_dgByKey p key = None"
    and rf: "\<exists>ctrl. register_flow p1 key s fid d ctrl = Inr p'"
    using assms by (auto simp: OpenUDPDatagram_def split: option.splits sum.splits prod.splits)
  from pickQUICSession_spec [OF pk] pickQUICSession_frame [OF pk] n rf show ?thesis by blast
qed

lemma smux_alive_open: "w_open w' = w_open w \<Longrightarrow> smux_alive s w' = smux_alive s w"
  by (simp add: smux_alive_def is_open_def split: option.splits)

lemma PingWithTimeout_unchanged:
  assumes w: "world_ok w" and o: "PingWithTimeout env p w = (r, p', w')"
  shows "unchanged w w'"
proof -
  obtain r1 p1 w1 where os: "openStream env p w = (r1, p1, w1)" by (metis prod_cases3)
  note sp = openStream_spec [OF w os]
  show ?thesis
  proof (cases r1)
    case (Inl e)
    with o os sp show ?thesis by (auto simp: PingWithTimeout_def)
  next
    case (Inr h)
    with sp have g: "grows w {h} w1" by auto
    then have lt: "h < w_next w1" by (simp add: grows_def)
    obtain w2 where pr: "PingRoundTrip (e_enc env) (e_dec env) (stream_write env h) w1 (e_input env h) = (r, w2)"
      and w': "w' = close_handle h w2"
      using o os Inr by (auto simp: PingWithTimeout_def split: prod.splits)
    obtain r3 w3 where wr: "stream_write env h w1 (e_enc env (message Ping)) = (r3, w3)" by fastforce
    have "w2 = w3"
      using pr wr by (auto simp: PingRoundTrip_def msg_Write_def split: option.splits prod.splits sum.splits if_splits)
    with stream_write_unchanged [OF grows_ok [OF g] lt wr] have g2: "grows w {h} w2"
      using grows_unchanged [OF g] by simp
    show ?thesis unfolding w'
      by (rule grows_close_unchanged [OF w g2]) (simp_all add: close_handle_open grows_ok [OF g2])
  qed
qed

section \<open>Operations on a pool\<close>

text \<open>
  What every operation of a pool keeps: its sessions, the well-formedness of the world, and that
  whatever it opens belongs to one of those sessions.
\<close>

definition pool_cover :: "Pool \<Rightarrow> handle set" where
  "pool_cover p = (\<Union>s \<in> set (p_sessions p). session_holds s)"

definition stays :: "Pool \<Rightarrow> world \<Rightarrow> Pool \<Rightarrow> world \<Rightarrow> bool" where
  "stays p w p' w' \<longleftrightarrow> p_sessions p' = p_sessions p \<and> world_ok w' \<and> w_next w \<le> w_next w'
     \<and> (\<forall>x \<in> set (w_open w'). x \<in> set (w_open w) \<or> \<not> live (pool_cover p) x)"

locale pool_op =
  fixes op :: "Pool \<Rightarrow> world \<Rightarrow> 'r \<times> Pool \<times> world"
  assumes keeps: "world_ok w \<Longrightarrow> op p w = (r, p', w') \<Longrightarrow> stays p w p' w'"

lemma stays_unchanged: "unchanged w w' \<Longrightarrow> p_sessions p' = p_sessions p \<Longrightarrow> stays p w p' w'"
  by (simp add: stays_def unchanged_def)

lemma smux_in_cover: "s \<in> set (p_sessions p) \<Longrightarrow> ss_Smux s = Some sm \<Longrightarrow> sm \<in> pool_cover p"
  by (auto simp: pool_cover_def session_holds_def session_own_def)

lemma open_with_stays:
  assumes "world_ok w" and "open_with env p m w = (r, p', w')"
  shows "stays p w p' w'"
proof (cases r)
  case (Inl e)
  with open_with_spec [OF assms] show ?thesis by (simp add: stays_unchanged)
next
  case (Inr h)
  with open_with_spec [OF assms] obtain s where s: "p_sessions p' = p_sessions p" "grows w {h} w'"
    "s \<in> set (p_sessions p)" "smux_alive s w" "w_open w' = (h, ss_Smux s) # w_open w" by auto
  then obtain sm where "ss_Smux s = Some sm" by (auto simp: smux_alive_def split: option.splits)
  moreover have "world_ok w'" "w_next w \<le> w_next w'" using s(2) by (simp_all add: grows_def)
  ultimately show ?thesis using s smux_in_cover [OF s(3)] by (auto simp: stays_def live_def)
qed

interpretation tcp_op: pool_op "\<lambda>p. OpenTCP env p target" for env target
proof
  fix w p r p' w'
  assume w: "world_ok w" and o: "OpenTCP env p target w = (r, p', w')"
  show "stays p w p' w'"
  proof (cases "Parse target")
    case (Inl e)
    with o w show ?thesis by (simp add: OpenTCP_open_with stays_def)
  next
    case (Inr a)
    then have "open_with env p (addr_message TCP a) w = (r, p', w')" using o by (simp add: OpenTCP_open_with)
    then show ?thesis by (rule open_with_stays [OF w])
  qed
qed

interpretation udp_op: pool_op "\<lambda>p. OpenUDP env p l target" for env l target
proof
  fix w p r p' w'
  assume w: "world_ok w" and o: "OpenUDP env p l target w = (r, p', w')"
  show "stays p w p' w'"
  proof (cases "p_udp p (addrPairKey l target) = None \<and> \<not> is_err (Parse target)")
    case False
    with o w show ?thesis by (auto simp: OpenUDP_open_with stays_def split: option.splits sum.splits)
  next
    case True
    then obtain a where a: "Parse target = Inr a" by (auto simp: not_is_err_iff)
    obtain r1 p1 w1 where ow: "open_with env p (addr_message UDP a) w = (r1, p1, w1)" by (metis prod_cases3)
    from open_with_stays [OF w ow] o True a ow show ?thesis
      by (cases r1) (auto simp: OpenUDP_open_with stays_def)
  qed
qed

lemma CloseUDP_stays:
  assumes "world_ok w" and "CloseUDP p key w = (p', w')"
  shows "stays p w p' w'"
  using assms by (auto simp: CloseUDP_def stays_def close_handle_open split: option.splits)

interpretation close_op: pool_op "\<lambda>p w. ((), CloseUDP p key w)" for key
  by unfold_locales (auto intro: CloseUDP_stays)

interpretation ping_op: pool_op "PingWithTimeout env" for env
proof
  fix w p r p' w'
  assume w: "world_ok w" and o: "PingWithTimeout env p w = (r, p', w')"
  obtain r1 p1 w1 where os: "openStream env p w = (r1, p1, w1)" by (metis prod_cases3)
  have "p' = p1" using o os by (auto simp: PingWithTimeout_def split: sum.splits prod.splits)
  then have "p_sessions p' = p_sessions p" using openStream_spec [OF w os] by auto
  then show "stays p w p' w'" by (rule stays_unchanged [OF PingWithTimeout_unchanged [OF w o]])
qed

text \<open>A datagram flow: the control stream is opened on, and owned by, the chosen session.\<close>

lemma stays_opened:
  assumes "p_sessions p' = p_sessions p" and "world_ok w'" and "w_next w \<le> w_next w'" and "sm \<in> pool_cover p"
    and "set (w_open w') \<subseteq> insert (h, Some sm) (set (w_open w))"
  shows "stays p w p' w'"
  using assms by (auto simp: stays_def live_def)

lemma OpenUDPDatagram_stays:
  assumes w: "world_ok w" and o: "OpenUDPDatagram env p key target d w = (r, p', w')"
  shows "stays p w p' w'"
proof (cases "p_dgByKey p key")
  case (Some fl)
  with o w show ?thesis by (auto simp: OpenUDPDatagram_def stays_def)
next
  case None
  obtain so p1 where pk: "pickQUICSession p w = (so, p1)" by fastforce
  have p1: "p_sessions p1 = p_sessions p"
    using pk by (auto simp: pickQUICSession_def Let_def split: if_splits)
  show ?thesis
  proof (cases "\<exists>s a. so = Some s \<and> Parse target = Inr a")
    case False
    with o w None pk p1 show ?thesis
      by (auto simp: OpenUDPDatagram_def stays_def split: option.splits sum.splits)
  next
    case True
    then obtain s a where s: "so = Some s" and a: "Parse target = Inr a" by blast
    from pickQUICSession_spec [OF pk [unfolded s]] obtain sm where
      sm: "s \<in> set (p_sessions p)" "ss_Smux s = Some sm" "is_open sm w"
      by (auto simp: smux_alive_def split: option.splits)
    note cov = smux_in_cover [OF sm(1,2)] and lt = is_open_fresh [OF w sm(3)]
    obtain r1 w1 where ac: "acquire env (SmuxOpenStream sm) (Some sm) w = (r1, w1)" by fastforce
    show ?thesis
    proof (cases r1)
      case (Inl e)
      have "unchanged w w1" by (rule acquire_owned_unchanged [OF w lt ac [unfolded Inl]])
      moreover have "p' = p1 \<and> w' = w1" using o None pk s a sm(2) ac Inl by (simp add: OpenUDPDatagram_def)
      ultimately show ?thesis by (simp add: stays_unchanged p1)
    next
      case (Inr c)
      have g: "grows w {c} w1" using lt by (intro grows_acquire [OF w ac [unfolded Inr]]) simp
      have c1: "w_open w1 = (c, Some sm) # w_open w" using acquire_ok [OF ac [unfolded Inr]] by simp
      have ltc: "c < w_next w1" using g by (simp add: grows_def)
      obtain r2 w2 where wr: "stream_write env c w1 (e_enc env (addr_message UDPDGRAM a)) = (r2, w2)" by fastforce
      have u: "unchanged w1 w2" by (rule stream_write_unchanged [OF grows_ok [OF g] ltc wr])
      have "(w' = w2 \<or> w' = close_handle c w2) \<and> p_sessions p' = p_sessions p"
        using o None pk s a sm(2) ac Inr wr p1
        by (auto simp: OpenUDPDatagram_def msg_Write_def register_flow_def
            split: option.splits prod.splits sum.splits)
      moreover from this have "set (w_open w') \<subseteq> set (w_open w2)" "w_next w' = w_next w2" by (auto simp: close_handle_open)
      moreover have "w_next w \<le> w_next w2" using u g by (simp add: unchanged_def grows_def)
      ultimately show ?thesis
        using u c1 by (intro stays_opened [OF _ _ _ cov, where h = c]) (auto simp: unchanged_def)
    qed
  qed
qed

interpretation dgram_op: pool_op "\<lambda>p. OpenUDPDatagram env p key target d" for env key target d
  by unfold_locales (rule OpenUDPDatagram_stays)

section \<open>Sample pools\<close>

definition sample_session :: "handle \<Rightarrow> Session" where
  "sample_session h = \<lparr>ss_PacketConn = None, ss_remoteAddr = None, ss_KCP = None, ss_quicTr = None,
     ss_quicConn = Some h, ss_quicStream = None, ss_Smux = Some h\<rparr>"

definition sample_world :: world where
  "sample_world = \<lparr>w_clock = 0, w_next = 2, w_open = [(1, None), (0, None)], w_log = [], w_kcp = [],
     w_flags = []\<rparr>"

section \<open>Properties\<close>

text \<open>Dialling a pool is all or nothing: on failure exactly the objects open before are open,
  whichever session failed at whichever step; on success the pool has the configured number of
  sessions (at least one), all of them alive, and closing the pool releases everything the dial
  acquired.\<close>

lemma pool_dial_all_or_nothing:
  assumes "world_ok w"
  shows "case pool_Dial cr env cfg remote tcfg flags w of
      (Inl e, w') \<Rightarrow> w_open w' = w_open w
    | (Inr p, w') \<Rightarrow> length (p_sessions p) = (if t_Conn (c_Transport cfg) < 1 then 1
                                               else nat (t_Conn (c_Transport cfg)))
        \<and> (\<forall>s \<in> set (p_sessions p). smux_alive s w') \<and> Alive p w'
        \<and> w_open (snd (pool_Close p w')) = w_open w"
proof -
  obtain r w' where d: "pool_Dial cr env cfg remote tcfg flags w = (r, w')" by fastforce
  note sp = pool_Dial_spec [OF assms d]
  have "w_open (snd (pool_Close p w')) = w_open w" if "r = Inr p" for p
    using pool.dial_release [OF assms, of cr env cfg flags "(remote, tcfg)" p w'] d that by simp
  moreover have "Alive p w'" if "r = Inr p" for p
  proof -
    have "p_sessions p \<noteq> []" using sp that by (auto simp: conn_count_def split: if_splits)
    with sp that show ?thesis by (cases "p_sessions p") (auto simp: Alive_def)
  qed
  ultimately show ?thesis
    using d sp by (cases r) (auto simp: unchanged_def conn_count_def)
qed

text \<open>Streams are spread round-robin over the sessions and skip dead ones: when opening a stream
  on a live session does not fail, the stream is opened on the first live session counting from
  the pool's index, the index advances by one, and only a pool without live sessions refuses.\<close>

lemma open_stream_round_robin:
  assumes "\<And>sm w. e_fail env (SmuxOpenStream sm) w = None" and "p_sessions p \<noteq> []"
  shows "case find (\<lambda>s. smux_alive s w) (rotate (unat (p_idx p)) (p_sessions p)) of
      None \<Rightarrow> fst (openStream env p w) = Inl (Errorf ''no live tunnel sessions'' []) \<and> \<not> Alive p w
    | Some s \<Rightarrow> \<exists>w'. openStream env p w = (Inr (w_next w), p\<lparr>p_idx := p_idx p + 1\<rparr>, w')
                  \<and> w_open w' = (w_next w, ss_Smux s) # w_open w"
proof -
  obtain r w' where l: "open_loop env (p_sessions p) (unat (p_idx p)) [0..<length (p_sessions p)] None w = (r, w')"
    by fastforce
  then have o: "openStream env p w = (r, p\<lparr>p_idx := p_idx p + 1\<rparr>, w')"
    using assms(2) by (simp add: openStream_def)
  note c = open_loop_calm [OF assms(1), of "p_sessions p" "unat (p_idx p)" "[0..<length (p_sessions p)]" w,
      unfolded l rotated [OF assms(2)]]
  show ?thesis
  proof (cases "find (\<lambda>s. smux_alive s w) (rotate (unat (p_idx p)) (p_sessions p))")
    case None
    then have "\<not> Alive p w" by (auto simp: Alive_def find_None_iff list_ex_iff)
    with None o c show ?thesis by simp
  next
    case (Some s)
    with o c show ?thesis by simp
  qed
qed

text \<open>Opening a TCP stream: on success the new stream belongs to a live session and the only
  thing written to it is the encoded request for the parsed target; on any error (bad target, no
  session, failed write) no stream is left open.\<close>

lemma open_tcp_request:
  assumes "world_ok w"
  shows "case OpenTCP env p target w of
      (Inl e, p', w') \<Rightarrow> w_open w' = w_open w
    | (Inr h, p', w') \<Rightarrow> \<exists>a. Parse target = Inr a \<and> written h w' = e_enc env (addr_message TCP a)
        \<and> is_open h w' \<and> \<not> is_open h w
        \<and> (\<exists>s \<in> set (p_sessions p). smux_alive s w \<and> w_open w' = (h, ss_Smux s) # w_open w)"
proof (cases "Parse target")
  case (Inl e)
  then show ?thesis by (simp add: OpenTCP_def)
next
  case (Inr a)
  obtain r p' w' where o: "open_with env p (addr_message TCP a) w = (r, p', w')" by (metis prod_cases3)
  from open_with_spec [OF assms o] Inr o show ?thesis
    by (cases r) (auto simp: OpenTCP_open_with unchanged_def)
qed

text \<open>UDP streams are kept per local address and target: after a successful open the same pair
  gets the same stream, marked as known and with no effect on the world, until it is closed by
  its key; closing closes the stream and makes the next open start a new one.\<close>

lemma udp_stream_reuse:
  assumes "world_ok w" and "OpenUDP env p l target w = (Inr (h, isNew, key), p1, w1)"
  shows "OpenUDP env p1 l target w1 = (Inr (h, False, key), p1, w1)
     \<and> (isNew \<longrightarrow> is_open h w1 \<and> \<not> is_open h w)
     \<and> (case CloseUDP p1 key w1 of (p2, w2) \<Rightarrow>
          \<not> is_open h w2 \<and> p_udp p2 key = None \<and> (\<forall>k. k \<noteq> key \<longrightarrow> p_udp p2 k = p_udp p1 k)
          \<and> (\<forall>env' w3 h' n k' p3 w4. OpenUDP env' p2 l target w3 = (Inr (h', n, k'), p3, w4) \<longrightarrow> n))"
proof -
  let ?k = "addrPairKey l target"
  have key: "key = ?k \<and> p_udp p1 ?k = Some h"
    using assms(2) by (auto simp: OpenUDP_open_with split: option.splits sum.splits prod.splits)
  have new: "is_open h w1 \<and> \<not> is_open h w" if isNew
    using assms(2) that open_with_spec [OF assms(1)]
    by (fastforce simp: OpenUDP_open_with split: option.splits sum.splits prod.splits)
  have "\<not> is_open h (close_handle h w1)" by (auto simp: is_open_def close_handle_def)
  with key new show ?thesis
    by (auto simp: CloseUDP_def OpenUDP_open_with split: option.splits sum.splits prod.splits)
qed

text \<open>Datagram flows: a newly opened flow runs over a live QUIC session of the pool, and from
  then on a datagram carrying its flow identifier that arrives on that session is delivered, with
  exactly its payload, to the callback registered for the flow, while datagrams of other flows
  and of other sessions go where they went before; opening the same key again returns the flow.\<close>

lemma datagram_flow_dispatch:
  assumes "OpenUDPDatagram env p key target d w = (Inr ((s, fid), True), p', w')"
  shows "s \<in> set (p_sessions p) \<and> DatagramsOK s \<and> smux_alive s w
     \<and> (\<forall>payload. dgram_dispatch p' s (EncodeDatagram fid payload) = Some (d, payload))
     \<and> (\<forall>s' fid' payload. s' \<noteq> s \<or> fid' \<noteq> fid \<longrightarrow>
          dgram_dispatch p' s' (EncodeDatagram fid' payload) = dgram_dispatch p s' (EncodeDatagram fid' payload))
     \<and> (\<forall>env' target' d' v. OpenUDPDatagram env' p' key target' d' v = (Inr ((s, fid), False), p', v))"
proof -
  from OpenUDPDatagram_new [OF assms] obtain p1 ctrl where
    n: "s \<in> set (p_sessions p)" "DatagramsOK s" "smux_alive s w" "p_dgDeliver p1 = p_dgDeliver p"
      "register_flow p1 key s fid d ctrl = Inr p'" by blast
  from n(5) have del: "p_dgDeliver p' = (p_dgDeliver p1)(s \<mapsto>
      (case p_dgDeliver p1 s of None \<Rightarrow> Map.empty | Some m \<Rightarrow> m)(fid \<mapsto> d))"
    and key: "p_dgByKey p' key = Some (s, fid)"
    by (auto simp: register_flow_def split: option.splits)
  show ?thesis
    using n(1-3) key
    by (auto simp: dgram_dispatch_def Decode_Encode del n(4) OpenUDPDatagram_def split: option.splits)
qed

text \<open>Health pings are clean: whatever the outcome, a ping leaves no stream behind and loses no
  session.\<close>

lemma ping_clean:
  assumes "world_ok w" and "PingWithTimeout env p w = (r, p', w')"
  shows "w_open w' = w_open w \<and> p_sessions p' = p_sessions p \<and> Alive p' w' = Alive p w"
proof -
  have u: "w_open w' = w_open w" using PingWithTimeout_unchanged [OF assms] by (simp add: unchanged_def)
  obtain r1 p1 w1 where os: "openStream env p w = (r1, p1, w1)" by (metis prod_cases3)
  have "p' = p1" using assms(2) os by (auto simp: PingWithTimeout_def split: sum.splits prod.splits)
  then have s: "p_sessions p' = p_sessions p" using openStream_spec [OF assms(1) os] by auto
  then show ?thesis using u smux_alive_open [OF u] by (simp add: Alive_def)
qed

end
