(* ===== verification/Rotor.thy ===== *)
theory Rotor
  imports Netutil "HOL-Library.Multiset"
begin

text \<open>
  Choosing in turn. Several components walk through a fixed list with an atomically incremented
  32-bit counter: the flag cycle of a packet connection, the round-robin and the weighted choice
  of an upstream. They share this contract; what the users rely on (cyclic order, and that one
  full turn serves every item exactly as often as it is listed) is proved here once.
\<close>

fun draws :: "('s \<Rightarrow> 'a \<times> 's) \<Rightarrow> nat \<Rightarrow> 's \<Rightarrow> 'a list \<times> 's" where
  "draws draw 0 s = ([], s)"
| "draws draw (Suc n) s =
     (let (x, s1) = draw s; (xs, s2) = draws draw n s1 in (x # xs, s2))"

lemma map_nth_mod_rotate:
  assumes "xs \<noteq> []"
  shows "map (\<lambda>k. xs ! ((c + k) mod length xs)) [0..<length xs] = rotate c xs"
  by (rule nth_equalityI) (simp_all add: nth_rotate)

lemma mset_rotated: "mset (rotate c xs) = mset xs"
  by (metis rotate_drop_take mset_append union_commute append_take_drop_id)

locale rotor =
  fixes draw :: "'s \<Rightarrow> 'a \<times> 's"
    and menu :: "'s \<Rightarrow> 'a list"
    and counter :: "'s \<Rightarrow> 32 word"
    and ok :: "'s \<Rightarrow> bool"
  assumes ok_menu: "ok s \<Longrightarrow> menu s \<noteq> []"
    and draw_item: "ok s \<Longrightarrow> fst (draw s) = menu s ! (unat (counter s) mod length (menu s))"
    and draw_menu: "ok s \<Longrightarrow> menu (snd (draw s)) = menu s"
    and draw_counter: "ok s \<Longrightarrow> counter (snd (draw s)) = counter s + 1"
    and draw_ok: "ok s \<Longrightarrow> ok (snd (draw s))"
begin

lemma draws_cyclic:
  assumes "ok s" and "unat (counter s) + n \<le> 2 ^ 32"
  shows "fst (draws draw n s) = map (\<lambda>k. menu s ! ((unat (counter s) + k) mod length (menu s))) [0..<n]"
  using assms
proof (induction n arbitrary: s)
  case 0
  then show ?case by simp
next
  case (Suc n)
  obtain x s1 where d: "draw s = (x, s1)" by fastforce
  have s1: "ok s1" "menu s1 = menu s" "counter s1 = counter s + 1"
    and x: "x = menu s ! (unat (counter s) mod length (menu s))"
    using draw_ok [OF Suc.prems(1)] draw_menu [OF Suc.prems(1)] draw_counter [OF Suc.prems(1)]
      draw_item [OF Suc.prems(1)] d by simp_all
  show ?case
  proof (cases "n = 0")
    case True
    with d x show ?thesis by simp
  next
    case False
    with Suc.prems(2) have u: "unat (counter s1) = Suc (unat (counter s))"
      by (simp add: s1(3) unat_word_ariths)
    have "fst (draws draw n s1) = map (\<lambda>k. menu s ! ((Suc (unat (counter s)) + k) mod length (menu s))) [0..<n]"
      using Suc.IH [OF s1(1)] Suc.prems(2) u s1(2) by simp
    with d x show ?thesis
      by (simp add: upt_conv_Cons map_Suc_upt [symmetric] case_prod_beta Let_def del: upt_Suc)
  qed
qed

text \<open>One full turn serves everything on the menu exactly as often as it is listed.\<close>

lemma draws_turn:
  assumes "ok s" and "unat (counter s) + length (menu s) \<le> 2 ^ 32"
  shows "mset (fst (draws draw (length (menu s)) s)) = mset (menu s)"
  using draws_cyclic [OF assms] map_nth_mod_rotate [OF ok_menu [OF assms(1)], of "unat (counter s)"]
  by (simp add: mset_rotated)

end

text \<open>The flag cycle is a rotor: on a non-empty cycle \<^verbatim>\<open>Next\<close> does not panic.\<close>

definition next_flag :: "FlagCycle \<Rightarrow> TCPFlagSet \<times> FlagCycle" where
  "next_flag c = (case Next c of Inl _ \<Rightarrow> (zero_flags, c) | Inr r \<Rightarrow> r)"

interpretation flag_rotor: rotor next_flag items idx cycle_ok
  by unfold_locales (simp_all add: next_flag_def Next_ok cycle_ok_def)

end
