(* ===== verification/Upstream.thy ===== *)
theory Upstream
  imports Tunnelpool Rotor
begin

text \<open>
  \<^verbatim>\<open>internal/upstream\<close>: the manager of the client's upstream servers. It keeps one pool per
  server, picks a server for every new stream by strategy, checks health by pinging, fails over,
  reconnects dead pools in the background and reloads its configuration while running.

  The map of entries is an association list without duplicate keys (a Go map iterates in any
  order: where the order matters it is an argument). A nil map is the empty list. Entries are
  pointers in the source; \<open>en_id\<close> is their identity, which a running reconnect compares.
\<close>

section \<open>Data\<close>

record entry =
  en_id :: nat
  en_ep :: UpstreamEndpoint
  en_pool :: Pool
  en_healthy :: bool
  en_failures :: int
  en_recovers :: int
  en_lastRTT :: int
  en_reconnecting :: bool

record Manager =
  m_cfg :: Config
  m_health :: HealthSettings
  m_strategy :: strategy
  m_remoteFlags :: "TCPFlagSet list"
  m_entries :: "(string \<times> entry) list"
  m_order :: "string list"
  m_active :: string
  m_rrIdx :: "32 word"
  m_cancelled :: bool
  m_nextId :: nat

definition defaultHealth :: "(string \<Rightarrow> int option) \<Rightarrow> Config \<Rightarrow> HealthSettings" where
  "defaultHealth pd cfg =
     (case c_Upstream cfg of
        Some u \<Rightarrow> health_settings pd u
      | None \<Rightarrow> \<lparr>hs_Interval = 10 * second, hs_Timeout = 3 * second, hs_FailThreshold = 3,
                hs_RecoverThreshold = 2\<rparr>)"

definition defaultStrategy :: "Config \<Rightarrow> strategy" where
  "defaultStrategy cfg =
     (case c_Upstream cfg of Some u \<Rightarrow> NormalizedStrategy u | None \<Rightarrow> Failover)"

definition set_pool :: "string \<Rightarrow> Pool \<Rightarrow> Manager \<Rightarrow> Manager" where
  "set_pool name p m = m\<lparr>m_entries := AList.map_entry name (\<lambda>e. e\<lparr>en_pool := p\<rparr>) (m_entries m)\<rparr>"

section \<open>Picking an upstream\<close>

definition entryHealthyLocked :: "Manager \<Rightarrow> string \<Rightarrow> bool" where
  "entryHealthyLocked m name =
     (case map_of (m_entries m) name of None \<Rightarrow> False | Some e \<Rightarrow> en_healthy e)"

definition healthyNamesLocked :: "Manager \<Rightarrow> string list" where
  "healthyNamesLocked m = filter (entryHealthyLocked m) (m_order m)"

text \<open>Reading a name that has no entry dereferences nil; the callers only pass healthy names.\<close>

definition weight_of :: "Manager \<Rightarrow> string \<Rightarrow> int" where
  "weight_of m name = (case map_of (m_entries m) name of None \<Rightarrow> 0 | Some e \<Rightarrow> ep_Weight (en_ep e))"

definition rtt_of :: "Manager \<Rightarrow> string \<Rightarrow> int" where
  "rtt_of m name = (case map_of (m_entries m) name of None \<Rightarrow> 0 | Some e \<Rightarrow> en_lastRTT e)"

fun weighted_scan :: "Manager \<Rightarrow> string \<Rightarrow> string list \<Rightarrow> int \<Rightarrow> string" where
  "weighted_scan m dflt [] i = dflt"
| "weighted_scan m dflt (name # names) i =
     (let w = weight_of m name
      in if i < w then name else weighted_scan m dflt names (wrap64 (i - w)))"

definition weightedPickLocked :: "Manager \<Rightarrow> string list \<Rightarrow> string \<times> Manager" where
  "weightedPickLocked m healthy =
     (let total = foldl (\<lambda>t name. wrap64 (t + weight_of m name)) 0 healthy
      in if total = 0 then (hd healthy, m)
         else let i = go_mod (int (unat ((m_rrIdx m + 1) - 1))) total
              in (weighted_scan m (hd healthy) healthy i, m\<lparr>m_rrIdx := m_rrIdx m + 1\<rparr>))"

definition Millisecond :: int where "Millisecond = 1000000"

definition latency_step :: "Manager \<Rightarrow> string \<times> int \<Rightarrow> string \<Rightarrow> string \<times> int" where
  "latency_step m b name =
     (let r = rtt_of m name; rtt = (if r = 0 then Millisecond else r)
      in if rtt < snd b then (name, rtt) else b)"

definition latencyPickLocked :: "Manager \<Rightarrow> string list \<Rightarrow> string" where
  "latencyPickLocked m healthy = fst (foldl (latency_step m) (hd healthy, 2 ^ 63 - 1) healthy)"

definition pickLocked :: "Manager \<Rightarrow> string \<times> Manager" where
  "pickLocked m =
     (let healthy = healthyNamesLocked m
      in if healthy = [] then (m_active m, m)
         else (case m_strategy m of
                 RoundRobin \<Rightarrow>
                   (healthy ! (unat ((m_rrIdx m + 1) - 1) mod length healthy),
                    m\<lparr>m_rrIdx := m_rrIdx m + 1\<rparr>)
               | Weighted \<Rightarrow> weightedPickLocked m healthy
               | LeastLatency \<Rightarrow> (latencyPickLocked m healthy, m)
               | Failover \<Rightarrow>
                   if m_active m \<in> set healthy then (m_active m, m)
                   else (hd healthy, m\<lparr>m_active := hd healthy\<rparr>)))"

text \<open>\<^verbatim>\<open>poolFor\<close>: the name whose pool is used (\<open>None\<close> for a nil pool), and the manager after.\<close>

definition poolFor :: "Manager \<Rightarrow> string \<Rightarrow> string option \<times> Manager" where
  "poolFor m bind =
     (if bind \<noteq> [] \<and> entryHealthyLocked m bind then (Some bind, m)
      else let (name, m1) = pickLocked m
           in (if map_of (m_entries m1) name = None then None else Some name, m1))"

definition pool_of :: "Manager \<Rightarrow> string \<Rightarrow> Pool" where
  "pool_of m name = (case map_of (m_entries m) name of None \<Rightarrow> empty_pool | Some e \<Rightarrow> en_pool e)"

section \<open>The opener: default route and bound routes\<close>

definition nil_deref :: error where "nil_deref = Panic ''nil pointer dereference''"

definition mgr_OpenTCP :: "env \<Rightarrow> Manager \<Rightarrow> string \<Rightarrow> world \<Rightarrow> handle res \<times> Manager \<times> world" where
  "mgr_OpenTCP env m target w =
     (case poolFor m [] of
        (None, m1) \<Rightarrow> ((case Parse target of Inl e \<Rightarrow> Inl e | Inr _ \<Rightarrow> Inl nil_deref), m1, w)
      | (Some name, m1) \<Rightarrow>
          (case OpenTCP env (pool_of m1 name) target w of
             (r, p, w1) \<Rightarrow> (r, set_pool name p m1, w1)))"

definition mgr_OpenUDP ::
  "env \<Rightarrow> Manager \<Rightarrow> string \<Rightarrow> string \<Rightarrow> world \<Rightarrow> (handle \<times> bool \<times> 64 word) res \<times> Manager \<times> world" where
  "mgr_OpenUDP env m localAddr target w =
     (case poolFor m [] of
        (None, m1) \<Rightarrow> (Inl nil_deref, m1, w)
      | (Some name, m1) \<Rightarrow>
          (case OpenUDP env (pool_of m1 name) localAddr target w of
             (r, p, w1) \<Rightarrow> (r, set_pool name p m1, w1)))"

definition mgr_CloseUDP :: "Manager \<Rightarrow> 64 word \<Rightarrow> world \<Rightarrow> error option \<times> Manager \<times> world" where
  "mgr_CloseUDP m key w =
     (case poolFor m [] of
        (None, m1) \<Rightarrow> (Some nil_deref, m1, w)
      | (Some name, m1) \<Rightarrow>
          (case CloseUDP (pool_of m1 name) key w of (p, w1) \<Rightarrow> (None, set_pool name p m1, w1)))"

definition mgr_SupportsDatagrams :: "Manager \<Rightarrow> world \<Rightarrow> bool \<times> Manager" where
  "mgr_SupportsDatagrams m w =
     (case poolFor m [] of
        (None, m1) \<Rightarrow> (False, m1)
      | (Some name, m1) \<Rightarrow> (SupportsDatagrams (pool_of m1 name) w, m1))"

definition mgr_OpenUDPDatagram ::
  "env \<Rightarrow> Manager \<Rightarrow> string \<Rightarrow> string \<Rightarrow> nat \<Rightarrow> world
     \<Rightarrow> ((Session \<times> 64 word) \<times> bool) res \<times> Manager \<times> world" where
  "mgr_OpenUDPDatagram env m key target deliver w =
     (case poolFor m [] of
        (None, m1) \<Rightarrow> (Inl (Errorf ''no upstream available'' []), m1, w)
      | (Some name, m1) \<Rightarrow>
          (case OpenUDPDatagram env (pool_of m1 name) key target deliver w of
             (r, p, w1) \<Rightarrow> (r, set_pool name p m1, w1)))"

text \<open>An opener is the manager itself or bound to a server by name.\<close>

datatype opener = DefaultOpener | BoundOpener string

definition ForServer :: "string \<Rightarrow> opener" where
  "ForServer name = (if name = [] then DefaultOpener else BoundOpener name)"

definition bound_OpenTCP :: "env \<Rightarrow> Manager \<Rightarrow> string \<Rightarrow> string \<Rightarrow> world \<Rightarrow> handle res \<times> Manager \<times> world" where
  "bound_OpenTCP env m bind target w =
     (case poolFor m bind of
        (None, m1) \<Rightarrow> (Inl (Errorf ''upstream %q unavailable'' [bind]), m1, w)
      | (Some name, m1) \<Rightarrow>
          (case OpenTCP env (pool_of m1 name) target w of
             (r, p, w1) \<Rightarrow> (r, set_pool name p m1, w1)))"

definition bound_OpenUDP ::
  "env \<Rightarrow> Manager \<Rightarrow> string \<Rightarrow> string \<Rightarrow> string \<Rightarrow> world
     \<Rightarrow> (handle \<times> bool \<times> 64 word) res \<times> Manager \<times> world" where
  "bound_OpenUDP env m bind localAddr target w =
     (case poolFor m bind of
        (None, m1) \<Rightarrow> (Inl (Errorf ''upstream %q unavailable'' [bind]), m1, w)
      | (Some name, m1) \<Rightarrow>
          (case OpenUDP env (pool_of m1 name) localAddr target w of
             (r, p, w1) \<Rightarrow> (r, set_pool name p m1, w1)))"

definition bound_CloseUDP :: "Manager \<Rightarrow> string \<Rightarrow> 64 word \<Rightarrow> world \<Rightarrow> Manager \<times> world" where
  "bound_CloseUDP m bind key w =
     (case poolFor m bind of
        (None, m1) \<Rightarrow> (m1, w)
      | (Some name, m1) \<Rightarrow>
          (case CloseUDP (pool_of m1 name) key w of (p, w1) \<Rightarrow> (set_pool name p m1, w1)))"

definition bound_SupportsDatagrams :: "Manager \<Rightarrow> string \<Rightarrow> world \<Rightarrow> bool \<times> Manager" where
  "bound_SupportsDatagrams m bind w =
     (case poolFor m bind of
        (None, m1) \<Rightarrow> (False, m1)
      | (Some name, m1) \<Rightarrow> (SupportsDatagrams (pool_of m1 name) w, m1))"

definition bound_OpenUDPDatagram ::
  "env \<Rightarrow> Manager \<Rightarrow> string \<Rightarrow> string \<Rightarrow> string \<Rightarrow> nat \<Rightarrow> world
     \<Rightarrow> ((Session \<times> 64 word) \<times> bool) res \<times> Manager \<times> world" where
  "bound_OpenUDPDatagram env m bind key target deliver w =
     (case poolFor m bind of
        (None, m1) \<Rightarrow> (Inl (Errorf ''upstream %q unavailable'' [bind]), m1, w)
      | (Some name, m1) \<Rightarrow>
          (case OpenUDPDatagram env (pool_of m1 name) key target deliver w of
             (r, p, w1) \<Rightarrow> (r, set_pool name p m1, w1)))"

section \<open>Health checks\<close>

definition failoverLocked :: "Manager \<Rightarrow> Manager" where
  "failoverLocked m =
     (case find (entryHealthyLocked m) (m_order m) of
        Some name \<Rightarrow> if m_active m \<noteq> name then m\<lparr>m_active := name\<rparr> else m
      | None \<Rightarrow> m)"

text \<open>What a ping result does to the counters and the health of an entry.\<close>

definition entry_failed :: "HealthSettings \<Rightarrow> entry \<Rightarrow> entry" where
  "entry_failed hs e =
     (let e1 = e\<lparr>en_failures := en_failures e + 1, en_recovers := 0\<rparr>
      in if en_healthy e1 \<and> en_failures e1 \<ge> hs_FailThreshold hs
         then e1\<lparr>en_healthy := False\<rparr> else e1)"

definition entry_alive :: "HealthSettings \<Rightarrow> int \<Rightarrow> entry \<Rightarrow> entry" where
  "entry_alive hs rtt e =
     (let e1 = e\<lparr>en_lastRTT := rtt, en_failures := 0\<rparr>
      in if en_healthy e1 then e1
         else let e2 = e1\<lparr>en_recovers := en_recovers e1 + 1\<rparr>
              in if en_recovers e2 \<ge> hs_RecoverThreshold hs
                 then e2\<lparr>en_healthy := True, en_recovers := 0\<rparr> else e2)"

text \<open>One entry of a health check: the manager after, and whether a reconnect is started.\<close>

definition check_entry :: "Manager \<Rightarrow> string \<Rightarrow> error option \<Rightarrow> int \<Rightarrow> Manager \<times> bool" where
  "check_entry m name err rtt =
     (case map_of (m_entries m) name of
        None \<Rightarrow> (m, False)
      | Some e \<Rightarrow>
          (case err of
             None \<Rightarrow> (m\<lparr>m_entries := AList.update name (entry_alive (m_health m) rtt e) (m_entries m)\<rparr>, False)
           | Some _ \<Rightarrow>
               let e' = entry_failed (m_health m) e;
                   m1 = m\<lparr>m_entries := AList.update name e' (m_entries m)\<rparr>;
                   m2 = (if en_healthy e \<and> \<not> en_healthy e' \<and> m_active m1 = name
                         then failoverLocked m1 else m1)
               in (m2, \<not> en_healthy e' \<and> \<not> en_reconnecting e')))"

text \<open>A whole check, over the names in the order the map iteration yields them: the manager, the
  names a reconnect is started for, and the world.\<close>

fun runHealthCheck ::
  "env \<Rightarrow> string list \<Rightarrow> Manager \<Rightarrow> world \<Rightarrow> Manager \<times> string list \<times> world" where
  "runHealthCheck env [] m w = (m, [], w)"
| "runHealthCheck env (name # names) m w =
     (case PingWithTimeout env (pool_of m name) w of
        (err, p, w1) \<Rightarrow>
          (case check_entry (set_pool name p m) name err (e_rtt env w1) of
             (m1, start) \<Rightarrow>
               (case runHealthCheck env names m1 w1 of
                  (m2, started, w2) \<Rightarrow> (m2, (if start then name # started else started), w2))))"

fun pingAll :: "env \<Rightarrow> string list \<Rightarrow> Manager \<Rightarrow> world \<Rightarrow> error option \<times> Manager \<times> world" where
  "pingAll env [] m w = (None, m, w)"
| "pingAll env (name # names) m w =
     (case PingWithTimeout env (pool_of m name) w of
        (err, p, w1) \<Rightarrow>
          (case pingAll env names (set_pool name p m) w1 of
             (first, m1, w2) \<Rightarrow> ((case err of None \<Rightarrow> first | Some e \<Rightarrow> Some e), m1, w2)))"

section \<open>Reconnecting\<close>

text \<open>A running reconnect: the name, the entry it marked as reconnecting, and its back-off.\<close>

record reconn =
  rc_name :: string
  rc_entry :: nat
  rc_backoff :: int

definition reconnect_begin :: "Manager \<Rightarrow> string \<Rightarrow> (Manager \<times> reconn) option" where
  "reconnect_begin m name =
     (case map_of (m_entries m) name of
        None \<Rightarrow> None
      | Some e \<Rightarrow>
          if en_reconnecting e then None
          else Some (m\<lparr>m_entries := AList.update name (e\<lparr>en_reconnecting := True\<rparr>) (m_entries m)\<rparr>,
                     \<lparr>rc_name = name, rc_entry = en_id e, rc_backoff = second\<rparr>))"

definition reconnect_end :: "Manager \<Rightarrow> reconn \<Rightarrow> Manager" where
  "reconnect_end m rc =
     m\<lparr>m_entries := map (\<lambda>(n, e). (n, if en_id e = rc_entry rc then e\<lparr>en_reconnecting := False\<rparr> else e))
                      (m_entries m)\<rparr>"

definition next_backoff :: "int \<Rightarrow> int" where
  "next_backoff b = (if b < 30 * second then b * 2 else b)"

text \<open>The locked part at the head of the loop: the endpoint to dial, or \<open>None\<close> to stop.\<close>

definition reconnect_target :: "Manager \<Rightarrow> string \<Rightarrow> world \<Rightarrow> UpstreamEndpoint option" where
  "reconnect_target m name w =
     (if m_cancelled m then None
      else (case map_of (m_entries m) name of
              None \<Rightarrow> None
            | Some cur \<Rightarrow> if en_healthy cur \<and> Alive (en_pool cur) w then None else Some (en_ep cur)))"

text \<open>Dialling and pinging a replacement pool, without the lock.\<close>

definition reconnect_dial ::
  "crypto \<Rightarrow> env \<Rightarrow> Config \<Rightarrow> TCPFlagSet list \<Rightarrow> UpstreamEndpoint \<Rightarrow> world \<Rightarrow> Pool res \<times> world" where
  "reconnect_dial cr env cfg flags ep w =
     (case pool_Dial cr env cfg (ep_Addr ep) (ep_Transport ep) flags w of
        (Inl e, w1) \<Rightarrow> (Inl e, w1)
      | (Inr p, w1) \<Rightarrow>
          (case PingWithTimeout env p w1 of
             (Some e, p1, w2) \<Rightarrow> (Inl e, snd (pool_Close p1 w2))
           | (None, p1, w2) \<Rightarrow> (Inr p1, w2)))"

text \<open>Swapping the new pool in; when the entry is gone the new pool is closed.\<close>

definition reconnect_swap :: "Manager \<Rightarrow> string \<Rightarrow> Pool \<Rightarrow> world \<Rightarrow> Manager \<times> world" where
  "reconnect_swap m name newPool w =
     (case map_of (m_entries m) name of
        None \<Rightarrow> (m, snd (pool_Close newPool w))
      | Some cur \<Rightarrow>
          let m1 = m\<lparr>m_entries := AList.update name
                      (cur\<lparr>en_pool := newPool, en_healthy := True, en_failures := 0, en_recovers := 0\<rparr>)
                      (m_entries m)\<rparr>;
              m2 = (if m_active m1 = [] \<or> \<not> entryHealthyLocked m1 (m_active m1)
                    then m1\<lparr>m_active := name\<rparr> else m1)
          in (m2, snd (pool_Close (en_pool cur) w)))"

section \<open>Construction, reload, close\<close>

definition close_entries :: "(string \<times> entry) list \<Rightarrow> world \<Rightarrow> world" where
  "close_entries es w = fold (\<lambda>(n, e) w. snd (pool_Close (en_pool e) w)) es w"

definition new_entry :: "nat \<Rightarrow> UpstreamEndpoint \<Rightarrow> Pool \<Rightarrow> entry" where
  "new_entry i ep p = \<lparr>en_id = i, en_ep = ep, en_pool = p, en_healthy = True, en_failures = 0,
     en_recovers = 0, en_lastRTT = 0, en_reconnecting = False\<rparr>"

text \<open>The loop over the endpoints that \<^verbatim>\<open>NewManager\<close> and \<^verbatim>\<open>Reload\<close> share: when a dial fails, the
  pools in the map are closed.\<close>

fun build_entries ::
  "crypto \<Rightarrow> env \<Rightarrow> Config \<Rightarrow> TCPFlagSet list \<Rightarrow> UpstreamEndpoint list \<Rightarrow> nat
     \<Rightarrow> (string \<times> entry) list \<Rightarrow> string list \<Rightarrow> world
     \<Rightarrow> ((string \<times> entry) list \<times> string list) res \<times> world" where
  "build_entries cr env cfg flags [] i es order w = (Inr (es, order), w)"
| "build_entries cr env cfg flags (ep # eps) i es order w =
     (case pool_Dial cr env cfg (ep_Addr ep) (ep_Transport ep) flags w of
        (Inl e, w1) \<Rightarrow> (Inl (Wrapf ''upstream %q: %w'' [ep_Name ep] e), close_entries es w1)
      | (Inr p, w1) \<Rightarrow>
          build_entries cr env cfg flags eps (i + 1) (AList.update (ep_Name ep) (new_entry i ep p) es)
            (order @ [ep_Name ep]) w1)"

definition NewManager ::
  "crypto \<Rightarrow> env \<Rightarrow> Config \<Rightarrow> TCPFlagSet list \<Rightarrow> world \<Rightarrow> Manager res \<times> world" where
  "NewManager cr env cfg flags w =
     (case UpstreamEndpoints cfg of
        Inl e \<Rightarrow> (Inl e, w)
      | Inr eps \<Rightarrow>
          (case build_entries cr env cfg flags eps 0 [] [] w of
             (Inl e, w1) \<Rightarrow> (Inl e, w1)
           | (Inr (es, order), w1) \<Rightarrow>
               let m = \<lparr>m_cfg = cfg, m_health = defaultHealth (e_pd env) cfg,
                        m_strategy = defaultStrategy cfg, m_remoteFlags = flags, m_entries = es,
                        m_order = order, m_active = (if order = [] then [] else hd order),
                        m_rrIdx = 0, m_cancelled = False, m_nextId = length eps\<rparr>
               in (case pingAll env (map fst es) m w1 of (_, m1, w2) \<Rightarrow> (Inr m1, w2))))"

definition mgr_Close :: "Manager \<Rightarrow> world \<Rightarrow> Manager \<times> world" where
  "mgr_Close m w =
     (m\<lparr>m_cancelled := True, m_entries := [], m_order := []\<rparr>, close_entries (m_entries m) w)"

text \<open>The locked part of \<^verbatim>\<open>Reload\<close> and the closing of the old pools after it.\<close>

definition reload_swap ::
  "env \<Rightarrow> Config \<Rightarrow> TCPFlagSet list \<Rightarrow> (string \<times> entry) list \<Rightarrow> string list \<Rightarrow> Manager \<Rightarrow> world
     \<Rightarrow> Manager \<times> world" where
  "reload_swap env cfg flags es order m w =
     (m\<lparr>m_cfg := cfg, m_health := defaultHealth (e_pd env) cfg,
        m_strategy := defaultStrategy cfg, m_remoteFlags := flags, m_entries := es,
        m_order := order, m_active := (if order \<noteq> [] then hd order else m_active m)\<rparr>,
      close_entries (m_entries m) w)"

definition mgr_Reload ::
  "crypto \<Rightarrow> env \<Rightarrow> Config \<Rightarrow> TCPFlagSet list \<Rightarrow> Manager \<Rightarrow> world \<Rightarrow> error option \<times> Manager \<times> world" where
  "mgr_Reload cr env cfg flags m w =
     (case UpstreamEndpoints cfg of
        Inl e \<Rightarrow> (Some e, m, w)
      | Inr eps \<Rightarrow>
          (let m0 = m\<lparr>m_nextId := m_nextId m + length eps\<rparr>
           in case build_entries cr env cfg flags eps (m_nextId m) [] [] w of
                (Inl e, w1) \<Rightarrow> (Some e, m0, w1)
              | (Inr (es, order), w1) \<Rightarrow>
                  (case reload_swap env cfg flags es order m0 w1 of (m1, w2) \<Rightarrow> (None, m1, w2))))"

section \<open>Status and benchmark (status.go, bench.go)\<close>

text \<open>The round-trip time is kept in microseconds (the source divides by 1000 as a float).\<close>

record ServerStatus =
  sv_Name :: string
  sv_Addr :: string
  sv_Healthy :: bool
  sv_Active :: bool
  sv_RTTMicros :: int
  sv_Failures :: int
  sv_Sessions :: nat

definition ActiveName :: "Manager \<Rightarrow> string" where
  "ActiveName m = m_active m"

definition Strategy :: "Manager \<Rightarrow> strategy" where
  "Strategy m = m_strategy m"

definition Snapshot :: "Manager \<Rightarrow> ServerStatus list" where
  "Snapshot m =
     List.map_filter (\<lambda>name.
       map_option (\<lambda>e.
         \<lparr>sv_Name = name, sv_Addr = udp_addr_string (ep_Addr (en_ep e)), sv_Healthy = en_healthy e,
          sv_Active = (name = m_active m),
          sv_RTTMicros = (if en_lastRTT e > 0 then en_lastRTT e div 1000 else 0),
          sv_Failures = en_failures e, sv_Sessions = Count (en_pool e)\<rparr>)
        (map_of (m_entries m) name)) (m_order m)"

record BenchResult =
  br_Name :: string
  br_Addr :: string
  br_RTT :: int
  br_OK :: bool
  br_Error :: "error option"

fun bench_loop :: "env \<Rightarrow> string list \<Rightarrow> Manager \<Rightarrow> world \<Rightarrow> BenchResult list \<times> Manager \<times> world" where
  "bench_loop env [] m w = ([], m, w)"
| "bench_loop env (name # names) m w =
     (case map_of (m_entries m) name of
        None \<Rightarrow> bench_loop env names m w
      | Some e \<Rightarrow>
          (case PingWithTimeout env (en_pool e) w of
             (err, p, w1) \<Rightarrow>
               (case bench_loop env names (set_pool name p m) w1 of
                  (rs, m2, w2) \<Rightarrow>
                    (\<lparr>br_Name = name, br_Addr = udp_addr_string (ep_Addr (en_ep e)),
                      br_RTT = e_rtt env w1, br_OK = (err = None), br_Error = err\<rparr> # rs, m2, w2))))"

definition Benchmark :: "env \<Rightarrow> Manager \<Rightarrow> world \<Rightarrow> BenchResult list \<times> Manager \<times> world" where
  "Benchmark env m w = bench_loop env (m_order m) m w"

section \<open>Picking\<close>

lemma healthy_names: "n \<in> set (healthyNamesLocked m) \<longleftrightarrow> n \<in> set (m_order m) \<and> entryHealthyLocked m n"
  by (auto simp: healthyNamesLocked_def)

lemma weighted_scan_in: "weighted_scan m d ns i \<in> insert d (set ns)"
  by (induction ns arbitrary: i) (auto simp: Let_def)

lemma latency_fold_in:
  "fst (foldl (latency_step m) b ns) \<in> insert (fst b) (set ns)"
proof (induction ns arbitrary: b)
  case Nil
  then show ?case by simp
next
  case (Cons n ns)
  have "fst (latency_step m b n) \<in> {n, fst b}" by (auto simp: latency_step_def Let_def)
  with Cons.IH [of "latency_step m b n"] show ?case by auto
qed

lemma pickLocked_in:
  assumes "healthyNamesLocked m \<noteq> []" and "pickLocked m = (n, m')"
  shows "n \<in> set (healthyNamesLocked m)"
proof -
  let ?h = "healthyNamesLocked m"
  have hd: "hd ?h \<in> set ?h" using assms(1) by simp
  show ?thesis
  proof (cases "m_strategy m")
    case Failover
    with assms hd show ?thesis by (auto simp: pickLocked_def Let_def split: if_splits)
  next
    case RoundRobin
    with assms show ?thesis by (auto simp: pickLocked_def Let_def)
  next
    case Weighted
    with assms hd weighted_scan_in [of m "hd ?h" ?h] show ?thesis
      by (auto simp: pickLocked_def Let_def weightedPickLocked_def insert_absorb split: if_splits)
  next
    case LeastLatency
    with assms hd latency_fold_in [of m "(hd ?h, 2 ^ 63 - 1)" ?h] show ?thesis
      by (auto simp: pickLocked_def Let_def latencyPickLocked_def insert_absorb)
  qed
qed

text \<open>Picking changes the counter and, for failover, the active name; nothing else.\<close>

lemma pickLocked_frame:
  assumes "pickLocked m = (n, m')"
  shows "\<exists>a i. m' = m\<lparr>m_active := a, m_rrIdx := i\<rparr> \<and> (a = m_active m \<or> a \<in> set (healthyNamesLocked m))"
proof -
  have id: "m = m\<lparr>m_active := m_active m, m_rrIdx := m_rrIdx m\<rparr>" by simp
  have idx: "m\<lparr>m_rrIdx := i\<rparr> = m\<lparr>m_active := m_active m, m_rrIdx := i\<rparr>" for i by simp
  have act: "m\<lparr>m_active := a\<rparr> = m\<lparr>m_active := a, m_rrIdx := m_rrIdx m\<rparr>" for a by simp
  show ?thesis
    using assms unfolding pickLocked_def Let_def weightedPickLocked_def
    by (auto split: if_splits strategy.splits) (use id idx act in \<open>metis hd_in_set\<close>)+
qed

lemma pickLocked_entries [simp]:
  "pickLocked m = (n, m') \<Longrightarrow> m_entries m' = m_entries m"
  "pickLocked m = (n, m') \<Longrightarrow> m_order m' = m_order m"
  by (auto dest!: pickLocked_frame)

lemma entryHealthyLocked_cong: "m_entries m' = m_entries m \<Longrightarrow> entryHealthyLocked m' = entryHealthyLocked m"
  by (rule ext) (simp add: entryHealthyLocked_def)

lemma entryHealthy_Some: "entryHealthyLocked m n \<Longrightarrow> \<exists>e. map_of (m_entries m) n = Some e \<and> en_healthy e"
  by (auto simp: entryHealthyLocked_def split: option.splits)

subsection \<open>Round robin and weights\<close>

definition rr_ok :: "Manager \<Rightarrow> bool" where
  "rr_ok m \<longleftrightarrow> m_strategy m = RoundRobin \<and> healthyNamesLocked m \<noteq> []"

lemma healthyNames_frame [simp]:
  "healthyNamesLocked (m\<lparr>m_rrIdx := i\<rparr>) = healthyNamesLocked m"
  "healthyNamesLocked (m\<lparr>m_active := a\<rparr>) = healthyNamesLocked m"
  by (simp_all add: healthyNamesLocked_def entryHealthyLocked_cong [of "m\<lparr>m_rrIdx := i\<rparr>" m]
      entryHealthyLocked_cong [of "m\<lparr>m_active := a\<rparr>" m])

interpretation rr: rotor pickLocked healthyNamesLocked m_rrIdx rr_ok
  by unfold_locales (simp_all add: rr_ok_def pickLocked_def Let_def)

text \<open>A weighted choice is a turn through the list in which every name stands as often as its
  weight says.\<close>

definition weight_menu :: "Manager \<Rightarrow> string list" where
  "weight_menu m = concat (map (\<lambda>n. replicate (nat (weight_of m n)) n) (healthyNamesLocked m))"

definition total_weight :: "Manager \<Rightarrow> int" where
  "total_weight m = sum_list (map (weight_of m) (healthyNamesLocked m))"

definition weights_ok :: "Manager \<Rightarrow> bool" where
  "weights_ok m \<longleftrightarrow> m_strategy m = Weighted \<and> healthyNamesLocked m \<noteq> []
     \<and> (\<forall>n \<in> set (healthyNamesLocked m). 1 \<le> weight_of m n) \<and> total_weight m < 2 ^ 63"

lemma sum_list_nonneg_le:
  "(\<forall>n \<in> set ns. 0 \<le> (f n :: int)) \<Longrightarrow> 0 \<le> sum_list (map f ns)"
  by (induction ns) auto

lemma fold_weights:
  assumes "\<forall>n \<in> set ns. 0 \<le> weight_of m n" and "0 \<le> t" and "t + sum_list (map (weight_of m) ns) < 2 ^ 63"
  shows "foldl (\<lambda>t name. wrap64 (t + weight_of m name)) t ns = t + sum_list (map (weight_of m) ns)"
  using assms
proof (induction ns arbitrary: t)
  case Nil
  then show ?case by simp
next
  case (Cons n ns)
  have "0 \<le> sum_list (map (weight_of m) ns)" using Cons.prems(1) by (intro sum_list_nonneg_le) auto
  then have "int64 (t + weight_of m n)" using Cons.prems by (auto simp: int64_def)
  with Cons show ?case by (auto simp: add.assoc)
qed

lemma weighted_scan_nth:
  assumes "\<forall>n \<in> set ns. 0 \<le> weight_of m n" and "0 \<le> i" and "i < sum_list (map (weight_of m) ns)" and "i < 2 ^ 63"
  shows "weighted_scan m d ns i = concat (map (\<lambda>n. replicate (nat (weight_of m n)) n) ns) ! nat i"
  using assms
proof (induction ns arbitrary: i)
  case Nil
  then show ?case by simp
next
  case (Cons n ns)
  show ?case
  proof (cases "i < weight_of m n")
    case True
    with Cons.prems(2) show ?thesis by (simp add: nth_append)
  next
    case False
    have "int64 (i - weight_of m n)"
      using Cons.prems False by (auto simp: int64_def)
    with Cons False show ?thesis by (auto simp: nth_append nat_diff_distrib Let_def)
  qed
qed

lemma length_weight_menu:
  assumes "\<forall>n \<in> set (healthyNamesLocked m). 0 \<le> weight_of m n"
  shows "int (length (weight_menu m)) = total_weight m"
proof -
  have "\<forall>n \<in> set ns. 0 \<le> weight_of m n \<Longrightarrow>
      int (length (concat (map (\<lambda>n. replicate (nat (weight_of m n)) n) ns))) = sum_list (map (weight_of m) ns)" for ns
    by (induction ns) auto
  with assms show ?thesis by (simp add: weight_menu_def total_weight_def)
qed

lemma weight_of_frame [simp]: "weight_of (m\<lparr>m_rrIdx := i\<rparr>) = weight_of m"
  by (rule ext) (simp add: weight_of_def)

lemma weight_frame [simp]:
  "weight_menu (m\<lparr>m_rrIdx := i\<rparr>) = weight_menu m"
  "total_weight (m\<lparr>m_rrIdx := i\<rparr>) = total_weight m" "weights_ok (m\<lparr>m_rrIdx := i\<rparr>) = weights_ok m"
  by (simp_all add: weight_menu_def total_weight_def weights_ok_def)

lemma weights_total_pos:
  assumes "weights_ok m"
  shows "0 < total_weight m"
proof -
  obtain n ns where h: "healthyNamesLocked m = n # ns"
    using assms by (cases "healthyNamesLocked m") (auto simp: weights_ok_def)
  have "\<forall>k \<in> set (n # ns). 1 \<le> weight_of m k" using assms by (simp add: weights_ok_def h)
  then have "0 \<le> sum_list (map (weight_of m) ns)" "1 \<le> weight_of m n"
    using sum_list_nonneg_le [of ns "weight_of m"] by fastforce+
  then show ?thesis by (simp add: total_weight_def h)
qed

lemma pickLocked_weighted:
  assumes "weights_ok m"
  shows "pickLocked m = (weight_menu m ! (unat (m_rrIdx m) mod length (weight_menu m)),
                         m\<lparr>m_rrIdx := m_rrIdx m + 1\<rparr>)"
proof -
  let ?h = "healthyNamesLocked m" and ?i = "int (unat (m_rrIdx m))"
  have pos: "\<forall>n \<in> set ?h. 0 \<le> weight_of m n" using assms by (fastforce simp: weights_ok_def)
  have T: "0 < total_weight m" by (rule weights_total_pos [OF assms])
  have lt: "total_weight m < 2 ^ 63" using assms by (simp add: weights_ok_def)
  have tot: "foldl (\<lambda>t name. wrap64 (t + weight_of m name)) 0 ?h = total_weight m"
    using fold_weights [OF pos, of 0] lt by (simp add: total_weight_def)
  have i: "0 \<le> ?i mod total_weight m" "?i mod total_weight m < total_weight m"
    using T by simp_all
  have "weighted_scan m (hd ?h) ?h (?i mod total_weight m) = weight_menu m ! nat (?i mod total_weight m)"
    unfolding weight_menu_def
    by (rule weighted_scan_nth [OF pos]) (use i lt in \<open>simp_all add: total_weight_def\<close>)
  moreover have "nat (?i mod total_weight m) = unat (m_rrIdx m) mod length (weight_menu m)"
    unfolding length_weight_menu [OF pos, symmetric] zmod_int [symmetric] nat_int by (rule refl)
  ultimately show ?thesis
    using assms T by (simp add: pickLocked_def weights_ok_def weightedPickLocked_def tot go_mod_nonneg)
qed

interpretation weighted: rotor pickLocked weight_menu m_rrIdx weights_ok
proof unfold_locales
  fix m
  assume w: "weights_ok m"
  have "\<forall>n \<in> set (healthyNamesLocked m). 0 \<le> weight_of m n" using w by (fastforce simp: weights_ok_def)
  from length_weight_menu [OF this] weights_total_pos [OF w] show "weight_menu m \<noteq> []" by auto
qed (simp_all add: pickLocked_weighted)

lemma count_weight_menu:
  assumes "distinct (healthyNamesLocked m)" and "n \<in> set (healthyNamesLocked m)"
  shows "count (mset (weight_menu m)) n = nat (weight_of m n)"
proof -
  have "distinct ns \<Longrightarrow> count (mset (concat (map (\<lambda>n. replicate (nat (weight_of m n)) n) ns))) n
      = (if n \<in> set ns then nat (weight_of m n) else 0)" for ns
    by (induction ns) (auto simp: count_mset_0_iff)
  with assms show ?thesis by (simp add: weight_menu_def)
qed

subsection \<open>Least latency\<close>

definition eff_rtt :: "Manager \<Rightarrow> string \<Rightarrow> int" where
  "eff_rtt m n = (if rtt_of m n = 0 then Millisecond else rtt_of m n)"

lemma latency_fold_min:
  assumes "foldl (latency_step m) b ns = (x, r)"
  shows "r \<le> snd b \<and> (\<forall>n \<in> set ns. r \<le> eff_rtt m n) \<and> ((x, r) = b \<or> (x \<in> set ns \<and> r = eff_rtt m x))"
  using assms
proof (induction ns arbitrary: b)
  case Nil
  then show ?case by simp
next
  case (Cons n ns)
  have st: "latency_step m b n = (if eff_rtt m n < snd b then (n, eff_rtt m n) else b)"
    by (simp add: latency_step_def eff_rtt_def)
  from Cons.IH [of "latency_step m b n"] Cons.prems st show ?case
    by (cases "eff_rtt m n < snd b") auto
qed

lemma latencyPick_min:
  assumes "\<forall>n \<in> set ns. eff_rtt m n < 2 ^ 63 - 1" and "n \<in> set ns"
  shows "latencyPickLocked m ns \<in> set ns \<and> eff_rtt m (latencyPickLocked m ns) \<le> eff_rtt m n"
proof -
  obtain x r where f: "foldl (latency_step m) (hd ns, 2 ^ 63 - 1) ns = (x, r)" by fastforce
  then have x: "latencyPickLocked m ns = x" by (simp add: latencyPickLocked_def)
  from latency_fold_min [OF f] assms show ?thesis unfolding x by force
qed

section \<open>The manager's invariant\<close>

definition entry_ok :: "HealthSettings \<Rightarrow> entry \<Rightarrow> bool" where
  "entry_ok hs e \<longleftrightarrow> 0 \<le> en_failures e
     \<and> (en_healthy e \<longrightarrow> en_failures e < hs_FailThreshold hs \<and> en_recovers e = 0)
     \<and> (\<not> en_healthy e \<longrightarrow> 0 \<le> en_recovers e \<and> en_recovers e < hs_RecoverThreshold hs)"

definition health_ok :: "HealthSettings \<Rightarrow> bool" where
  "health_ok hs \<longleftrightarrow> 1 \<le> hs_FailThreshold hs \<and> 1 \<le> hs_RecoverThreshold hs"

definition mgr_ok :: "Manager \<Rightarrow> bool" where
  "mgr_ok m \<longleftrightarrow> health_ok (m_health m) \<and> distinct (map fst (m_entries m))
     \<and> set (m_order m) = fst ` set (m_entries m)
     \<and> (m_order m \<noteq> [] \<longrightarrow> m_active m \<in> set (m_order m))
     \<and> (\<forall>(n, e) \<in> set (m_entries m). entry_ok (m_health m) e \<and> ep_Name (en_ep e) = n)"

lemma entry_failed_ok: "health_ok hs \<Longrightarrow> entry_ok hs e \<Longrightarrow> entry_ok hs (entry_failed hs e)"
  by (auto simp: entry_failed_def entry_ok_def health_ok_def Let_def)

lemma entry_alive_ok: "health_ok hs \<Longrightarrow> entry_ok hs e \<Longrightarrow> entry_ok hs (entry_alive hs rtt e)"
  by (auto simp: entry_alive_def entry_ok_def health_ok_def Let_def)

lemma entry_ep [simp]:
  "en_ep (entry_failed hs e) = en_ep e" "en_ep (entry_alive hs rtt e) = en_ep e"
  "en_pool (entry_failed hs e) = en_pool e" "en_pool (entry_alive hs rtt e) = en_pool e"
  by (auto simp: entry_failed_def entry_alive_def Let_def)

text \<open>Replacing an entry by one that is in order keeps the manager in order.\<close>

lemma map_of_entries: "mgr_ok m \<Longrightarrow> map_of (m_entries m) n = Some e \<Longrightarrow> entry_ok (m_health m) e \<and> ep_Name (en_ep e) = n"
  by (auto simp: mgr_ok_def dest: map_of_SomeD)

lemma update_present:
  assumes "map_of es n = Some e"
  shows "map fst (AList.update n e' es) = map fst es"
    and "(k, x) \<in> set (AList.update n e' es) \<Longrightarrow> distinct (map fst es) \<Longrightarrow> (k = n \<and> x = e') \<or> (k, x) \<in> set es"
proof -
  show "map fst (AList.update n e' es) = map fst es" using assms by (induction es) (auto split: if_splits)
  show "(k, x) \<in> set (AList.update n e' es) \<Longrightarrow> distinct (map fst es) \<Longrightarrow> (k = n \<and> x = e') \<or> (k, x) \<in> set es"
    by (induction es) (auto split: if_splits)
qed

lemma mgr_ok_entries:
  assumes "mgr_ok m" and keys: "map fst es = map fst (m_entries m)"
    and es: "\<And>k x. (k, x) \<in> set es \<Longrightarrow> entry_ok (m_health m) x \<and> ep_Name (en_ep x) = k"
  shows "mgr_ok (m\<lparr>m_entries := es\<rparr>)"
proof -
  have "fst ` set es = fst ` set (m_entries m)" using arg_cong [OF keys, of set] by simp
  then show ?thesis using assms(1) keys es by (auto simp: mgr_ok_def)
qed

lemma mgr_ok_in: "mgr_ok m \<Longrightarrow> (k, x) \<in> set (m_entries m) \<Longrightarrow> entry_ok (m_health m) x \<and> ep_Name (en_ep x) = k"
  by (auto simp: mgr_ok_def)

lemma mgr_ok_update:
  assumes m: "mgr_ok m" and e: "map_of (m_entries m) n = Some e" and e': "entry_ok (m_health m) e'" "en_ep e' = en_ep e"
  shows "mgr_ok (m\<lparr>m_entries := AList.update n e' (m_entries m)\<rparr>)"
proof (rule mgr_ok_entries [OF m])
  show "map fst (AList.update n e' (m_entries m)) = map fst (m_entries m)"
    by (rule update_present(1) [OF e])
  fix k x
  assume kx: "(k, x) \<in> set (AList.update n e' (m_entries m))"
  have "distinct (map fst (m_entries m))" using m by (simp add: mgr_ok_def)
  from update_present(2) [OF e kx this] show "entry_ok (m_health m) x \<and> ep_Name (en_ep x) = k"
    using e' map_of_entries [OF m e] mgr_ok_in [OF m] by metis
qed

lemma map_entry_keys: "map fst (AList.map_entry n f es) = map fst es"
  by (induction es) auto

lemma map_entry_in:
  "(k, x) \<in> set (AList.map_entry n f es) \<Longrightarrow> \<exists>e. (k, e) \<in> set es \<and> (x = e \<or> x = f e)"
  by (induction es) (auto split: if_splits)

lemma mgr_ok_map_entry:
  assumes m: "mgr_ok m" and f: "\<And>e. entry_ok (m_health m) e \<Longrightarrow> entry_ok (m_health m) (f e)"
    and ep: "\<And>e. en_ep (f e) = en_ep e"
  shows "mgr_ok (m\<lparr>m_entries := AList.map_entry n f (m_entries m)\<rparr>)"
proof (rule mgr_ok_entries [OF m map_entry_keys])
  fix k x
  assume "(k, x) \<in> set (AList.map_entry n f (m_entries m))"
  then show "entry_ok (m_health m) x \<and> ep_Name (en_ep x) = k"
    using map_entry_in [of k x n f] mgr_ok_in [OF m] f ep by metis
qed

lemma set_pool_ok [go_inv]: "mgr_ok m \<Longrightarrow> mgr_ok (set_pool n p m)"
  unfolding set_pool_def by (rule mgr_ok_map_entry) (auto simp: entry_ok_def)

lemma active_ok:
  "mgr_ok m \<Longrightarrow> a \<in> set (m_order m) \<Longrightarrow> mgr_ok (m\<lparr>m_active := a\<rparr>)"
  by (auto simp: mgr_ok_def)

lemma failoverLocked_ok [go_inv]: "mgr_ok m \<Longrightarrow> mgr_ok (failoverLocked m)"
  by (auto simp: failoverLocked_def find_Some_iff intro!: active_ok split: option.splits)

lemma pickLocked_ok [go_inv]:
  assumes "mgr_ok m" and "pickLocked m = (n, m')"
  shows "mgr_ok m'"
proof -
  obtain a i where m': "m' = m\<lparr>m_active := a, m_rrIdx := i\<rparr>" "a = m_active m \<or> a \<in> set (healthyNamesLocked m)"
    using pickLocked_frame [OF assms(2)] by blast
  then have "mgr_ok (m\<lparr>m_active := a\<rparr>)"
    using assms(1) by (auto simp: healthy_names intro: active_ok)
  then show ?thesis unfolding m'(1) by (auto simp: mgr_ok_def)
qed

lemma poolFor_ok [go_inv]: "mgr_ok m \<Longrightarrow> poolFor m b = (r, m') \<Longrightarrow> mgr_ok m'"
  by (auto simp: poolFor_def Let_def split: if_splits prod.splits intro: pickLocked_ok)

lemma check_entry_ok [go_inv]:
  assumes m: "mgr_ok m" and c: "check_entry m n err rtt = (m', s)"
  shows "mgr_ok m'"
proof (cases "map_of (m_entries m) n")
  case None
  with m c show ?thesis by (simp add: check_entry_def)
next
  case (Some e)
  have h: "health_ok (m_health m)" using m by (simp add: mgr_ok_def)
  have e: "entry_ok (m_health m) e" using map_of_entries [OF m Some] by simp
  have "mgr_ok (m\<lparr>m_entries := AList.update n (entry_failed (m_health m) e) (m_entries m)\<rparr>)"
    by (rule mgr_ok_update [OF m Some]) (simp_all add: entry_failed_ok [OF h e])
  moreover have "mgr_ok (m\<lparr>m_entries := AList.update n (entry_alive (m_health m) rtt e) (m_entries m)\<rparr>)"
    by (rule mgr_ok_update [OF m Some]) (simp_all add: entry_alive_ok [OF h e])
  ultimately show ?thesis
    using c Some by (auto simp: check_entry_def Let_def failoverLocked_ok split: option.splits if_splits)
qed

lemma runHealthCheck_ok [go_inv]:
  "mgr_ok m \<Longrightarrow> runHealthCheck env ns m w = (m', st, w') \<Longrightarrow> mgr_ok m'"
proof (induction ns arbitrary: m w st)
  case Nil
  then show ?case by simp
next
  case (Cons n ns)
  obtain err p w1 m1 start st' where "check_entry (set_pool n p m) n err (e_rtt env w1) = (m1, start)"
    and r: "runHealthCheck env ns m1 w1 = (m', st', w')"
    using Cons.prems(2) by (auto split: prod.splits)
  then have "mgr_ok m1" using check_entry_ok [OF set_pool_ok [OF Cons.prems(1)]] by blast
  from Cons.IH [OF this r] show ?case .
qed

lemma pingAll_ok [go_inv]: "mgr_ok m \<Longrightarrow> pingAll env ns m w = (r, m', w') \<Longrightarrow> mgr_ok m'"
proof (induction ns arbitrary: m w r)
  case Nil
  then show ?case by simp
next
  case (Cons n ns)
  obtain p w1 r' where "pingAll env ns (set_pool n p m) w1 = (r', m', w')"
    using Cons.prems(2) by (auto split: prod.splits)
  from Cons.IH [OF set_pool_ok [OF Cons.prems(1)] this] show ?case .
qed

lemma reconnect_begin_ok [go_inv]:
  assumes "mgr_ok m" and "reconnect_begin m n = Some (m', rc)"
  shows "mgr_ok m'"
proof -
  obtain e where e: "map_of (m_entries m) n = Some e"
    and m': "m' = m\<lparr>m_entries := AList.update n (e\<lparr>en_reconnecting := True\<rparr>) (m_entries m)\<rparr>"
    using assms(2) by (auto simp: reconnect_begin_def split: option.splits if_splits)
  show ?thesis unfolding m'
    by (rule mgr_ok_update [OF assms(1) e]) (use map_of_entries [OF assms(1) e] in \<open>simp_all add: entry_ok_def\<close>)
qed

lemma reconnect_end_ok [go_inv]:
  assumes "mgr_ok m"
  shows "mgr_ok (reconnect_end m rc)"
  unfolding reconnect_end_def
proof (rule mgr_ok_entries [OF assms])
  show "map fst (map (\<lambda>(n, e). (n, if en_id e = rc_entry rc then e\<lparr>en_reconnecting := False\<rparr> else e))
      (m_entries m)) = map fst (m_entries m)"
    by (simp add: comp_def case_prod_beta)
  fix k x
  assume "(k, x) \<in> set (map (\<lambda>(n, e). (n, if en_id e = rc_entry rc then e\<lparr>en_reconnecting := False\<rparr> else e))
      (m_entries m))"
  then obtain e where "(k, e) \<in> set (m_entries m)" "x = e \<or> x = e\<lparr>en_reconnecting := False\<rparr>"
    by (auto split: if_splits)
  then show "entry_ok (m_health m) x \<and> ep_Name (en_ep x) = k"
    using mgr_ok_in [OF assms] by (fastforce simp: entry_ok_def)
qed

lemma reconnect_swap_ok [go_inv]:
  assumes m: "mgr_ok m" and s: "reconnect_swap m n p w = (m', w')"
  shows "mgr_ok m'"
proof (cases "map_of (m_entries m) n")
  case None
  with m s show ?thesis by (simp add: reconnect_swap_def)
next
  case (Some cur)
  let ?m1 = "m\<lparr>m_entries := AList.update n (cur\<lparr>en_pool := p, en_healthy := True, en_failures := 0,
      en_recovers := 0\<rparr>) (m_entries m)\<rparr>"
  have m1: "mgr_ok ?m1"
  proof (rule mgr_ok_update [OF m Some])
    have "health_ok (m_health m)" using m by (simp add: mgr_ok_def)
    then show "entry_ok (m_health m) (cur\<lparr>en_pool := p, en_healthy := True, en_failures := 0, en_recovers := 0\<rparr>)"
      by (simp add: entry_ok_def health_ok_def)
  qed simp
  have "n \<in> fst ` set (m_entries m)" using map_of_SomeD [OF Some] by force
  then have "n \<in> set (m_order ?m1)" using m by (simp add: mgr_ok_def)
  from m1 active_ok [OF m1 this] s Some show ?thesis
    by (cases "m_active ?m1 = [] \<or> \<not> entryHealthyLocked ?m1 (m_active ?m1)")
      (simp_all add: reconnect_swap_def Let_def)
qed

lemma defaultHealth_ok: "health_ok (defaultHealth pd cfg)"
  by (auto simp: defaultHealth_def health_settings_def health_ok_def Let_def split: option.splits)

text \<open>The entries a construction builds, for any list of endpoints.\<close>

definition built_ok :: "HealthSettings \<Rightarrow> (string \<times> entry) list \<Rightarrow> string list \<Rightarrow> bool" where
  "built_ok hs es order \<longleftrightarrow> distinct (map fst es) \<and> set order = fst ` set es
     \<and> (\<forall>(n, e) \<in> set es. entry_ok hs e \<and> ep_Name (en_ep e) = n)"

lemma built_ok_empty: "built_ok hs [] []"
  by (simp add: built_ok_def)

lemma built_ok_add:
  assumes "health_ok hs" and "built_ok hs es order"
  shows "built_ok hs (AList.update (ep_Name ep) (new_entry i ep p) es) (order @ [ep_Name ep])"
proof -
  have "(k, x) \<in> set (AList.update n e es) \<Longrightarrow> (k = n \<and> x = e) \<or> (k, x) \<in> set es" for k x n e es
    by (induction es) (auto split: if_splits)
  moreover have "entry_ok hs (new_entry i ep p)"
    using assms(1) by (simp add: entry_ok_def new_entry_def health_ok_def)
  ultimately show ?thesis
    using assms(2) by (fastforce simp: built_ok_def distinct_update dom_update new_entry_def)
qed

lemma build_entries_ok:
  assumes "health_ok hs" and "built_ok hs es order"
    and "build_entries cr env cfg flags eps i es order w = (Inr (es', order'), w')"
  shows "built_ok hs es' order' \<and> order' = order @ map ep_Name eps"
  using assms(2,3)
proof (induction eps arbitrary: i es order w)
  case Nil
  then show ?case by simp
next
  case (Cons ep eps)
  then obtain p w1 where
    "build_entries cr env cfg flags eps (i + 1) (AList.update (ep_Name ep) (new_entry i ep p) es)
       (order @ [ep_Name ep]) w1 = (Inr (es', order'), w')"
    by (auto split: prod.splits sum.splits)
  from Cons.IH [OF built_ok_add [OF assms(1) Cons.prems(1)] this] show ?case by auto
qed

lemma NewManager_ok [go_inv]:
  assumes "NewManager cr env cfg flags w = (Inr m, w')"
  shows "mgr_ok m"
proof -
  obtain eps es order w1 where b: "build_entries cr env cfg flags eps 0 [] [] w = (Inr (es, order), w1)"
    and p: "\<exists>r. pingAll env (map fst es)
      \<lparr>m_cfg = cfg, m_health = defaultHealth (e_pd env) cfg, m_strategy = defaultStrategy cfg,
       m_remoteFlags = flags, m_entries = es, m_order = order,
       m_active = (if order = [] then [] else hd order), m_rrIdx = 0, m_cancelled = False,
       m_nextId = length eps\<rparr> w1 = (r, m, w')"
    using assms by (fastforce simp: NewManager_def Let_def split: sum.splits prod.splits)
  have "built_ok (defaultHealth (e_pd env) cfg) es order"
    using build_entries_ok [OF defaultHealth_ok [of "e_pd env" cfg] built_ok_empty b] by (rule conjunct1)
  then have "mgr_ok \<lparr>m_cfg = cfg, m_health = defaultHealth (e_pd env) cfg, m_strategy = defaultStrategy cfg,
       m_remoteFlags = flags, m_entries = es, m_order = order,
       m_active = (if order = [] then [] else hd order), m_rrIdx = 0, m_cancelled = False,
       m_nextId = length eps\<rparr>"
    using defaultHealth_ok hd_in_set [of order] by (auto simp: mgr_ok_def built_ok_def)
  with p pingAll_ok show ?thesis by blast
qed

lemma reload_swap_ok [go_inv]:
  assumes b: "built_ok (defaultHealth (e_pd env) cfg) es order"
    and s: "reload_swap env cfg flags es order m w = (m', w')"
  shows "mgr_ok m'"
proof -
  have "order \<noteq> [] \<Longrightarrow> hd order \<in> fst ` set es" using b hd_in_set [of order] by (simp add: built_ok_def)
  moreover have "m' = m\<lparr>m_cfg := cfg, m_health := defaultHealth (e_pd env) cfg,
      m_strategy := defaultStrategy cfg, m_remoteFlags := flags, m_entries := es,
      m_order := order, m_active := (if order \<noteq> [] then hd order else m_active m)\<rparr>"
    using s by (simp add: reload_swap_def)
  ultimately show ?thesis
    using b defaultHealth_ok [of "e_pd env" cfg] by (simp add: mgr_ok_def built_ok_def)
qed

lemma mgr_Close_ok [go_inv]: "mgr_ok m \<Longrightarrow> mgr_Close m w = (m', w') \<Longrightarrow> mgr_ok m'"
  by (auto simp: mgr_Close_def mgr_ok_def)

section \<open>Who holds what\<close>

text \<open>
  Everything open in the world is either held by (the sessions of) some pool in \<open>C\<close> or was there
  before the manager, in \<open>B\<close>.
\<close>

definition covered :: "handle set \<Rightarrow> (handle \<times> handle option) set \<Rightarrow> world \<Rightarrow> bool" where
  "covered C B w \<longleftrightarrow> world_ok w \<and> (\<forall>x \<in> set (w_open w). live C x \<longrightarrow> x \<in> B)"

definition entries_cover :: "(string \<times> entry) list \<Rightarrow> handle set" where
  "entries_cover es = (\<Union>(n, e) \<in> set es. pool_cover (en_pool e))"

definition mgr_cover :: "Manager \<Rightarrow> handle set" where
  "mgr_cover m = entries_cover (m_entries m)"

lemma live_anti: "live C x \<Longrightarrow> D \<subseteq> C \<Longrightarrow> live D x"
  by (auto simp: live_def split: prod.splits)

lemma covered_mono: "covered C B w \<Longrightarrow> C \<subseteq> C' \<Longrightarrow> covered C' B w"
  by (auto simp: covered_def dest: live_anti)

lemma covered_unchanged: "covered C B w \<Longrightarrow> unchanged w w' \<Longrightarrow> covered C B w'"
  by (simp add: covered_def unchanged_def)

lemma covered_less: "covered C B w \<Longrightarrow> set (w_open w') \<subseteq> set (w_open w) \<Longrightarrow> world_ok w' \<Longrightarrow> covered C B w'"
  by (auto simp: covered_def)

lemma covered_close: "covered C B w \<Longrightarrow> covered C B (close_handle h w)"
  by (rule covered_less) (auto simp: close_handle_open covered_def)

lemma covered_grows:
  assumes "covered C B w" and "grows w H w'"
  shows "covered (H \<union> C) B w'"
  using assms by (auto simp: covered_def grows_def live_un)

lemma covered_release:
  assumes "covered (H \<union> C) B w" and "w_open w' = filter (live H') (w_open w)" and "H \<subseteq> H'" and "world_ok w'"
  shows "covered C B w'"
  using assms by (auto simp: covered_def live_un dest: live_anti)

lemma covered_stays:
  assumes "covered C B w" and "stays p w p' w'" and "pool_cover p \<subseteq> C"
  shows "covered C B w'"
  using assms by (auto simp: covered_def stays_def dest: live_anti)

lemma pool_cover_holds: "pool_cover p \<subseteq> pool_holds p"
  by (auto simp: pool_cover_def pool_holds_def)

lemma covered_pool_Close:
  assumes "covered (pool_cover p \<union> C) B w"
  shows "covered C B (snd (pool_Close p w))"
proof (rule covered_release [OF assms _ pool_cover_holds])
  have "world_ok w" using assms by (simp add: covered_def)
  then show "w_open (snd (pool_Close p w)) = filter (live (pool_holds p)) (w_open w)"
    "world_ok (snd (pool_Close p w))"
    by (simp_all add: pool.release_open pool.release_ok)
qed

lemma entries_cover_simps [simp]:
  "entries_cover [] = {}" "entries_cover ((n, e) # es) = pool_cover (en_pool e) \<union> entries_cover es"
  by (auto simp: entries_cover_def)

lemma covered_close_entries:
  "covered (entries_cover es \<union> C) B w \<Longrightarrow> covered C B (close_entries es w)"
proof (induction es arbitrary: w)
  case Nil
  then show ?case by (simp add: close_entries_def)
next
  case (Cons x es)
  obtain n e where x: "x = (n, e)" by fastforce
  have "covered (entries_cover es \<union> C) B (snd (pool_Close (en_pool e) w))"
    by (rule covered_pool_Close) (use Cons.prems in \<open>simp add: x Un_assoc\<close>)
  from Cons.IH [OF this] show ?case by (simp add: x close_entries_def)
qed

text \<open>An entry replaced by one whose pool has the same sessions.\<close>

lemma map_entry_cover:
  "map_of es n = Some e \<Longrightarrow> p_sessions p = p_sessions (en_pool e) \<Longrightarrow>
     entries_cover (AList.map_entry n (\<lambda>e. e\<lparr>en_pool := p\<rparr>) es) = entries_cover es"
  by (induction es) (auto simp: pool_cover_def split: if_splits)

lemma map_entry_absent: "map_of es n = None \<Longrightarrow> AList.map_entry n f es = es"
  by (induction es) (auto split: if_splits)

lemma update_cover_same:
  "map_of es n = Some e \<Longrightarrow> en_pool e' = en_pool e \<Longrightarrow> entries_cover (AList.update n e' es) = entries_cover es"
  by (induction es) (auto split: if_splits)

lemma update_cover:
  "entries_cover (AList.update n e es) \<subseteq> pool_cover (en_pool e) \<union> entries_cover es"
  by (induction es) (auto simp: entries_cover_def split: if_splits)

lemma update_cover_old:
  "map_of es n = Some e \<Longrightarrow> entries_cover es \<subseteq> pool_cover (en_pool e) \<union> entries_cover (AList.update n e' es)"
  by (induction es) (auto split: if_splits)

lemma pool_in_cover: "map_of es n = Some e \<Longrightarrow> pool_cover (en_pool e) \<subseteq> entries_cover es"
  by (induction es) (auto split: if_splits)

lemma pool_of_Some [simp]: "map_of (m_entries m) n = Some e \<Longrightarrow> pool_of m n = en_pool e"
  by (simp add: pool_of_def)

section \<open>What the operations of a running manager keep\<close>

text \<open>
  A step that keeps the invariant, leaks nothing, and neither adds, removes nor marks an entry.
  \<open>D\<close> is what others (a reconnect under way, a reload under way) hold.
\<close>

definition marks :: "Manager \<Rightarrow> (string \<times> nat \<times> bool) list" where
  "marks m = map (\<lambda>(n, e). (n, en_id e, en_reconnecting e)) (m_entries m)"

definition step_ok :: "Manager \<Rightarrow> world \<Rightarrow> Manager \<Rightarrow> world \<Rightarrow> bool" where
  "step_ok m w m' w' \<longleftrightarrow> (mgr_ok m \<longrightarrow> mgr_ok m') \<and> marks m' = marks m \<and> m_nextId m' = m_nextId m
     \<and> (world_ok w \<longrightarrow> world_ok w' \<and> w_next w \<le> w_next w')
     \<and> (\<forall>D B. covered (mgr_cover m \<union> D) B w \<longrightarrow> covered (mgr_cover m' \<union> D) B w')"

lemma step_ok_refl: "step_ok m w m w"
  by (simp add: step_ok_def)

lemma step_ok_trans: "step_ok m w m1 w1 \<Longrightarrow> step_ok m1 w1 m' w' \<Longrightarrow> step_ok m w m' w'"
  by (auto simp: step_ok_def)

lemma step_okD:
  assumes "step_ok m w m' w'"
  shows "mgr_ok m \<Longrightarrow> mgr_ok m'" "marks m' = marks m" "m_nextId m' = m_nextId m"
    "covered (mgr_cover m \<union> D) B w \<Longrightarrow> covered (mgr_cover m' \<union> D) B w'"
    "world_ok w \<Longrightarrow> w_next w \<le> w_next w'"
  using assms by (simp_all add: step_ok_def)

lemma marks_map_entry:
  "map (\<lambda>(n, e). (n, en_id e, en_reconnecting e)) (AList.map_entry k (\<lambda>e. e\<lparr>en_pool := p\<rparr>) es)
     = map (\<lambda>(n, e). (n, en_id e, en_reconnecting e)) es"
  by (induction es) auto

lemma marks_update:
  "map_of es k = Some e \<Longrightarrow> en_id e' = en_id e \<Longrightarrow> en_reconnecting e' = en_reconnecting e \<Longrightarrow>
     map (\<lambda>(n, e). (n, en_id e, en_reconnecting e)) (AList.update k e' es)
     = map (\<lambda>(n, e). (n, en_id e, en_reconnecting e)) es"
  by (induction es) (auto split: if_splits)

text \<open>An operation of a pool, run on the pool of an entry.\<close>

context pool_op
begin

lemma on_entry:
  assumes o: "op (pool_of m n) w = (r, p, w')"
  shows "step_ok m w (set_pool n p m) w'"
proof -
  have "covered (mgr_cover (set_pool n p m) \<union> D) B w'" if c: "covered (mgr_cover m \<union> D) B w" for D B
  proof -
    have s: "stays (pool_of m n) w p w'" using keeps [OF _ o] c by (simp add: covered_def)
    have "pool_cover (pool_of m n) \<subseteq> mgr_cover m"
      using pool_in_cover [of "m_entries m" n]
      by (auto simp: pool_of_def mgr_cover_def pool_cover_def empty_pool_def split: option.splits)
    then have "covered (mgr_cover m \<union> D) B w'" by (intro covered_stays [OF c s]) auto
    moreover have "mgr_cover (set_pool n p m) = mgr_cover m"
      using s map_entry_cover [of "m_entries m" n _ p] map_entry_absent [of "m_entries m" n]
      by (cases "map_of (m_entries m) n") (auto simp: mgr_cover_def set_pool_def stays_def)
    ultimately show ?thesis by simp
  qed
  moreover have "marks (set_pool n p m) = marks m" "m_nextId (set_pool n p m) = m_nextId m"
    by (simp_all add: marks_def set_pool_def marks_map_entry)
  moreover have "world_ok w' \<and> w_next w \<le> w_next w'" if "world_ok w" using keeps [OF that o] by (simp add: stays_def)
  ultimately show ?thesis by (auto simp: step_ok_def set_pool_ok)
qed

end

lemma poolFor_frame: "poolFor m b = (r, m') \<Longrightarrow> m_entries m' = m_entries m \<and> m_nextId m' = m_nextId m"
  by (auto simp: poolFor_def Let_def split: if_splits prod.splits dest!: pickLocked_frame)

lemma step_ok_entries:
  "m_entries m' = m_entries m \<Longrightarrow> m_nextId m' = m_nextId m \<Longrightarrow> (mgr_ok m \<Longrightarrow> mgr_ok m') \<Longrightarrow> step_ok m w m' w"
  by (simp add: step_ok_def marks_def mgr_cover_def)

lemma poolFor_step: "poolFor m b = (r, m') \<Longrightarrow> step_ok m w m' w"
  using poolFor_frame [of m b r m'] poolFor_ok [of m b r m'] by (intro step_ok_entries) auto

lemma failover_frame [simp]:
  "m_entries (failoverLocked m) = m_entries m" "m_nextId (failoverLocked m) = m_nextId m"
  "m_order (failoverLocked m) = m_order m" "m_health (failoverLocked m) = m_health m"
  by (simp_all add: failoverLocked_def split: option.splits)

lemma entry_marks [simp]:
  "en_id (entry_failed hs e) = en_id e" "en_id (entry_alive hs rtt e) = en_id e"
  "en_reconnecting (entry_failed hs e) = en_reconnecting e"
  "en_reconnecting (entry_alive hs rtt e) = en_reconnecting e"
  by (auto simp: entry_failed_def entry_alive_def Let_def)

lemma check_entry_frame:
  assumes "check_entry m n err rtt = (m', s)"
  shows "marks m' = marks m \<and> m_nextId m' = m_nextId m \<and> mgr_cover m' = mgr_cover m"
proof (cases "map_of (m_entries m) n")
  case None
  with assms show ?thesis by (simp add: check_entry_def)
next
  case (Some e)
  define e' where "e' = (if err = None then entry_alive (m_health m) rtt e else entry_failed (m_health m) e)"
  have "m_entries m' = AList.update n e' (m_entries m)" "m_nextId m' = m_nextId m"
    using assms Some by (auto simp: check_entry_def Let_def e'_def split: option.splits if_splits)
  moreover have "en_id e' = en_id e" "en_reconnecting e' = en_reconnecting e" "en_pool e' = en_pool e"
    by (simp_all add: e'_def)
  ultimately show ?thesis using marks_update [OF Some] update_cover_same [OF Some] by (simp add: marks_def mgr_cover_def)
qed

lemma check_entry_step: "check_entry m n err rtt = (m', s) \<Longrightarrow> step_ok m w m' w"
  using check_entry_frame [of m n err rtt m' s] check_entry_ok [of m n err rtt m' s]
  by (simp add: step_ok_def)

lemma runHealthCheck_step: "runHealthCheck env ns m w = (m', st, w') \<Longrightarrow> step_ok m w m' w'"
proof (induction ns arbitrary: m w st)
  case Nil
  then show ?case by (simp add: step_ok_refl)
next
  case (Cons n ns)
  obtain err p w1 m1 start st' where pw: "PingWithTimeout env (pool_of m n) w = (err, p, w1)"
    and c: "check_entry (set_pool n p m) n err (e_rtt env w1) = (m1, start)"
    and r: "runHealthCheck env ns m1 w1 = (m', st', w')"
    using Cons.prems by (auto split: prod.splits)
  show ?case
    by (rule step_ok_trans [OF ping_op.on_entry [OF pw] step_ok_trans [OF check_entry_step [OF c] Cons.IH [OF r]]])
qed

lemma pingAll_step: "pingAll env ns m w = (r, m', w') \<Longrightarrow> step_ok m w m' w'"
proof (induction ns arbitrary: m w r)
  case Nil
  then show ?case by (simp add: step_ok_refl)
next
  case (Cons n ns)
  obtain err p w1 r' where pw: "PingWithTimeout env (pool_of m n) w = (err, p, w1)"
    and pa: "pingAll env ns (set_pool n p m) w1 = (r', m', w')"
    using Cons.prems by (auto split: prod.splits)
  show ?case by (rule step_ok_trans [OF ping_op.on_entry [OF pw] Cons.IH [OF pa]])
qed

lemma bench_loop_step: "bench_loop env ns m w = (rs, m', w') \<Longrightarrow> step_ok m w m' w'"
proof (induction ns arbitrary: m w rs)
  case Nil
  then show ?case by (simp add: step_ok_refl)
next
  case (Cons n ns)
  show ?case
  proof (cases "map_of (m_entries m) n")
    case None
    with Cons.prems Cons.IH show ?thesis by simp
  next
    case (Some e)
    obtain err p w1 rs' where pw: "PingWithTimeout env (pool_of m n) w = (err, p, w1)"
      and b: "bench_loop env ns (set_pool n p m) w1 = (rs', m', w')"
      using Cons.prems Some by (auto split: prod.splits)
    show ?thesis by (rule step_ok_trans [OF ping_op.on_entry [OF pw] Cons.IH [OF b]])
  qed
qed

section \<open>Building the entries\<close>

text \<open>With different names the loop over the endpoints is the all-or-nothing loop of constructors.\<close>

definition dial_entry ::
  "crypto \<Rightarrow> env \<Rightarrow> Config \<Rightarrow> TCPFlagSet list \<Rightarrow> nat \<times> UpstreamEndpoint \<Rightarrow> world \<Rightarrow> (string \<times> entry) res \<times> world" where
  "dial_entry cr env cfg flags k w =
     (case k of (i, ep) \<Rightarrow>
        (case pool_Dial cr env cfg (ep_Addr ep) (ep_Transport ep) flags w of
           (Inl e, w1) \<Rightarrow> (Inl (Wrapf ''upstream %q: %w'' [ep_Name ep] e), w1)
         | (Inr p, w1) \<Rightarrow> (Inr (ep_Name ep, new_entry i ep p), w1)))"

lemma dial_entry_at:
  "dial_entry cr env cfg flags (i, ep) w =
     (case pool_Dial cr env cfg (ep_Addr ep) (ep_Transport ep) flags w of
        (Inl e, w1) \<Rightarrow> (Inl (Wrapf ''upstream %q: %w'' [ep_Name ep] e), w1)
      | (Inr p, w1) \<Rightarrow> (Inr (ep_Name ep, new_entry i ep p), w1))"
  by (simp add: dial_entry_def)

definition release_entry :: "string \<times> entry \<Rightarrow> world \<Rightarrow> world" where
  "release_entry x w = snd (pool_Close (en_pool (snd x)) w)"

definition entry_holds :: "string \<times> entry \<Rightarrow> handle set" where
  "entry_holds x = pool_holds (en_pool (snd x))"

definition entry_alive_in :: "string \<times> entry \<Rightarrow> world \<Rightarrow> bool" where
  "entry_alive_in x w = Alive (en_pool (snd x)) w"

lemma dial_entry_spec:
  assumes "world_ok w" and "dial_entry cr env cfg flags k w = (r, w')"
  shows "case r of Inl e \<Rightarrow> unchanged w w' | Inr x \<Rightarrow> grows w (entry_holds x) w' \<and> entry_alive_in x w'"
proof -
  obtain i ep where k: "k = (i, ep)" by fastforce
  obtain r1 w1 where pd: "pool_Dial cr env cfg (ep_Addr ep) (ep_Transport ep) flags w = (r1, w1)" by fastforce
  note sp = pool_Dial_spec [OF assms(1) pd]
  show ?thesis
  proof (cases r1)
    case (Inl e)
    with sp assms(2) pd k show ?thesis by (auto simp: dial_entry_at)
  next
    case (Inr p)
    then have "p_sessions p \<noteq> [] \<and> (\<forall>s \<in> set (p_sessions p). smux_alive s w1)"
      using sp by (auto simp: conn_count_def split: if_splits)
    then have "Alive p w1" by (cases "p_sessions p") (auto simp: Alive_def)
    with sp assms(2) pd k Inr show ?thesis
      by (auto simp: dial_entry_at entry_holds_def entry_alive_in_def new_entry_def)
  qed
qed

lemma Alive_mono: "Alive p w \<Longrightarrow> grows w H w' \<Longrightarrow> Alive p w'"
  by (auto simp: Alive_def list_ex_iff smux_alive_def dest: grows_is_open split: option.splits)

interpretation fleet: live_dialer "dial_entry cr env cfg flags" release_entry entry_holds entry_alive_in
  for cr env cfg flags
  by unfold_locales
    (auto simp: release_entry_def pool_Close_world unchanged_def entry_alive_in_def [of _ w for w] Alive_mono
       entry_holds_def [of x for x] dest!: dial_entry_spec split: prod.splits)

lemma close_entries_release: "close_entries es w = fold release_entry es w"
proof -
  have "(\<lambda>(n, e) w. snd (pool_Close (en_pool e) w)) = release_entry"
    by (simp add: fun_eq_iff release_entry_def)
  then show ?thesis by (simp add: close_entries_def)
qed

lemma update_absent: "n \<notin> fst ` set es \<Longrightarrow> AList.update n e es = es @ [(n, e)]"
  by (induction es) auto

lemma build_entries_dial_each:
  assumes "distinct (map ep_Name eps)" and "fst ` set es \<inter> set (map ep_Name eps) = {}"
  shows "build_entries cr env cfg flags eps i es order w =
     (case dial_each (dial_entry cr env cfg flags) release_entry (enumerate i eps) es w of
        (Inl e, w1) \<Rightarrow> (Inl e, w1)
      | (Inr es', w1) \<Rightarrow> (Inr (es', order @ map ep_Name eps), w1))"
  using assms
proof (induction eps arbitrary: i es order w)
  case Nil
  then show ?case by simp
next
  case (Cons ep eps)
  obtain r w1 where pd: "pool_Dial cr env cfg (ep_Addr ep) (ep_Transport ep) flags w = (r, w1)" by fastforce
  show ?case
  proof (cases r)
    case (Inl e)
    with pd show ?thesis by (simp add: dial_entry_at close_entries_release)
  next
    case (Inr p)
    have u: "AList.update (ep_Name ep) (new_entry i ep p) es = es @ [(ep_Name ep, new_entry i ep p)]"
      using Cons.prems(2) by (intro update_absent) auto
    from Cons.prems pd Inr u show ?thesis
      by (simp add: dial_entry_at Cons.IH del: AList.update.simps split: prod.split sum.split)
  qed
qed

lemma dialled_holds:
  "pool_Dial cr env cfg remote tcfg flags w = (Inr p, w') \<Longrightarrow> pool_holds p = pool_cover p"
  by (auto simp: pool_Dial_def Let_def pool_holds_def pool_cover_def ctrl_handles_def empty_pool_def
      split: sum.splits prod.splits)

text \<open>What the all-or-nothing loop builds: an unmarked healthy entry per endpoint, in order.\<close>

lemma dial_each_entries:
  assumes "dial_each (dial_entry cr env cfg flags) release_entry (enumerate i eps) es w = (Inr es', w')"
  shows "\<exists>new. es' = es @ new \<and> map (\<lambda>(n, e). (n, en_id e, en_ep e)) new = map (\<lambda>(k, ep). (ep_Name ep, k, ep)) (enumerate i eps)
     \<and> (\<forall>(n, e) \<in> set new. en_healthy e \<and> \<not> en_reconnecting e \<and> pool_holds (en_pool e) = pool_cover (en_pool e))"
  using assms
proof (induction eps arbitrary: i es w)
  case Nil
  then show ?case by simp
next
  case (Cons ep eps)
  obtain p w1 where pd: "pool_Dial cr env cfg (ep_Addr ep) (ep_Transport ep) flags w = (Inr p, w1)"
    and d: "dial_each (dial_entry cr env cfg flags) release_entry (enumerate (Suc i) eps)
        (es @ [(ep_Name ep, new_entry i ep p)]) w1 = (Inr es', w')"
    using Cons.prems by (auto simp: dial_entry_at split: prod.splits sum.splits)
  from Cons.IH [OF d] obtain new where n: "es' = es @ [(ep_Name ep, new_entry i ep p)] @ new"
    "map (\<lambda>(n, e). (n, en_id e, en_ep e)) new = map (\<lambda>(k, ep). (ep_Name ep, k, ep)) (enumerate (Suc i) eps)"
    "\<forall>(n, e) \<in> set new. en_healthy e \<and> \<not> en_reconnecting e \<and> pool_holds (en_pool e) = pool_cover (en_pool e)" by auto
  have "pool_holds p = pool_cover p" by (rule dialled_holds [OF pd])
  with n show ?case
    by (intro exI [of _ "(ep_Name ep, new_entry i ep p) # new"]) (simp add: new_entry_def)
qed

text \<open>A build from nothing, with different names.\<close>

lemma build_entries_fleet:
  assumes d: "distinct (map ep_Name eps)" and w: "world_ok w"
    and b: "build_entries cr env cfg flags eps i [] [] w = (r, w')"
  shows "case r of Inl _ \<Rightarrow> unchanged w w'
     | Inr (es, order) \<Rightarrow> grows w (entries_cover es) w' \<and> order = map ep_Name eps
         \<and> map (\<lambda>(n, e). (n, en_id e, en_ep e)) es = map (\<lambda>(k, ep). (ep_Name ep, k, ep)) (enumerate i eps)
         \<and> (\<forall>(n, e) \<in> set es. en_healthy e \<and> \<not> en_reconnecting e \<and> pool_holds (en_pool e) = pool_cover (en_pool e))
         \<and> (\<forall>(n, e) \<in> set es. Alive (en_pool e) w')"
proof -
  obtain x w1 where de: "dial_each (dial_entry cr env cfg flags) release_entry (enumerate i eps) [] w = (x, w1)"
    by fastforce
  have g0: "grows w (fleet.holds_all []) w" by (simp add: grows_refl [OF w])
  have r: "r = (case x of Inl e \<Rightarrow> Inl e | Inr es \<Rightarrow> Inr (es, map ep_Name eps))" "w' = w1"
    using b build_entries_dial_each [OF d, of "[]" cr env cfg flags i "[]" w] de by (auto split: sum.splits)
  show ?thesis
  proof (cases x)
    case (Inl e)
    with fleet.dial_each_fail [OF w g0 de [unfolded Inl]] r show ?thesis by (simp add: unchanged_def)
  next
    case (Inr es)
    from dial_each_entries [OF de [unfolded Inr]]
    have e: "map (\<lambda>(n, e). (n, en_id e, en_ep e)) es = map (\<lambda>(k, ep). (ep_Name ep, k, ep)) (enumerate i eps)"
      "\<forall>(n, e) \<in> set es. en_healthy e \<and> \<not> en_reconnecting e \<and> pool_holds (en_pool e) = pool_cover (en_pool e)"
      by auto
    then have "fleet.holds_all es = entries_cover es"
      by (fastforce simp: fleet.holds_all_def entries_cover_def entry_holds_def)
    moreover have "\<forall>(n, e) \<in> set es. Alive (en_pool e) w1"
      using fleet.dial_each_ready [OF w de [unfolded Inr]] by (auto simp: entry_alive_in_def)
    ultimately show ?thesis using fleet.dial_each_ok [OF g0 de [unfolded Inr]] e r Inr by simp
  qed
qed

section \<open>A sample manager\<close>

definition sample_ep :: "string \<Rightarrow> int \<Rightarrow> UpstreamEndpoint" where
  "sample_ep n wt = \<lparr>ep_Name = n, ep_Addr = \<lparr>ua_ip = [1, 2, 3, 4], ua_port = 443\<rparr>, ep_Key = ''secret'',
     ep_Weight = wt, ep_Priority = 0, ep_Transport = sample_kcp\<rparr>"

definition sample_manager :: "strategy \<Rightarrow> Manager" where
  "sample_manager st = \<lparr>m_cfg = sample_client,
     m_health = \<lparr>hs_Interval = 10 * second, hs_Timeout = 3 * second, hs_FailThreshold = 3, hs_RecoverThreshold = 2\<rparr>,
     m_strategy = st, m_remoteFlags = [],
     m_entries = [(''a'', (new_entry 0 (sample_ep ''a'' 2) empty_pool)\<lparr>en_lastRTT := 9\<rparr>),
                  (''b'', (new_entry 1 (sample_ep ''b'' 1) empty_pool)\<lparr>en_lastRTT := 5\<rparr>)],
     m_order = [''a'', ''b''], m_active = ''a'', m_rrIdx = 0, m_cancelled = False, m_nextId = 2\<rparr>"

lemma sample_manager_simps [simp]:
  "healthyNamesLocked (sample_manager st) = [''a'', ''b'']" "m_strategy (sample_manager st) = st"
  "m_rrIdx (sample_manager st) = 0" "m_order (sample_manager st) = [''a'', ''b'']"
  "weight_of (sample_manager st) ''a'' = 2" "weight_of (sample_manager st) ''b'' = 1"
  "rtt_of (sample_manager st) ''a'' = 9" "rtt_of (sample_manager st) ''b'' = 5"
  "entryHealthyLocked (sample_manager st) ''a''"
  by (simp_all add: sample_manager_def new_entry_def sample_ep_def healthyNamesLocked_def
      entryHealthyLocked_def weight_of_def rtt_of_def)

lemma sample_manager_ok: "mgr_ok (sample_manager st)"
  by (simp add: mgr_ok_def sample_manager_def new_entry_def sample_ep_def health_ok_def entry_ok_def)

lemma healthy_in_order:
  assumes "mgr_ok m" and "entryHealthyLocked m k"
  shows "k \<in> set (m_order m)"
proof -
  obtain e where "map_of (m_entries m) k = Some e" using entryHealthy_Some [OF assms(2)] by blast
  then have "(k, e) \<in> set (m_entries m)" by (rule map_of_SomeD)
  then have "k \<in> fst ` set (m_entries m)" by force
  then show ?thesis using assms(1) by (simp add: mgr_ok_def)
qed

section \<open>Properties\<close>

lemma pickLocked_healthy:
  assumes "mgr_ok m" and pk: "pickLocked m = (n, m1)"
  shows "entryHealthyLocked m k \<Longrightarrow> entryHealthyLocked m n"
    and "\<forall>k. \<not> entryHealthyLocked m k \<Longrightarrow> n = m_active m \<and> m1 = m"
proof -
  show "entryHealthyLocked m n" if k: "entryHealthyLocked m k"
  proof -
    have "k \<in> set (m_order m)" by (rule healthy_in_order [OF assms(1) k])
    with k have "healthyNamesLocked m \<noteq> []" by (auto simp: healthyNamesLocked_def filter_empty_conv)
    from pickLocked_in [OF this pk] show ?thesis by (simp add: healthy_names)
  qed
  show "n = m_active m \<and> m1 = m" if "\<forall>k. \<not> entryHealthyLocked m k"
  proof -
    have "healthyNamesLocked m = []" using that by (simp add: healthyNamesLocked_def)
    then have "pickLocked m = (m_active m, m)" by (simp add: pickLocked_def)
    with pk show ?thesis by auto
  qed
qed

text \<open>C31. A stream is never sent to an unhealthy server while a healthy one exists, whatever the
  strategy: the bound server is used when it is healthy; otherwise (or unbound) the chosen server
  is healthy; only when none is healthy the active one is tried. Choosing changes nothing but the
  counter and the active name.\<close>

theorem poolFor_healthy:
  assumes "mgr_ok m"
  shows "case poolFor m bind of (r, m') \<Rightarrow>
     (entryHealthyLocked m bind \<and> bind \<noteq> [] \<longrightarrow> r = Some bind \<and> m' = m)
     \<and> ((\<exists>n. entryHealthyLocked m n) \<longrightarrow> (\<exists>n. r = Some n \<and> entryHealthyLocked m n))
     \<and> ((\<forall>n. \<not> entryHealthyLocked m n) \<longrightarrow> m' = m \<and> r = (if map_of (m_entries m) (m_active m) = None
          then None else Some (m_active m)))
     \<and> (\<exists>a i. m' = m\<lparr>m_active := a, m_rrIdx := i\<rparr>)"
proof (cases "bind \<noteq> [] \<and> entryHealthyLocked m bind")
  case True
  then have p: "poolFor m bind = (Some bind, m)" by (simp add: poolFor_def)
  have "m = m\<lparr>m_active := m_active m, m_rrIdx := m_rrIdx m\<rparr>" by simp
  then have ex: "\<exists>a i. m = m\<lparr>m_active := a, m_rrIdx := i\<rparr>" by (intro exI)
  have t: "entryHealthyLocked m bind" using True by blast
  show ?thesis
    unfolding p prod.case
  proof (intro conjI ex)
    show "(\<exists>n. entryHealthyLocked m n) \<longrightarrow> (\<exists>n. Some bind = Some n \<and> entryHealthyLocked m n)" using t by simp
    show "(\<forall>n. \<not> entryHealthyLocked m n) \<longrightarrow> m = m \<and> Some bind =
        (if map_of (m_entries m) (m_active m) = None then None else Some (m_active m))" using t by blast
  qed simp
next
  case False
  obtain n m1 where pk: "pickLocked m = (n, m1)" by fastforce
  have p: "poolFor m bind = (if map_of (m_entries m) n = None then None else Some n, m1)"
    using False by (auto simp: poolFor_def pk pickLocked_entries(1) [OF pk])
  note some = pickLocked_healthy(1) [OF assms pk] and none = pickLocked_healthy(2) [OF assms pk]
  have fr: "\<exists>a i. m1 = m\<lparr>m_active := a, m_rrIdx := i\<rparr>" using pickLocked_frame [OF pk] by blast
  show ?thesis
    unfolding p prod.case
  proof (intro conjI impI fr)
    show "(if map_of (m_entries m) n = None then None else Some n) = Some bind" "m1 = m"
      if "entryHealthyLocked m bind \<and> bind \<noteq> []"
      using False that by simp_all
    show "m1 = m" "(if map_of (m_entries m) n = None then None else Some n)
        = (if map_of (m_entries m) (m_active m) = None then None else Some (m_active m))"
      if "\<forall>k. \<not> entryHealthyLocked m k"
      using none [OF that] by simp_all
    assume "\<exists>k. entryHealthyLocked m k"
    then have "entryHealthyLocked m n" using some by blast
    with entryHealthy_Some [OF this] show "\<exists>k. (if map_of (m_entries m) n = None then None else Some n) = Some k
        \<and> entryHealthyLocked m k" by auto
  qed
qed

theorem poolFor_healthy_witness:
  "mgr_ok (sample_manager RoundRobin)
   \<and> (\<exists>n m'. poolFor (sample_manager RoundRobin) ''x'' = (Some n, m') \<and> entryHealthyLocked (sample_manager RoundRobin) n)"
proof -
  have "\<exists>n. entryHealthyLocked (sample_manager RoundRobin) n" using sample_manager_simps(9) by blast
  with poolFor_healthy [OF sample_manager_ok [of RoundRobin], of "''x''"] sample_manager_ok [of RoundRobin]
  show ?thesis by (cases "poolFor (sample_manager RoundRobin) ''x''") simp
qed

text \<open>C32. Round robin is fair: as long as the set of healthy servers does not change, the choices
  follow their order cyclically from the counter, and one full turn serves every healthy server
  exactly once (the counter is 32 bits wide and must not wrap during the turn).\<close>

theorem round_robin_fair:
  assumes "m_strategy m = RoundRobin" and "healthyNamesLocked m \<noteq> []"
    and "unat (m_rrIdx m) + length (healthyNamesLocked m) \<le> 2 ^ 32"
  shows "fst (draws pickLocked (length (healthyNamesLocked m)) m) = rotate (unat (m_rrIdx m)) (healthyNamesLocked m)
     \<and> mset (fst (draws pickLocked (length (healthyNamesLocked m)) m)) = mset (healthyNamesLocked m)"
proof -
  have ok: "rr_ok m" using assms by (simp add: rr_ok_def)
  show ?thesis
    using rr.draws_cyclic [OF ok assms(3)] rr.draws_turn [OF ok assms(3)]
      map_nth_mod_rotate [OF assms(2), of "unat (m_rrIdx m)"] by simp
qed

theorem round_robin_fair_witness:
  "fst (draws pickLocked (length (healthyNamesLocked (sample_manager RoundRobin))) ((sample_manager RoundRobin)\<lparr>m_rrIdx := 1\<rparr>)) = [''b'', ''a'']"
  using round_robin_fair [of "(sample_manager RoundRobin)\<lparr>m_rrIdx := 1\<rparr>"]
  by (simp del: draws.simps)

text \<open>Weighted choice is exact: in one full turn of as many picks as the weights add up to, every
  healthy server is picked exactly as often as its weight says.\<close>

lemma weighted_exact:
  assumes "weights_ok m" and "distinct (m_order m)" and "unat (m_rrIdx m) + length (weight_menu m) \<le> 2 ^ 32"
    and "n \<in> set (healthyNamesLocked m)"
  shows "int (length (weight_menu m)) = total_weight m
     \<and> int (count (mset (fst (draws pickLocked (nat (total_weight m)) m))) n) = weight_of m n"
proof -
  have pos: "\<forall>n \<in> set (healthyNamesLocked m). 0 \<le> weight_of m n" using assms(1) by (fastforce simp: weights_ok_def)
  note len = length_weight_menu [OF pos]
  have "distinct (healthyNamesLocked m)" using assms(2) by (simp add: healthyNamesLocked_def)
  from count_weight_menu [OF this assms(4)] weighted.draws_turn [OF assms(1,3)] pos assms(4) len
  show ?thesis by (metis int_nat_eq nat_int)
qed

text \<open>Least latency picks a healthy server whose last round-trip time is minimal among the
  healthy ones, a server not yet measured counting as one millisecond.\<close>

lemma least_latency_min:
  assumes "m_strategy m = LeastLatency" and "n \<in> set (healthyNamesLocked m)"
    and "\<forall>k \<in> set (healthyNamesLocked m). rtt_of m k < 2 ^ 63 - 1"
  shows "case pickLocked m of (best, m') \<Rightarrow> m' = m \<and> best \<in> set (healthyNamesLocked m)
     \<and> eff_rtt m best \<le> eff_rtt m n"
proof -
  have lt: "\<forall>k \<in> set (healthyNamesLocked m). eff_rtt m k < 2 ^ 63 - 1"
    using assms(3) by (simp add: eff_rtt_def Millisecond_def)
  have "healthyNamesLocked m \<noteq> []" using assms(2) by auto
  with latencyPick_min [OF lt assms(2)] assms(1) show ?thesis by (simp add: pickLocked_def)
qed

text \<open>Failover sticks: with the failover strategy the active server is used while it is healthy;
  when it is not, the first healthy one in configured order becomes active, and from then on the
  same server is chosen again and again.\<close>

lemma failover_sticks:
  assumes "m_strategy m = Failover" and "healthyNamesLocked m \<noteq> []"
  shows "case pickLocked m of (n, m') \<Rightarrow>
     n = (if m_active m \<in> set (healthyNamesLocked m) then m_active m else hd (healthyNamesLocked m))
     \<and> m' = m\<lparr>m_active := n\<rparr> \<and> fst (draws pickLocked k m') = replicate k n"
proof -
  obtain n m' where pk: "pickLocked m = (n, m')" by fastforce
  have same: "m\<lparr>m_active := m_active m\<rparr> = m" by simp
  have n: "n = (if m_active m \<in> set (healthyNamesLocked m) then m_active m else hd (healthyNamesLocked m))
      \<and> m' = m\<lparr>m_active := n\<rparr>"
  proof (cases "m_active m \<in> set (healthyNamesLocked m)")
    case True
    then have "n = m_active m" "m' = m" using pk assms by (auto simp: pickLocked_def)
    with True same show ?thesis by simp
  next
    case False
    with pk assms show ?thesis by (auto simp: pickLocked_def Let_def)
  qed
  have "n \<in> set (healthyNamesLocked m)" by (rule pickLocked_in [OF assms(2) pk])
  then have "pickLocked m' = (n, m')" using assms by (simp add: pickLocked_def conjunct2 [OF n])
  then have "fst (draws pickLocked k m') = replicate k n" by (induction k) (simp_all add: case_prod_beta)
  with pk n show ?thesis by simp
qed

lemma find_filter_hd: "find P xs = (if filter P xs = [] then None else Some (hd (filter P xs)))"
  by (induction xs) auto

lemma entry_failed_iter:
  assumes "entry_ok hs e"
  shows "en_failures ((entry_failed hs ^^ k) e) = en_failures e + int k
     \<and> (en_healthy ((entry_failed hs ^^ k) e) \<longleftrightarrow> en_healthy e \<and> en_failures e + int k < hs_FailThreshold hs)"
proof (induction k)
  case 0
  then show ?case using assms by (auto simp: entry_ok_def)
next
  case (Suc k)
  then show ?case by (auto simp: entry_failed_def Let_def)
qed

lemma entry_alive_iter:
  assumes "entry_ok hs e" and "\<not> en_healthy e"
  shows "if en_recovers e + int (length rtts) < hs_RecoverThreshold hs
     then \<not> en_healthy (fold (entry_alive hs) rtts e)
       \<and> en_recovers (fold (entry_alive hs) rtts e) = en_recovers e + int (length rtts)
     else en_healthy (fold (entry_alive hs) rtts e)"
proof (induction rtts rule: rev_induct)
  case Nil
  then show ?case using assms by (auto simp: entry_ok_def)
next
  case (snoc r rtts)
  then show ?case by (auto simp: entry_alive_def Let_def split: if_splits)
qed

text \<open>Health follows the thresholds: a healthy server becomes unhealthy exactly when its
  consecutive failed pings reach the fail threshold, an unhealthy one healthy exactly when its
  consecutive answered pings reach the recover threshold; one answer forgets earlier failures and
  one failure forgets earlier answers.\<close>

lemma health_thresholds:
  assumes "entry_ok hs e"
  shows "(en_healthy e \<longrightarrow> en_healthy ((entry_failed hs ^^ k) e) = (en_failures e + int k < hs_FailThreshold hs))
     \<and> (\<not> en_healthy e \<longrightarrow> en_healthy (fold (entry_alive hs) rtts e)
          = (hs_RecoverThreshold hs \<le> en_recovers e + int (length rtts)))
     \<and> en_failures (entry_alive hs rtt e) = 0 \<and> en_recovers (entry_failed hs e) = 0
     \<and> en_lastRTT (entry_alive hs rtt e) = rtt"
proof -
  have "en_failures (entry_alive hs rtt e) = 0" "en_recovers (entry_failed hs e) = 0"
    "en_lastRTT (entry_alive hs rtt e) = rtt"
    by (auto simp: entry_alive_def entry_failed_def Let_def)
  moreover have "\<not> en_healthy e \<longrightarrow> en_healthy (fold (entry_alive hs) rtts e)
          = (hs_RecoverThreshold hs \<le> en_recovers e + int (length rtts))"
    using entry_alive_iter [OF assms, of rtts] by (auto split: if_splits)
  ultimately show ?thesis using entry_failed_iter [OF assms, of k] by blast
qed

text \<open>When a failed ping makes the active server unhealthy, the first server in configured order
  that is still healthy becomes the active one; a failed ping of another server, and an answered
  one, leave the active server alone.\<close>

lemma check_fails_over:
  assumes "mgr_ok m" and "map_of (m_entries m) n = Some e" and "check_entry m n err rtt = (m', started)"
  shows "m_active m' = (if err \<noteq> None \<and> en_healthy e \<and> hs_FailThreshold (m_health m) \<le> en_failures e + 1
         \<and> m_active m = n \<and> healthyNamesLocked m' \<noteq> [] then hd (healthyNamesLocked m') else m_active m)
     \<and> (started \<longleftrightarrow> err \<noteq> None \<and> \<not> en_reconnecting e \<and> \<not> entryHealthyLocked m' n)
     \<and> (\<forall>k. k \<noteq> n \<longrightarrow> map_of (m_entries m') k = map_of (m_entries m) k)"
proof (cases err)
  case None
  with assms show ?thesis by (auto simp: check_entry_def update_conv')
next
  case (Some x)
  let ?e = "entry_failed (m_health m) e"
  let ?m1 = "m\<lparr>m_entries := AList.update n ?e (m_entries m)\<rparr>"
  let ?drop = "en_healthy e \<and> \<not> en_healthy ?e \<and> m_active m = n"
  have m': "m' = (if ?drop then failoverLocked ?m1 else ?m1)" and st: "started = (\<not> en_healthy ?e \<and> \<not> en_reconnecting e)"
    using assms(2,3) Some by (auto simp: check_entry_def Let_def)
  have es: "m_entries m' = AList.update n ?e (m_entries m)" "m_order m' = m_order m" by (simp_all add: m')
  have h: "en_healthy ?e \<longleftrightarrow> en_healthy e \<and> en_failures e + 1 < hs_FailThreshold (m_health m)"
    by (auto simp: entry_failed_def Let_def)
  have hn: "healthyNamesLocked m' = healthyNamesLocked ?m1"
    by (simp add: healthyNamesLocked_def es entryHealthyLocked_cong [of m' ?m1])
  have "m_active (failoverLocked ?m1) = (if healthyNamesLocked ?m1 \<noteq> [] then hd (healthyNamesLocked ?m1) else m_active m)"
    by (simp add: failoverLocked_def healthyNamesLocked_def find_filter_hd split: option.splits)
  then have "m_active m' = (if ?drop \<and> healthyNamesLocked m' \<noteq> [] then hd (healthyNamesLocked m') else m_active m)"
    unfolding hn by (simp add: m')
  moreover have "entryHealthyLocked m' n = en_healthy ?e"
    by (simp add: entryHealthyLocked_def es update_conv')
  ultimately show ?thesis using Some st h by (auto simp: es update_conv' not_less)
qed

text \<open>What pings leave alone: the servers, their health and what their pools hold.\<close>

definition held :: "Pool \<Rightarrow> handle set \<times> Session list" where
  "held p = (pool_holds p, p_sessions p)"

definition shape :: "Manager \<Rightarrow> (string \<times> UpstreamEndpoint \<times> bool \<times> handle set \<times> Session list) list" where
  "shape m = map (\<lambda>(n, e). (n, en_ep e, en_healthy e, held (en_pool e))) (m_entries m)"

lemma ping_holds:
  "PingWithTimeout env p w = (r, p', w') \<Longrightarrow> held p' = held p"
  by (auto simp: PingWithTimeout_def openStream_def held_def pool_holds_def ctrl_handles_def
      split: sum.splits prod.splits if_splits)

lemma set_pool_shape:
  assumes "held p = held (pool_of m n)"
  shows "shape (set_pool n p m) = shape m"
proof -
  have "map_of es n = None \<or> (\<exists>e. map_of es n = Some e \<and> held p = held (en_pool e)) \<Longrightarrow>
      map (\<lambda>(n, e). (n, en_ep e, en_healthy e, held (en_pool e))) (AList.map_entry n (\<lambda>e. e\<lparr>en_pool := p\<rparr>) es)
      = map (\<lambda>(n, e). (n, en_ep e, en_healthy e, held (en_pool e))) es" for es
    by (induction es) (auto split: if_splits)
  with assms show ?thesis by (auto simp: shape_def set_pool_def pool_of_def split: option.splits)
qed

lemma pingAll_shape:
  assumes "world_ok w" and "pingAll env ns m w = (r, m', w')"
  shows "shape m' = shape m \<and> m_order m' = m_order m \<and> m_active m' = m_active m \<and> unchanged w w'"
  using assms
proof (induction ns arbitrary: m w r)
  case Nil
  then show ?case by (simp add: unchanged_def)
next
  case (Cons n ns)
  obtain err p w1 r' where pw: "PingWithTimeout env (pool_of m n) w = (err, p, w1)"
    and pa: "pingAll env ns (set_pool n p m) w1 = (r', m', w')"
    using Cons.prems(2) by (auto split: prod.splits)
  note u = PingWithTimeout_unchanged [OF Cons.prems(1) pw]
  from Cons.IH [OF unchanged_ok [OF u] pa] set_pool_shape [OF ping_holds [OF pw]] unchanged_trans [OF u]
  show ?case by (auto simp: set_pool_def)
qed

lemma shape_holds: "fleet.holds_all (m_entries m) = (\<Union>(n, ep, h, H, ss) \<in> set (shape m). H)"
  by (auto simp: shape_def held_def fleet.holds_all_def entry_holds_def)

lemma shape_close:
  assumes "shape m' = shape m" and "w_open w' = w_open w"
  shows "w_open (snd (mgr_Close m' w')) = w_open (snd (mgr_Close m w))"
  using assms shape_holds [of m'] shape_holds [of m]
  by (simp add: mgr_Close_def close_entries_release fleet.release_all_open)

lemma bench_loop_shape:
  assumes "world_ok w" and "bench_loop env ns m w = (rs, m', w')"
  shows "shape m' = shape m \<and> unchanged w w'
    \<and> map (\<lambda>r. (br_Name r, br_Addr r)) rs
        = concat (map (\<lambda>n. case map_of (shape m) n of None \<Rightarrow> [] | Some (ep, _) \<Rightarrow> [(n, udp_addr_string (ep_Addr ep))]) ns)"
  using assms
proof (induction ns arbitrary: m w rs)
  case Nil
  then show ?case by (simp add: unchanged_def)
next
  case (Cons n ns)
  have s: "map_of (shape m) n = map_option (\<lambda>e. (en_ep e, en_healthy e, held (en_pool e))) (map_of (m_entries m) n)" for m
    by (simp add: shape_def map_of_map)
  show ?case
  proof (cases "map_of (m_entries m) n")
    case None
    with Cons.prems Cons.IH [OF Cons.prems(1)] s [of m] show ?thesis by simp
  next
    case (Some e)
    then have po: "pool_of m n = en_pool e" by (simp add: pool_of_def)
    obtain err p w1 rs' where pw: "PingWithTimeout env (en_pool e) w = (err, p, w1)"
      and b: "bench_loop env ns (set_pool n p m) w1 = (rs', m', w')"
      and rs: "rs = \<lparr>br_Name = n, br_Addr = udp_addr_string (ep_Addr (en_ep e)), br_RTT = e_rtt env w1, br_OK = (err = None), br_Error = err\<rparr> # rs'"
      using Cons.prems Some by (auto split: prod.splits)
    note u = PingWithTimeout_unchanged [OF Cons.prems(1) pw]
    have "shape (set_pool n p m) = shape m" by (rule set_pool_shape) (simp add: ping_holds [OF pw] po)
    with Cons.IH [OF unchanged_ok [OF u] b] unchanged_trans [OF u] s [of m] Some rs show ?thesis by simp
  qed
qed

lemma shape_alive:
  "(\<forall>(n, e) \<in> set (m_entries m). Alive (en_pool e) w) \<longleftrightarrow>
     (\<forall>(n, ep, h, H, ss) \<in> set (shape m). list_ex (\<lambda>s. smux_alive s w) ss)"
  by (auto simp: shape_def held_def Alive_def)

definition fresh_shape :: "UpstreamEndpoint list \<Rightarrow> Manager \<Rightarrow> bool" where
  "fresh_shape eps m \<longleftrightarrow> m_order m = map ep_Name eps
     \<and> map (\<lambda>(n, e). (n, en_ep e)) (m_entries m) = map (\<lambda>ep. (ep_Name ep, ep)) eps
     \<and> (\<forall>(n, e) \<in> set (m_entries m). en_healthy e) \<and> (eps \<noteq> [] \<longrightarrow> m_active m = ep_Name (hd eps))"

lemma fresh_shape_iff:
  "fresh_shape eps m \<longleftrightarrow> m_order m = map ep_Name eps
     \<and> map (\<lambda>(n, ep, h, H). (n, ep)) (shape m) = map (\<lambda>ep. (ep_Name ep, ep)) eps
     \<and> (\<forall>(n, ep, h, H) \<in> set (shape m). h) \<and> (eps \<noteq> [] \<longrightarrow> m_active m = ep_Name (hd eps))"
  by (auto simp: fresh_shape_def shape_def comp_def case_prod_unfold)

lemma fresh_shape_cong:
  "shape m' = shape m \<Longrightarrow> m_order m' = m_order m \<Longrightarrow> m_active m' = m_active m \<Longrightarrow> fresh_shape eps m' = fresh_shape eps m"
  by (simp only: fresh_shape_iff)

lemma built_eps:
  assumes "map (\<lambda>(n, e). (n, en_id e, en_ep e)) es = map (\<lambda>(k, ep). (ep_Name ep, k, ep)) (enumerate i eps)"
  shows "map (\<lambda>(n, e). (n, en_ep e)) es = map (\<lambda>ep. (ep_Name ep, ep)) eps"
proof -
  have "map (\<lambda>(n, e). (n, en_ep e)) es = map (\<lambda>(k, ep). (ep_Name ep, ep)) (enumerate i eps)"
    using arg_cong [OF assms, of "map (\<lambda>(n, k, ep). (n, ep))"] by (simp add: comp_def case_prod_unfold)
  also have "\<dots> = map (\<lambda>ep. (ep_Name ep, ep)) (map snd (enumerate i eps))"
    by (simp only: map_map comp_def case_prod_unfold)
  finally show ?thesis by simp
qed

lemma fleet_holds:
  "\<forall>(n, e) \<in> set es. pool_holds (en_pool e) = pool_cover (en_pool e) \<Longrightarrow> fleet.holds_all es = entries_cover es"
  by (fastforce simp: fleet.holds_all_def entries_cover_def entry_holds_def)

lemma NewManager_fresh:
  assumes "world_ok w" and "UpstreamEndpoints cfg = Inr eps" and "distinct (map ep_Name eps)"
  shows "case NewManager cr env cfg flags w of
      (Inl e, w') \<Rightarrow> w_open w' = w_open w
    | (Inr m, w') \<Rightarrow> fresh_shape eps m \<and> (\<forall>(n, e) \<in> set (m_entries m). Alive (en_pool e) w')
        \<and> w_open (snd (mgr_Close m w')) = w_open w"
proof -
  obtain r w1 where b: "build_entries cr env cfg flags eps 0 [] [] w = (r, w1)" by fastforce
  note fl = build_entries_fleet [OF assms(3,1) b]
  show ?thesis
  proof (cases r)
    case (Inl e)
    with fl b assms(2) show ?thesis by (simp add: NewManager_def unchanged_def)
  next
    case (Inr x)
    then obtain es order where r: "r = Inr (es, order)" by (cases x) simp
    have "\<forall>(n, e) \<in> set es. pool_holds (en_pool e) = pool_cover (en_pool e)" using fl r by fastforce
    from fleet_holds [OF this] have es: "grows w (fleet.holds_all es) w1" "order = map ep_Name eps"
      "\<forall>(n, e) \<in> set es. en_healthy e"
      "map (\<lambda>(n, e). (n, en_ep e)) es = map (\<lambda>ep. (ep_Name ep, ep)) eps"
      using fl r by (auto intro: built_eps)
    let ?m = "\<lparr>m_cfg = cfg, m_health = defaultHealth (e_pd env) cfg, m_strategy = defaultStrategy cfg,
      m_remoteFlags = flags, m_entries = es, m_order = order,
      m_active = (if order = [] then [] else hd order), m_rrIdx = 0, m_cancelled = False, m_nextId = length eps\<rparr>"
    obtain pr m w2 where pa: "pingAll env (map fst es) ?m w1 = (pr, m, w2)" by (metis prod_cases3)
    note ps = pingAll_shape [OF grows_ok [OF es(1)] pa]
    have fresh: "fresh_shape eps ?m" using es(2-4) by (cases eps) (auto simp: fresh_shape_def)
    have "fresh_shape eps m = fresh_shape eps ?m" by (rule fresh_shape_cong) (use ps in blast)+
    with fresh have "fresh_shape eps m" by blast
    moreover have "\<forall>(n, e) \<in> set (m_entries m). Alive (en_pool e) w2"
    proof -
      have "\<forall>(n, e) \<in> set (m_entries ?m). Alive (en_pool e) w1" using fl r by auto
      moreover have "smux_alive s w2 = smux_alive s w1" for s
        using ps by (intro smux_alive_open) (simp add: unchanged_def)
      ultimately show ?thesis using ps unfolding shape_alive by simp
    qed
    moreover have h: "fleet.holds_all (m_entries m) = fleet.holds_all es"
      using ps shape_holds [of m] shape_holds [of ?m] by simp
    have "grows w (fleet.holds_all (m_entries m)) w2" unfolding h using ps grows_unchanged [OF es(1)] by blast
    from grows_undo [OF assms(1) this] have "w_open (snd (mgr_Close m w2)) = w_open w"
      by (simp add: mgr_Close_def close_entries_release fleet.release_all_open)
    moreover have "NewManager cr env cfg flags w = (Inr m, w2)"
      using assms(2) b r pa by (simp add: NewManager_def)
    ultimately show ?thesis by simp
  qed
qed



lemma mgr_Reload_result:
  assumes "world_ok w" and "UpstreamEndpoints cfg = Inr eps" and "distinct (map ep_Name eps)"
  shows "case mgr_Reload cr env cfg flags m w of
      (Some e, m', w') \<Rightarrow> (\<exists>k. m' = m\<lparr>m_nextId := k\<rparr>) \<and> w_open w' = w_open w
    | (None, m', w') \<Rightarrow> fresh_shape eps m' \<and> m_cfg m' = cfg \<and> m_strategy m' = defaultStrategy cfg
        \<and> m_health m' = defaultHealth (e_pd env) cfg \<and> m_remoteFlags m' = flags
        \<and> (\<forall>x \<in> set (w_open w). x \<in> set (w_open w') \<longleftrightarrow> live (fleet.holds_all (m_entries m)) x)"
proof -
  obtain r w1 where b: "build_entries cr env cfg flags eps (m_nextId m) [] [] w = (r, w1)" by fastforce
  note fl = build_entries_fleet [OF assms(3,1) b]
  show ?thesis
  proof (cases r)
    case (Inl e)
    with fl b assms(2) show ?thesis by (auto simp: mgr_Reload_def unchanged_def)
  next
    case (Inr x)
    then obtain es order where r: "r = Inr (es, order)" by (cases x) simp
    have es: "order = map ep_Name eps" "\<forall>(n, e) \<in> set es. en_healthy e" "grows w (entries_cover es) w1"
      "map (\<lambda>(n, e). (n, en_ep e)) es = map (\<lambda>ep. (ep_Name ep, ep)) eps"
      using fl r by (auto intro: built_eps)
    let ?m' = "m\<lparr>m_nextId := m_nextId m + length eps, m_cfg := cfg, m_health := defaultHealth (e_pd env) cfg,
        m_strategy := defaultStrategy cfg, m_remoteFlags := flags, m_entries := es,
        m_order := order, m_active := (if order \<noteq> [] then hd order else m_active m)\<rparr>"
    have o: "w_open (close_entries (m_entries m) w1) = filter (live (fleet.holds_all (m_entries m))) (w_open w1)"
      by (simp add: close_entries_release fleet.release_all_open)
    have "set (w_open w) \<subseteq> set (w_open w1)" using es(3) by (auto simp: grows_def)
    moreover have "fresh_shape eps ?m'" using es(1,2,4) by (cases eps) (auto simp: fresh_shape_def)
    moreover have "mgr_Reload cr env cfg flags m w = (None, ?m', close_entries (m_entries m) w1)"
      using assms(2) b r by (simp add: mgr_Reload_def reload_swap_def)
    ultimately show ?thesis by (auto simp: o)
  qed
qed

text \<open>A hot reload is all or nothing: when it fails the manager serves exactly as before and no
  object is left over; when it succeeds every server of the new configuration has a healthy entry,
  in order, the first one active, the new settings are in force, and of the objects open before
  exactly those of the old pools are gone.\<close>

lemma reload_all_or_nothing:
  assumes "world_ok w" and "UpstreamEndpoints cfg = Inr eps" and "distinct (map ep_Name eps)"
  shows "case mgr_Reload cr env cfg flags m w of
      (Some e, m', w') \<Rightarrow> (\<exists>k. m' = m\<lparr>m_nextId := k\<rparr>) \<and> w_open w' = w_open w
    | (None, m', w') \<Rightarrow> fresh_shape eps m' \<and> m_cfg m' = cfg \<and> m_strategy m' = defaultStrategy cfg
        \<and> m_health m' = defaultHealth (e_pd env) cfg \<and> m_remoteFlags m' = flags
        \<and> (\<forall>x \<in> set (w_open w). x \<in> set (w_open w') \<longleftrightarrow> live (fleet.holds_all (m_entries m)) x)"
  by (rule mgr_Reload_result [OF assms])

end
