(* ===== verification/Liveness.thy ===== *)
theory Liveness
  imports Upstream
begin

text \<open>
  That the client comes up: when no external call fails, every dial succeeds and the manager
  starts with all configured servers. The constructors' other theorems say what holds if they
  return; these say that they do.
\<close>

definition calm :: "env \<Rightarrow> bool" where
  "calm env \<longleftrightarrow> (\<forall>c w. e_fail env c w = None)"

definition succeeds :: "'a res \<times> world \<Rightarrow> bool" where
  "succeeds x \<longleftrightarrow> (\<exists>v w. x = (Inr v, w))"

lemma succeedsE: "succeeds x \<Longrightarrow> (\<And>v w. x = (Inr v, w) \<Longrightarrow> P) \<Longrightarrow> P"
  by (auto simp: succeeds_def)

lemma calm_simps:
  assumes "calm env"
  shows "acquire env c p w = (Inr (w_next w), (tick w)\<lparr>w_next := w_next w + 1, w_open := (w_next w, p) # w_open w\<rparr>)"
    "attempt env c w = (None, tick w)"
    "stream_write env h w bs = (None, (tick w)\<lparr>w_log := w_log w @ [(h, bs)]\<rparr>)"
  using assms by (simp_all add: calm_def acquire_def attempt_def stream_write_def)

lemma openHandle_calm: "calm env \<Longrightarrow> succeeds (openHandle env rt t w)"
  by (simp add: openHandle_def calm_simps succeeds_def Let_def)

lemma pcap_Open_calm:
  assumes "calm env"
  shows "succeeds (pcap_Open env now rt w)"
proof -
  obtain h1 w1 where h1: "openHandle env rt BlockForever w = (Inr h1, w1)"
    using openHandle_calm [OF assms] by (rule succeedsE)
  obtain h2 w2 where h2: "openHandle env rt readTimeout (tick w1) = (Inr h2, w2)"
    using openHandle_calm [OF assms] by (rule succeedsE)
  show ?thesis
    by (simp add: pcap_Open_def newSendHandle_def newRecvHandle_def h1 h2 calm_simps [OF assms] succeeds_def)
qed

lemma dialKCP_calm:
  assumes "calm env"
  shows "\<exists>s w'. dialKCP env addr opt pc w = (Inr s, w') \<and> ss_Smux s \<noteq> None"
  by (simp add: dialKCP_def smuxClient_def calm_simps [OF assms])

lemma dialQUIC_calm:
  assumes "calm env" and "\<not> is_err (tlsConfigFromSecret cr (o_SecretKey opt) (qo_ALPN (o_QUIC opt)) False)"
  shows "\<exists>s w'. dialQUIC cr env addr opt pc w = (Inr s, w') \<and> ss_Smux s \<noteq> None"
  using assms(2) by (auto simp: not_is_err_iff dialQUIC_def smuxClient_def new_quic_transport_def calm_simps [OF assms(1)])

text \<open>What a transport needs from the configuration and the crypto library.\<close>

definition usable :: "crypto \<Rightarrow> Options \<Rightarrow> bool" where
  "usable cr opt \<longleftrightarrow> (o_Protocol opt = ProtocolQUIC \<longrightarrow>
     \<not> is_err (tlsConfigFromSecret cr (o_SecretKey opt) (qo_ALPN (o_QUIC opt)) False))"

lemma transport_Dial_calm:
  assumes "calm env" and "usable cr opt"
  shows "\<exists>s w'. transport_Dial cr env addr opt pc w = (Inr s, w') \<and> ss_Smux s \<noteq> None"
proof (cases "o_Protocol opt = ProtocolQUIC")
  case True
  with dialQUIC_calm [OF assms(1)] assms(2) show ?thesis by (simp add: transport_Dial_def usable_def)
next
  case False
  with dialKCP_calm [OF assms(1)] show ?thesis by (simp add: transport_Dial_def)
qed

definition network_ok :: "env \<Rightarrow> Config \<Rightarrow> bool" where
  "network_ok env cfg \<longleftrightarrow> (\<forall>w. \<not> is_err (ResolveNetworkWithPort (e_iface env) (e_rnd env w) cfg 0))"

lemma dial_session_calm:
  assumes c: "calm env" and k: "usable cr opt" and n: "network_ok env cfg"
  shows "succeeds (dial_session cr env cfg remote opt flags i w)"
proof -
  obtain rt0 where rt: "ResolveNetworkWithPort (e_iface env) (e_rnd env w) cfg 0 = Inr rt0"
    using n by (auto simp: network_ok_def not_is_err_iff)
  obtain cn w1 where o: "pcap_Open env (int (w_clock w)) (fix_port (e_rnd env w) rt0) w = (Inr cn, w1)"
    using pcap_Open_calm [OF c] by (rule succeedsE)
  let ?w2 = "set_remote_flags (sh_handle (cn_send cn)) remote flags w1"
  obtain s w3 where d: "transport_Dial cr env remote opt (conn_handles cn) ?w2 = (Inr s, w3)" "ss_Smux s \<noteq> None"
    using transport_Dial_calm [OF c k] by blast
  then obtain sm where "ss_Smux s = Some sm" by blast
  with rt o d show ?thesis
    by (simp add: dial_session_def sendRemoteFlags_def msg_Write_def calm_simps [OF c] succeeds_def)
qed

lemma dial_each_calm:
  "(\<And>k w. succeeds (dial k w)) \<Longrightarrow> succeeds (dial_each dial release ks acc w)"
proof (induction ks arbitrary: acc w)
  case Nil
  then show ?case by (simp add: succeeds_def)
next
  case (Cons k ks)
  obtain x w1 where "dial k w = (Inr x, w1)" using Cons.prems by (rule succeedsE)
  with Cons show ?case by simp
qed

lemma pool_Dial_calm:
  assumes c: "calm env" and o: "OptionsFromConfig cr (e_pd env) RoleClient tcfg = Inr opt"
    and k: "usable cr opt" and n: "network_ok env cfg"
  shows "succeeds (pool_Dial cr env cfg remote tcfg flags w)"
proof -
  define ks where "ks = [0..<if t_Conn (c_Transport cfg) < 1 then 1 else nat (t_Conn (c_Transport cfg))]"
  obtain ss w1 where "dial_each (dial_session cr env cfg remote opt flags) session_Close ks [] w = (Inr ss, w1)"
    using dial_each_calm [OF dial_session_calm [OF c k n]] by (rule succeedsE)
  with o show ?thesis by (simp add: pool_Dial_def succeeds_def Let_def flip: ks_def)
qed

definition endpoint_ok :: "crypto \<Rightarrow> env \<Rightarrow> UpstreamEndpoint \<Rightarrow> bool" where
  "endpoint_ok cr env ep =
     (case OptionsFromConfig cr (e_pd env) RoleClient (ep_Transport ep) of Inl _ \<Rightarrow> False | Inr opt \<Rightarrow> usable cr opt)"

lemma build_entries_calm:
  assumes c: "calm env" and n: "network_ok env cfg" and "list_all (endpoint_ok cr env) eps"
  shows "succeeds (build_entries cr env cfg flags eps i es order w)"
  using assms(3)
proof (induction eps arbitrary: i es order w)
  case Nil
  then show ?case by (simp add: succeeds_def)
next
  case (Cons ep eps)
  then obtain opt where "OptionsFromConfig cr (e_pd env) RoleClient (ep_Transport ep) = Inr opt" "usable cr opt"
    by (auto simp: endpoint_ok_def split: sum.splits)
  from pool_Dial_calm [OF c this n] obtain p w1 where
    "pool_Dial cr env cfg (ep_Addr ep) (ep_Transport ep) flags w = (Inr p, w1)" by (rule succeedsE)
  with Cons show ?case by simp
qed

lemma NewManager_calm:
  assumes "calm env" and "network_ok env cfg" and e: "UpstreamEndpoints cfg = Inr eps"
    and "list_all (endpoint_ok cr env) eps"
  shows "succeeds (NewManager cr env cfg flags w)"
proof -
  obtain x w1 where b: "build_entries cr env cfg flags eps 0 [] [] w = (Inr x, w1)"
    using build_entries_calm [OF assms(1,2,4)] by (rule succeedsE)
  then show ?thesis using e by (cases x) (auto simp: NewManager_def succeeds_def Let_def split: prod.splits)
qed

section \<open>Pings that are answered\<close>

text \<open>Every ping is answered.\<close>

definition answers :: "env \<Rightarrow> bool" where
  "answers env \<longleftrightarrow> (\<forall>h w. \<exists>m r. e_dec env (e_input env h w) = (Inr m, r) \<and> Type m = Pong)"

lemma Ping_calm:
  assumes "calm env" and "answers env" and "Alive p w"
  shows "fst (PingWithTimeout env p w) = None"
proof -
  have ne: "p_sessions p \<noteq> []" using assms(3) by (auto simp: Alive_def)
  have cf: "\<And>sm w. e_fail env (SmuxOpenStream sm) w = None" using assms(1) by (simp add: calm_def)
  from open_stream_round_robin [OF cf ne, of w] assms(3)
  obtain h p1 w1 where o: "openStream env p w = (Inr h, p1, w1)" by (auto split: option.splits)
  obtain m r where "e_dec env (e_input env h ((tick w1)\<lparr>w_log := w_log w1 @ [(h, e_enc env (message Ping))]\<rparr>)) = (Inr m, r)" "Type m = Pong"
    using assms(2) unfolding answers_def by blast
  with o show ?thesis by (simp add: PingWithTimeout_def PingRoundTrip_def msg_Write_def calm_simps [OF assms(1)] tick_def)
qed

lemma pingAll_calm:
  assumes "calm env" and "answers env" and "world_ok w" and "\<forall>(n, e) \<in> set (m_entries m). Alive (en_pool e) w"
    and "set ns \<subseteq> fst ` set (m_entries m)"
  shows "fst (pingAll env ns m w) = None"
  using assms(3-5)
proof (induction ns arbitrary: m w)
  case (Cons n ns)
  obtain err p w1 where pw: "PingWithTimeout env (pool_of m n) w = (err, p, w1)" by (metis prod_cases3)
  note u = PingWithTimeout_unchanged [OF Cons.prems(1) pw]
  have "n \<in> dom (map_of (m_entries m))" using Cons.prems(3) by (simp add: dom_map_of_conv_image_fst)
  then obtain e where e: "map_of (m_entries m) n = Some e" by blast
  have "(n, e) \<in> set (m_entries m)" by (rule map_of_SomeD [OF e])
  with Cons.prems(2) have "Alive (en_pool e) w" by blast
  with Ping_calm [OF assms(1,2), of "pool_of m n" w] pw e have err: "err = None" by (simp add: pool_of_def)
  have sh: "shape (set_pool n p m) = shape m" by (rule set_pool_shape) (rule ping_holds [OF pw])
  have "map fst (shape m') = map fst (m_entries m')" for m' by (simp add: shape_def comp_def case_prod_unfold)
  with sh have "fst ` set (m_entries (set_pool n p m)) = fst ` set (m_entries m)" by (metis list.set_map)
  with Cons.prems(3) have sub: "set ns \<subseteq> fst ` set (m_entries (set_pool n p m))" by simp
  have "smux_alive s w1 = smux_alive s w" for s using u by (intro smux_alive_open) (simp add: unchanged_def)
  then have "\<forall>(n, e) \<in> set (m_entries (set_pool n p m)). Alive (en_pool e) w1"
    using Cons.prems(2) unfolding shape_alive sh by simp
  from Cons.IH [OF unchanged_ok [OF u] this sub] pw err show ?case by (simp split: prod.split option.split)
qed simp

section \<open>A sample client that comes up\<close>

definition sample_quic_client :: Config where
  "sample_quic_client = sample_client\<lparr>c_Transport := sample_kcp\<lparr>t_Protocol := ''quic'', t_Conn := 1\<rparr>\<rparr>"

lemma calm_env_calm [simp]: "calm calm_env"
  by (simp add: calm_def calm_env_def)

lemma sample_quic_network: "network_ok calm_env sample_quic_client"
proof -
  have "\<not> is_err (ResolveNetworkWithPort (e_iface calm_env) 7 sample_quic_client 0)" by code_simp
  then show ?thesis by (simp add: network_ok_def calm_env_def)
qed

lemma sample_quic_endpoints:
  "\<exists>eps. UpstreamEndpoints sample_quic_client = Inr eps \<and> list_all (endpoint_ok toy_crypto calm_env) eps
     \<and> map ep_Name eps = [''fra'', ''ams'']"
proof -
  have "case UpstreamEndpoints sample_quic_client of Inl e \<Rightarrow> False
    | Inr eps \<Rightarrow> list_all (endpoint_ok toy_crypto calm_env) eps \<and> map ep_Name eps = [''fra'', ''ams'']"
    by code_simp
  then show ?thesis by (cases "UpstreamEndpoints sample_quic_client") auto
qed

section \<open>Properties\<close>

text \<open>C6. The client's manager comes up: when no external call fails, the network section resolves and
  every configured server has usable transport options, starting the manager returns a manager
  with one healthy entry with a live pool per configured server.\<close>

theorem manager_comes_up:
  assumes "calm env" and "network_ok env cfg" and "UpstreamEndpoints cfg = Inr eps"
    and "list_all (endpoint_ok cr env) eps" and "distinct (map ep_Name eps)" and "world_ok w"
  shows "\<exists>m w'. NewManager cr env cfg flags w = (Inr m, w') \<and> fresh_shape eps m
     \<and> (\<forall>(n, e) \<in> set (m_entries m). Alive (en_pool e) w')"
proof -
  obtain m w' where n: "NewManager cr env cfg flags w = (Inr m, w')"
    using NewManager_calm [OF assms(1-4)] by (rule succeedsE)
  with NewManager_fresh [OF assms(6,3,5), where cr = cr and env = env and flags = flags] show ?thesis by simp
qed

theorem manager_comes_up_witness:
  "\<exists>m w'. NewManager toy_crypto calm_env sample_quic_client [] world0 = (Inr m, w') \<and> m_order m = [''fra'', ''ams'']"
proof -
  obtain eps where e: "UpstreamEndpoints sample_quic_client = Inr eps" "list_all (endpoint_ok toy_crypto calm_env) eps"
    "map ep_Name eps = [''fra'', ''ams'']"
    using sample_quic_endpoints by (elim exE conjE)
  have "distinct (map ep_Name eps)" unfolding e(3) by simp
  from manager_comes_up [OF calm_env_calm sample_quic_network e(1,2) this world0_ok, where flags = "[]"]
  obtain m w' where "NewManager toy_crypto calm_env sample_quic_client [] world0 = (Inr m, w')" "fresh_shape eps m"
    by (elim exE conjE)
  moreover from this(2) have "m_order m = [''fra'', ''ams'']" using e(3) by (simp only: fresh_shape_def)
  ultimately show ?thesis by blast
qed

end
