(* ===== verification/Supervision.thy ===== *)
theory Supervision
  imports Liveness
begin

text \<open>
  The running manager of \<^verbatim>\<open>internal/upstream/manager.go\<close>: requests of the listeners, the health
  loop, the background reconnects it starts, hot reloads, benchmarks, the final close and the
  remote end, interleaved in any order. A reconnect and a reload run without the manager's lock
  between their critical sections; those sections, and the unlocked dials between them, are the
  steps. The closing of a replaced pool right after the lock is released is part of the step that
  replaces it.
\<close>

section \<open>Requests\<close>

text \<open>The calls a listener makes through its opener.\<close>

datatype request =
    ReqTCP string
  | ReqUDP string string
  | ReqCloseUDP "64 word"
  | ReqSupportsDatagrams
  | ReqDatagram string string nat

fun serve :: "env \<Rightarrow> opener \<Rightarrow> request \<Rightarrow> Manager \<Rightarrow> world \<Rightarrow> Manager \<times> world" where
  "serve env DefaultOpener (ReqTCP target) m w = snd (mgr_OpenTCP env m target w)"
| "serve env DefaultOpener (ReqUDP l target) m w = snd (mgr_OpenUDP env m l target w)"
| "serve env DefaultOpener (ReqCloseUDP key) m w = snd (mgr_CloseUDP m key w)"
| "serve env DefaultOpener ReqSupportsDatagrams m w = (snd (mgr_SupportsDatagrams m w), w)"
| "serve env DefaultOpener (ReqDatagram key target d) m w = snd (mgr_OpenUDPDatagram env m key target d w)"
| "serve env (BoundOpener b) (ReqTCP target) m w = snd (bound_OpenTCP env m b target w)"
| "serve env (BoundOpener b) (ReqUDP l target) m w = snd (bound_OpenUDP env m b l target w)"
| "serve env (BoundOpener b) (ReqCloseUDP key) m w = bound_CloseUDP m b key w"
| "serve env (BoundOpener b) ReqSupportsDatagrams m w = (snd (bound_SupportsDatagrams m b w), w)"
| "serve env (BoundOpener b) (ReqDatagram key target d) m w = snd (bound_OpenUDPDatagram env m b key target d w)"

section \<open>Background work\<close>

text \<open>
  A goroutine of the manager, by where it stands: a reconnect just started, at the head of its
  loop, about to dial with the configuration it read, or holding the new pool; a reload that has
  built its entries.
\<close>

datatype job =
    RcStarted string
  | RcLoop reconn
  | RcDial reconn Config "TCPFlagSet list" UpstreamEndpoint
  | RcSwap reconn Pool
  | RlBuilt Config "TCPFlagSet list" "(string \<times> entry) list" "string list"

fun job_step :: "crypto \<Rightarrow> env \<Rightarrow> job \<Rightarrow> Manager \<Rightarrow> world \<Rightarrow> job option \<times> Manager \<times> world" where
  "job_step cr env (RcStarted name) m w =
     (case reconnect_begin m name of
        None \<Rightarrow> (None, m, w)
      | Some (m1, rc) \<Rightarrow> (Some (RcLoop rc), m1, w))"
| "job_step cr env (RcLoop rc) m w =
     (case reconnect_target m (rc_name rc) w of
        None \<Rightarrow> (None, reconnect_end m rc, w)
      | Some ep \<Rightarrow> (Some (RcDial rc (m_cfg m) (m_remoteFlags m) ep), m, w))"
| "job_step cr env (RcDial rc cfg flags ep) m w =
     (case reconnect_dial cr env cfg flags ep w of
        (Inl e, w1) \<Rightarrow> (Some (RcLoop (rc\<lparr>rc_backoff := next_backoff (rc_backoff rc)\<rparr>)), m, w1)
      | (Inr p, w1) \<Rightarrow> (Some (RcSwap rc p), m, w1))"
| "job_step cr env (RcSwap rc p) m w =
     (case reconnect_swap m (rc_name rc) p w of (m1, w1) \<Rightarrow> (None, reconnect_end m1 rc, w1))"
| "job_step cr env (RlBuilt cfg flags es order) m w =
     (case reload_swap env cfg flags es order m w of (m1, w1) \<Rightarrow> (None, m1, w1))"

text \<open>The unlocked first half of a reload.\<close>

definition reload_start ::
  "crypto \<Rightarrow> env \<Rightarrow> Config \<Rightarrow> TCPFlagSet list \<Rightarrow> UpstreamEndpoint list \<Rightarrow> Manager \<Rightarrow> world
     \<Rightarrow> job list \<times> Manager \<times> world" where
  "reload_start cr env cfg flags eps m w =
     (let m0 = m\<lparr>m_nextId := m_nextId m + length eps\<rparr>
      in case build_entries cr env cfg flags eps (m_nextId m) [] [] w of
           (Inl e, w1) \<Rightarrow> ([], m0, w1)
         | (Inr (es, order), w1) \<Rightarrow> ([RlBuilt cfg flags es order], m0, w1))"

record sys =
  y_mgr :: Manager
  y_jobs :: "job list"
  y_world :: world

text \<open>
  Steps of the running system. The environment and the opener of each step are arbitrary; a health
  check goes through the map of entries in any order; a reload is with endpoints of different
  names; \<open>Drop\<close> is a session or stream closed by the remote end or a stream closed by its user.
\<close>

inductive sys_step :: "crypto \<Rightarrow> sys \<Rightarrow> sys \<Rightarrow> bool" for cr where
  Serve: "serve env opn rq m w = (m', w') \<Longrightarrow> sys_step cr \<lparr>y_mgr = m, y_jobs = js, y_world = w\<rparr>
     \<lparr>y_mgr = m', y_jobs = js, y_world = w'\<rparr>"
| Check: "set ns = fst ` set (m_entries m) \<Longrightarrow> distinct ns \<Longrightarrow> runHealthCheck env ns m w = (m', started, w') \<Longrightarrow>
     sys_step cr \<lparr>y_mgr = m, y_jobs = js, y_world = w\<rparr>
       \<lparr>y_mgr = m', y_jobs = js @ map RcStarted started, y_world = w'\<rparr>"
| Ping: "pingAll env ns m w = (r, m', w') \<Longrightarrow> sys_step cr \<lparr>y_mgr = m, y_jobs = js, y_world = w\<rparr>
     \<lparr>y_mgr = m', y_jobs = js, y_world = w'\<rparr>"
| Bench: "Benchmark env m w = (rs, m', w') \<Longrightarrow> sys_step cr \<lparr>y_mgr = m, y_jobs = js, y_world = w\<rparr>
     \<lparr>y_mgr = m', y_jobs = js, y_world = w'\<rparr>"
| Work: "job_step cr env j m w = (j', m', w') \<Longrightarrow> sys_step cr \<lparr>y_mgr = m, y_jobs = as @ j # bs, y_world = w\<rparr>
     \<lparr>y_mgr = m', y_jobs = as @ (case j' of None \<Rightarrow> [] | Some x \<Rightarrow> [x]) @ bs, y_world = w'\<rparr>"
| Reload: "UpstreamEndpoints cfg = Inr eps \<Longrightarrow> distinct (map ep_Name eps) \<Longrightarrow>
     reload_start cr env cfg flags eps m w = (new, m', w') \<Longrightarrow>
     sys_step cr \<lparr>y_mgr = m, y_jobs = js, y_world = w\<rparr> \<lparr>y_mgr = m', y_jobs = js @ new, y_world = w'\<rparr>"
| Close: "mgr_Close m w = (m', w') \<Longrightarrow> sys_step cr \<lparr>y_mgr = m, y_jobs = js, y_world = w\<rparr>
     \<lparr>y_mgr = m', y_jobs = js, y_world = w'\<rparr>"
| Drop: "sys_step cr \<lparr>y_mgr = m, y_jobs = js, y_world = w\<rparr> \<lparr>y_mgr = m, y_jobs = js, y_world = close_handle h w\<rparr>"

inductive reachable :: "crypto \<Rightarrow> world \<Rightarrow> sys \<Rightarrow> bool" for cr w0 where
  start: "UpstreamEndpoints cfg = Inr eps \<Longrightarrow> distinct (map ep_Name eps) \<Longrightarrow>
     NewManager cr env cfg flags w0 = (Inr m, w) \<Longrightarrow>
     reachable cr w0 \<lparr>y_mgr = m, y_jobs = [], y_world = w\<rparr>"
| step: "reachable cr w0 s \<Longrightarrow> sys_step cr s s' \<Longrightarrow> reachable cr w0 s'"

inductive_cases sys_stepE: "sys_step cr s s'"

section \<open>Requests keep everything\<close>

lemma served_step:
  assumes "poolFor m b = (r, m1)" and "\<And>n. r = Some n \<Longrightarrow> step_ok m1 w m' w'"
    and "r = None \<Longrightarrow> m' = m1 \<and> w' = w"
  shows "step_ok m w m' w'"
  using assms poolFor_step [OF assms(1), of w] by (cases r) (auto intro: step_ok_trans)

lemma serve_step:
  assumes "serve env opn rq m w = (m', w')"
  shows "step_ok m w m' w'"
proof -
  obtain b where b: "(opn = DefaultOpener \<and> b = []) \<or> opn = BoundOpener b" by (cases opn) auto
  obtain r m1 where pf: "poolFor m b = (r, m1)" by fastforce
  show ?thesis
  proof (rule served_step [OF pf])
    show "m' = m1 \<and> w' = w" if "r = None"
      using assms b pf that
      by (cases rq) (auto simp: mgr_OpenTCP_def mgr_OpenUDP_def mgr_CloseUDP_def mgr_SupportsDatagrams_def
          mgr_OpenUDPDatagram_def bound_OpenTCP_def bound_OpenUDP_def bound_CloseUDP_def
          bound_SupportsDatagrams_def bound_OpenUDPDatagram_def)
    show "step_ok m1 w m' w'" if r: "r = Some n" for n
    proof (cases rq)
      case (ReqTCP target)
      obtain x p v where o: "OpenTCP env (pool_of m1 n) target w = (x, p, v)" by (metis prod_cases3)
      from tcp_op.on_entry [OF o] assms b pf r ReqTCP o show ?thesis
        by (auto simp: mgr_OpenTCP_def bound_OpenTCP_def)
    next
      case (ReqUDP l target)
      obtain x p v where o: "OpenUDP env (pool_of m1 n) l target w = (x, p, v)" by (metis prod_cases3)
      from udp_op.on_entry [OF o] assms b pf r ReqUDP o show ?thesis
        by (auto simp: mgr_OpenUDP_def bound_OpenUDP_def)
    next
      case (ReqCloseUDP key)
      obtain p v where o: "CloseUDP (pool_of m1 n) key w = (p, v)" by fastforce
      then have "((), CloseUDP (pool_of m1 n) key w) = ((), p, v)" by simp
      from close_op.on_entry [OF this] assms b pf r ReqCloseUDP o show ?thesis
        by (auto simp: mgr_CloseUDP_def bound_CloseUDP_def)
    next
      case ReqSupportsDatagrams
      with assms b pf r show ?thesis
        by (auto simp: mgr_SupportsDatagrams_def bound_SupportsDatagrams_def step_ok_refl)
    next
      case (ReqDatagram key target d)
      obtain x p v where o: "OpenUDPDatagram env (pool_of m1 n) key target d w = (x, p, v)" by (metis prod_cases3)
      from dgram_op.on_entry [OF o] assms b pf r ReqDatagram o show ?thesis
        by (auto simp: mgr_OpenUDPDatagram_def bound_OpenUDPDatagram_def)
    qed
  qed
qed

section \<open>Background work leaks nothing\<close>

lemma pool_Dial_covered:
  assumes "covered C B w" and "pool_Dial cr env cfg remote tcfg flags w = (r, w')"
  shows "covered ((case r of Inl _ \<Rightarrow> {} | Inr p \<Rightarrow> pool_cover p) \<union> C) B w'"
proof (cases r)
  case (Inl e)
  have "world_ok w" using assms(1) by (simp add: covered_def)
  from pool_Dial_spec [OF this assms(2)] covered_unchanged [OF assms(1)] Inl show ?thesis by simp
next
  case (Inr p)
  have "world_ok w" using assms(1) by (simp add: covered_def)
  from pool_Dial_spec [OF this assms(2)] Inr have "grows w (pool_holds p) w'" by simp
  from covered_grows [OF assms(1) this] dialled_holds [OF assms(2) [unfolded Inr]] Inr show ?thesis by simp
qed

lemma reconnect_dial_covered:
  assumes c: "covered C B w" and d: "reconnect_dial cr env cfg flags ep w = (r, w')"
  shows "covered ((case r of Inl _ \<Rightarrow> {} | Inr p \<Rightarrow> pool_cover p) \<union> C) B w'"
proof -
  obtain r1 w1 where pd: "pool_Dial cr env cfg (ep_Addr ep) (ep_Transport ep) flags w = (r1, w1)" by fastforce
  note c1 = pool_Dial_covered [OF c pd]
  show ?thesis
  proof (cases r1)
    case (Inl e)
    with c1 pd d show ?thesis by (auto simp: reconnect_dial_def)
  next
    case (Inr p)
    obtain e p1 w2 where pw: "PingWithTimeout env p w1 = (e, p1, w2)" by (metis prod_cases3)
    have w1: "world_ok w1" using c1 by (simp add: covered_def)
    have s: "stays p w1 p1 w2" by (rule ping_op.keeps [OF w1 pw])
    have "covered (pool_cover p \<union> C) B w2" using c1 Inr by (intro covered_stays [OF _ s]) auto
    moreover have "pool_cover p1 = pool_cover p" using s by (simp add: stays_def pool_cover_def)
    ultimately have "covered (pool_cover p1 \<union> C) B w2" by simp
    with covered_pool_Close [OF this] d pd Inr pw show ?thesis
      by (cases e) (auto simp: reconnect_dial_def)
  qed
qed

lemma update_cover_new: "pool_cover (en_pool e) \<subseteq> entries_cover (AList.update n e es)"
  by (induction es) (auto split: if_splits)

lemma reconnect_swap_some:
  assumes "reconnect_swap m n p w = (m', w')" and "map_of (m_entries m) n = Some cur"
  shows "w' = snd (pool_Close (en_pool cur) w) \<and> m_nextId m' = m_nextId m \<and> m_entries m' = AList.update n
    (cur\<lparr>en_pool := p, en_healthy := True, en_failures := 0, en_recovers := 0\<rparr>) (m_entries m)"
proof -
  have "m_entries (if b then a else c) = (if b then m_entries a else m_entries c)"
    "m_nextId (if b then a else c) = (if b then m_nextId a else m_nextId c)" for b a c by simp_all
  with assms show ?thesis by (auto simp: reconnect_swap_def Let_def)
qed

lemma reconnect_swap_covered:
  assumes c: "covered (pool_cover p \<union> mgr_cover m \<union> D) B w" and s: "reconnect_swap m n p w = (m', w')"
  shows "covered (mgr_cover m' \<union> D) B w'"
proof (cases "map_of (m_entries m) n")
  case None
  with s covered_pool_Close [of p "mgr_cover m \<union> D" B w] c show ?thesis
    by (simp add: reconnect_swap_def Un_assoc)
next
  case (Some cur)
  let ?e = "cur\<lparr>en_pool := p, en_healthy := True, en_failures := 0, en_recovers := 0\<rparr>"
  have w': "w' = snd (pool_Close (en_pool cur) w)" and "m_entries m' = AList.update n ?e (m_entries m)"
    using reconnect_swap_some [OF s Some] by simp_all
  then have m': "entries_cover (m_entries m') = entries_cover (AList.update n ?e (m_entries m))" by simp
  have "pool_cover p \<union> mgr_cover m \<union> D \<subseteq> pool_cover (en_pool cur) \<union> (mgr_cover m' \<union> D)"
    using update_cover_new [of ?e n "m_entries m"] update_cover_old [OF Some, of ?e]
    by (auto simp: m' mgr_cover_def)
  from covered_pool_Close [OF covered_mono [OF c this]] show ?thesis by (simp add: w')
qed

lemma reconnect_end_cover [simp]: "mgr_cover (reconnect_end m rc) = mgr_cover m"
proof -
  have "entries_cover (map (\<lambda>(n, e). (n, if P e then e\<lparr>en_reconnecting := False\<rparr> else e)) es) = entries_cover es" for P es
  proof (induction es)
    case (Cons x es)
    then show ?case by (cases x; cases "P (snd x)") auto
  qed simp
  then show ?thesis by (simp add: mgr_cover_def reconnect_end_def)
qed

lemma reconnect_begin_cover: "reconnect_begin m n = Some (m', rc) \<Longrightarrow> mgr_cover m' = mgr_cover m"
  by (auto simp: reconnect_begin_def mgr_cover_def update_cover_same simp del: Un_iff split: option.splits if_splits)

lemma build_entries_covered:
  assumes d: "distinct (map ep_Name eps)" and c: "covered C B w"
    and b: "build_entries cr env cfg flags eps i [] [] w = (r, w')"
  shows "case r of Inl _ \<Rightarrow> covered C B w'
     | Inr (es, order) \<Rightarrow> covered (entries_cover es \<union> C) B w'"
proof -
  have "world_ok w" using c by (simp add: covered_def)
  from build_entries_fleet [OF d this b] c show ?thesis
    by (auto split: sum.splits intro: covered_unchanged covered_grows)
qed

lemma reload_swap_covered:
  assumes "covered (entries_cover es \<union> mgr_cover m \<union> D) B w" and "reload_swap env cfg flags es order m w = (m', w')"
  shows "covered (mgr_cover m' \<union> D) B w'"
proof -
  have "covered (entries_cover (m_entries m) \<union> (entries_cover es \<union> D)) B w"
    using assms(1) by (rule covered_mono) (auto simp: mgr_cover_def)
  from covered_close_entries [OF this] assms(2) show ?thesis by (auto simp: reload_swap_def mgr_cover_def)
qed

lemma mgr_Close_covered:
  "covered (mgr_cover m \<union> D) B w \<Longrightarrow> mgr_Close m w = (m', w') \<Longrightarrow> covered (mgr_cover m' \<union> D) B w' \<and> mgr_cover m' = {}"
  by (auto simp: mgr_Close_def mgr_cover_def covered_close_entries)

section \<open>The invariant of the running system\<close>

fun job_cover :: "job \<Rightarrow> handle set" where
  "job_cover (RcSwap rc p) = pool_cover p"
| "job_cover (RlBuilt cfg flags es order) = entries_cover es"
| "job_cover _ = {}"

definition jobs_cover :: "job list \<Rightarrow> handle set" where
  "jobs_cover js = (\<Union>j \<in> set js. job_cover j)"

fun job_ok :: "job \<Rightarrow> bool" where
  "job_ok (RlBuilt cfg flags es order) = (\<forall>hs. health_ok hs \<longrightarrow> built_ok hs es order)"
| "job_ok _ = True"

lemma jobs_cover_simps [simp]:
  "jobs_cover [] = {}" "jobs_cover (j # js) = job_cover j \<union> jobs_cover js"
  "jobs_cover (as @ bs) = jobs_cover as \<union> jobs_cover bs" "jobs_cover (map RcStarted ns) = {}"
  by (auto simp: jobs_cover_def)

text \<open>The entry a running reconnect has marked; the entries a reload has built.\<close>

fun running :: "job \<Rightarrow> nat list" where
  "running (RcLoop rc) = [rc_entry rc]"
| "running (RcDial rc cfg flags ep) = [rc_entry rc]"
| "running (RcSwap rc p) = [rc_entry rc]"
| "running _ = []"

fun built :: "job \<Rightarrow> (string \<times> nat \<times> bool) list" where
  "built (RlBuilt cfg flags es order) = map (\<lambda>(n, e). (n, en_id e, en_reconnecting e)) es"
| "built _ = []"

definition run_ids :: "job list \<Rightarrow> nat list" where
  "run_ids js = concat (map running js)"

definition built_marks :: "job list \<Rightarrow> (string \<times> nat \<times> bool) list" where
  "built_marks js = concat (map built js)"

definition ids :: "(string \<times> nat \<times> bool) list \<Rightarrow> nat list" where
  "ids ms = map (fst \<circ> snd) ms"

definition flagged :: "(string \<times> nat \<times> bool) list \<Rightarrow> nat set" where
  "flagged ms = (\<lambda>x. fst (snd x)) ` {x \<in> set ms. snd (snd x)}"

text \<open>Identities are unique; the marked entries of the manager are those one reconnect runs for;
  the entries of a reload under way are not marked and no reconnect runs for them.\<close>

definition marks_ok :: "(string \<times> nat \<times> bool) list \<Rightarrow> nat \<Rightarrow> job list \<Rightarrow> bool" where
  "marks_ok ms k js \<longleftrightarrow> distinct (ids ms) \<and> distinct (ids (built_marks js)) \<and> distinct (run_ids js)
     \<and> set (ids ms) \<inter> set (ids (built_marks js)) = {} \<and> set (run_ids js) \<inter> set (ids (built_marks js)) = {}
     \<and> set (ids ms) \<union> set (ids (built_marks js)) \<union> set (run_ids js) \<subseteq> {..<k}
     \<and> flagged ms = set (ids ms) \<inter> set (run_ids js) \<and> flagged (built_marks js) = {}"

lemma marks_simps [simp]:
  "ids [] = []" "ids (x # ms) = fst (snd x) # ids ms" "ids (as @ bs) = ids as @ ids bs"
  "flagged [] = {}" "flagged (as @ bs) = flagged as \<union> flagged bs"
  "flagged (x # ms) = (if snd (snd x) then insert (fst (snd x)) (flagged ms) else flagged ms)"
  by (auto simp: ids_def flagged_def)

lemma flagged_sub: "flagged ms \<subseteq> set (ids ms)"
  by (auto simp: ids_def flagged_def)

definition sys_ok :: "(handle \<times> handle option) set \<Rightarrow> sys \<Rightarrow> bool" where
  "sys_ok B s \<longleftrightarrow> mgr_ok (y_mgr s) \<and> (\<forall>j \<in> set (y_jobs s). job_ok j)
     \<and> covered (mgr_cover (y_mgr s) \<union> jobs_cover (y_jobs s)) B (y_world s)
     \<and> marks_ok (marks (y_mgr s)) (m_nextId (y_mgr s)) (y_jobs s)"

lemma ids_simps [simp]:
  "run_ids [] = []" "run_ids (j # js) = running j @ run_ids js" "run_ids (as @ bs) = run_ids as @ run_ids bs"
  "run_ids (map RcStarted ns) = []" "built_marks [] = []" "built_marks (j # js) = built j @ built_marks js"
  "built_marks (as @ bs) = built_marks as @ built_marks bs" "built_marks (map RcStarted ns) = []"
  by (simp_all add: run_ids_def built_marks_def comp_def)

lemma marks_ok_swap: "marks_ok ms k (as @ j # bs) \<longleftrightarrow> marks_ok ms k (j # as @ bs)"
proof -
  have e: "distinct (a @ c @ b) = distinct (c @ a @ b)" for a b c :: "nat list" by auto
  have s: "set (run_ids (as @ j # bs)) = set (run_ids (j # as @ bs))"
    "set (ids (built_marks (as @ j # bs))) = set (ids (built_marks (j # as @ bs)))"
    "flagged (built_marks (as @ j # bs)) = flagged (built_marks (j # as @ bs))" by auto
  show ?thesis unfolding marks_ok_def s by (simp only: ids_simps marks_simps e)
qed

lemma update_split:
  "map_of es n = Some e \<Longrightarrow> \<exists>as bs. es = as @ (n, e) # bs \<and> AList.update n e' es = as @ (n, e') # bs"
proof (induction es)
  case (Cons x es)
  show ?case
  proof (cases "fst x = n")
    case True
    with Cons.prems have "x # es = [] @ (n, e) # es \<and> AList.update n e' (x # es) = [] @ (n, e') # es"
      by (cases x) auto
    then show ?thesis by blast
  next
    case False
    with Cons obtain as bs where "es = as @ (n, e) # bs" "AList.update n e' es = as @ (n, e') # bs"
      by (cases x) auto
    with False have "x # es = (x # as) @ (n, e) # bs \<and> AList.update n e' (x # es) = (x # as) @ (n, e') # bs"
      by (cases x) auto
    then show ?thesis by blast
  qed
qed simp

lemma reconnect_begin_marks:
  assumes "reconnect_begin m n = Some (m', rc)"
  shows "\<exists>as bs. marks m = as @ (n, rc_entry rc, False) # bs \<and> marks m' = as @ (n, rc_entry rc, True) # bs
     \<and> m_nextId m' = m_nextId m"
proof -
  obtain e where e: "map_of (m_entries m) n = Some e" "\<not> en_reconnecting e" "rc_entry rc = en_id e"
    and m': "m' = m\<lparr>m_entries := AList.update n (e\<lparr>en_reconnecting := True\<rparr>) (m_entries m)\<rparr>"
    using assms by (auto simp: reconnect_begin_def split: option.splits if_splits)
  obtain as bs where "m_entries m = as @ (n, e) # bs"
    "AList.update n (e\<lparr>en_reconnecting := True\<rparr>) (m_entries m) = as @ (n, e\<lparr>en_reconnecting := True\<rparr>) # bs"
    using update_split [OF e(1)] by blast
  with e m' show ?thesis by (auto simp: marks_def)
qed

definition unmark :: "nat \<Rightarrow> string \<times> nat \<times> bool \<Rightarrow> string \<times> nat \<times> bool" where
  "unmark i x = (case x of (n, k, f) \<Rightarrow> (n, k, f \<and> k \<noteq> i))"

lemma reconnect_end_marks:
  "marks (reconnect_end m rc) = map (unmark (rc_entry rc)) (marks m)" "m_nextId (reconnect_end m rc) = m_nextId m"
proof -
  have "en_reconnecting (if b then e\<lparr>en_reconnecting := False\<rparr> else e) = (en_reconnecting e \<and> \<not> b)"
    "en_id (if b then e\<lparr>en_reconnecting := False\<rparr> else e) = en_id e" for b e by simp_all
  then show "marks (reconnect_end m rc) = map (unmark (rc_entry rc)) (marks m)"
    by (auto simp: marks_def reconnect_end_def unmark_def)
qed (simp add: reconnect_end_def)

lemma reconnect_swap_marks:
  assumes "reconnect_swap m n p w = (m', w')"
  shows "marks m' = marks m \<and> m_nextId m' = m_nextId m"
proof (cases "map_of (m_entries m) n")
  case None
  with assms show ?thesis by (simp add: reconnect_swap_def)
next
  case (Some cur)
  from reconnect_swap_some [OF assms Some] marks_update [OF Some] show ?thesis by (simp add: marks_def)
qed

lemma flagged_iff: "distinct (ids ms) \<Longrightarrow> (n, i, f) \<in> set ms \<Longrightarrow> f \<longleftrightarrow> i \<in> flagged ms"
proof (induction ms)
  case (Cons x ms)
  show ?case
  proof (cases "x = (n, i, f)")
    case True
    with Cons.prems(1) flagged_sub [of ms] show ?thesis by auto
  next
    case False
    with Cons.prems have "i \<in> set (ids ms)" by (force simp: ids_def)
    with Cons.prems Cons.IH False show ?thesis by auto
  qed
qed simp

lemma unmark_simps [simp]:
  "ids (map (unmark i) ms) = ids ms" "flagged (map (unmark i) ms) = flagged ms - {i}"
  by (induction ms) (auto simp: unmark_def case_prod_beta)

lemma marks_ok_begin:
  assumes m: "marks_ok (as @ (n, i, False) # bs) k js" and j: "running j = [i]" "built j = []"
  shows "marks_ok (as @ (n, i, True) # bs) k (j # js)"
proof -
  have "i \<notin> set (ids as) \<union> set (ids bs)" using m by (auto simp: marks_ok_def)
  then have "i \<notin> flagged (as @ (n, i, False) # bs)" using flagged_sub [of as] flagged_sub [of bs] by auto
  then have "i \<notin> set (run_ids js)" using m by (auto simp: marks_ok_def)
  then show ?thesis using m j by (auto simp: marks_ok_def)
qed

lemma marks_ok_end:
  assumes "marks_ok ms k (j # js)" and "running j = [i]" and "built j = []"
  shows "marks_ok (map (unmark i) ms) k js"
  using assms by (auto simp: marks_ok_def)

lemma marks_ok_same:
  "running j' = running j \<Longrightarrow> built j' = built j \<Longrightarrow> marks_ok ms k (j # js) \<Longrightarrow> marks_ok ms k (j' # js)"
  by (simp add: marks_ok_def)

lemma marks_ok_gone: "running j = [] \<Longrightarrow> built j = [] \<Longrightarrow> marks_ok ms k (j # js) \<Longrightarrow> marks_ok ms k js"
  by (simp add: marks_ok_def)

lemma marks_ok_reload:
  assumes "marks_ok ms k (j # js)" and "running j = []"
  shows "marks_ok (built j) k js"
  using assms by (auto simp: marks_ok_def)

lemma marks_ok_build:
  assumes "marks_ok ms k js" and "running j = []" and "ids (built j) = [k..<k + n]" and "flagged (built j) = {}"
  shows "marks_ok ms (k + n) (js @ [j])"
  using assms by (auto simp: marks_ok_def)

section \<open>Every step keeps the invariant\<close>

lemma sys_okI:
  "mgr_ok m \<Longrightarrow> \<forall>j \<in> set js. job_ok j \<Longrightarrow> covered (mgr_cover m \<union> jobs_cover js) B w \<Longrightarrow>
     marks_ok (marks m) (m_nextId m) js \<Longrightarrow> sys_ok B \<lparr>y_mgr = m, y_jobs = js, y_world = w\<rparr>"
  by (simp add: sys_ok_def)

lemma sys_okD:
  assumes "sys_ok B \<lparr>y_mgr = m, y_jobs = js, y_world = w\<rparr>"
  shows "mgr_ok m" "\<forall>j \<in> set js. job_ok j" "covered (mgr_cover m \<union> jobs_cover js) B w"
    "marks_ok (marks m) (m_nextId m) js"
  using assms by (simp_all add: sys_ok_def)

lemma sys_ok_step_ok:
  assumes s: "sys_ok B \<lparr>y_mgr = m, y_jobs = js, y_world = w\<rparr>" and st: "step_ok m w m' w'"
    and new: "\<forall>j \<in> set new. running j = [] \<and> built j = [] \<and> job_cover j = {} \<and> job_ok j"
  shows "sys_ok B \<lparr>y_mgr = m', y_jobs = js @ new, y_world = w'\<rparr>"
proof (rule sys_okI)
  have n: "jobs_cover new = {}" "run_ids new = []" "built_marks new = []"
    using new by (auto simp: jobs_cover_def run_ids_def built_marks_def)
  show "mgr_ok m'" using step_okD(1) [OF st sys_okD(1) [OF s]] .
  show "\<forall>j \<in> set (js @ new). job_ok j" using sys_okD(2) [OF s] new by auto
  show "covered (mgr_cover m' \<union> jobs_cover (js @ new)) B w'"
    using step_okD(4) [OF st sys_okD(3) [OF s]] n by simp
  show "marks_ok (marks m') (m_nextId m') (js @ new)"
    using sys_okD(4) [OF s] n by (simp add: marks_ok_def step_okD(2,3) [OF st])
qed

lemma sys_ok_swap:
  "sys_ok B \<lparr>y_mgr = m, y_jobs = as @ j # bs, y_world = w\<rparr>
     \<longleftrightarrow> sys_ok B \<lparr>y_mgr = m, y_jobs = j # as @ bs, y_world = w\<rparr>"
  by (simp add: sys_ok_def marks_ok_swap Un_left_commute ball_Un conj_ac)

text \<open>Each kind of job keeps the invariant.\<close>

lemma job_started_ok:
  assumes s: "sys_ok B \<lparr>y_mgr = m, y_jobs = j # js, y_world = w\<rparr>" and st: "job_step cr env j m w = (j', m', w')" and j: "j = RcStarted name"
  shows "sys_ok B \<lparr>y_mgr = m', y_jobs = (case j' of None \<Rightarrow> [] | Some x \<Rightarrow> [x]) @ js, y_world = w'\<rparr>"
proof -
  show ?thesis
  proof (cases "reconnect_begin m name")
    case None
    with s st j marks_ok_gone [of j "marks m" "m_nextId m" js] show ?thesis by (auto simp: sys_ok_def)
  next
    case (Some x)
    then obtain rc where x: "reconnect_begin m name = Some (m', rc)" and o: "j' = Some (RcLoop rc)" "w' = w"
      using st j by (cases x) auto
    have "marks_ok (marks m) (m_nextId m) js" by (rule marks_ok_gone [OF _ _ sys_okD(4) [OF s]]) (simp_all add: j)
    with reconnect_begin_marks [OF x] marks_ok_begin [of _ name "rc_entry rc" _ _ js "RcLoop rc"]
    have "marks_ok (marks m') (m_nextId m') (RcLoop rc # js)" by fastforce
    with s j o reconnect_begin_ok [OF sys_okD(1) [OF s] x] reconnect_begin_cover [OF x]
    show ?thesis by (simp add: sys_ok_def)
  qed
qed

lemma job_loop_ok:
  assumes s: "sys_ok B \<lparr>y_mgr = m, y_jobs = j # js, y_world = w\<rparr>" and st: "job_step cr env j m w = (j', m', w')" and j: "j = RcLoop rc"
  shows "sys_ok B \<lparr>y_mgr = m', y_jobs = (case j' of None \<Rightarrow> [] | Some x \<Rightarrow> [x]) @ js, y_world = w'\<rparr>"
proof -
  show ?thesis
  proof (cases "reconnect_target m (rc_name rc) w")
    case None
    have "marks_ok (map (unmark (rc_entry rc)) (marks m)) (m_nextId m) js"
      using sys_okD(4) [OF s] by (rule marks_ok_end) (simp_all add: j)
    with s st j None show ?thesis by (auto simp: sys_ok_def reconnect_end_ok reconnect_end_marks)
  next
    case (Some ep)
    let ?j = "RcDial rc (m_cfg m) (m_remoteFlags m) ep"
    have "marks_ok (marks m) (m_nextId m) (?j # js)"
      by (rule marks_ok_same [OF _ _ sys_okD(4) [OF s]]) (simp_all add: j)
    with s st j Some show ?thesis by (auto simp: sys_ok_def)
  qed
qed

lemma job_dial_ok:
  assumes s: "sys_ok B \<lparr>y_mgr = m, y_jobs = j # js, y_world = w\<rparr>" and st: "job_step cr env j m w = (j', m', w')" and j: "j = RcDial rc cfg flags ep"
  shows "sys_ok B \<lparr>y_mgr = m', y_jobs = (case j' of None \<Rightarrow> [] | Some x \<Rightarrow> [x]) @ js, y_world = w'\<rparr>"
proof -
  obtain r w1 where d: "reconnect_dial cr env cfg flags ep w = (r, w1)" by fastforce
  have "covered ((case r of Inl _ \<Rightarrow> {} | Inr p \<Rightarrow> pool_cover p) \<union> (mgr_cover m \<union> jobs_cover js)) B w1"
    using sys_okD(3) [OF s] j by (intro reconnect_dial_covered [OF _ d]) simp
  moreover have "marks_ok (marks m) (m_nextId m) (x # js)" if "running x = [rc_entry rc]" "built x = []" for x
    by (rule marks_ok_same [OF _ _ sys_okD(4) [OF s]]) (simp_all add: j that)
  ultimately show ?thesis
    using s st j d by (cases r) (auto simp: sys_ok_def Un_left_commute)
qed

lemma job_swap_ok:
  assumes s: "sys_ok B \<lparr>y_mgr = m, y_jobs = j # js, y_world = w\<rparr>" and st: "job_step cr env j m w = (j', m', w')" and j: "j = RcSwap rc p"
  shows "sys_ok B \<lparr>y_mgr = m', y_jobs = (case j' of None \<Rightarrow> [] | Some x \<Rightarrow> [x]) @ js, y_world = w'\<rparr>"
proof -
  obtain m1 w1 where sw: "reconnect_swap m (rc_name rc) p w = (m1, w1)" by fastforce
  have "covered (mgr_cover m1 \<union> jobs_cover js) B w1"
    by (rule reconnect_swap_covered [OF _ sw]) (use sys_okD(3) [OF s] j in \<open>simp add: Un_ac\<close>)
  moreover have "marks_ok (map (unmark (rc_entry rc)) (marks m)) (m_nextId m) js"
    using sys_okD(4) [OF s] by (rule marks_ok_end) (simp_all add: j)
  ultimately show ?thesis
    using s st j sw reconnect_swap_ok [OF sys_okD(1) [OF s] sw] reconnect_swap_marks [OF sw]
    by (auto simp: sys_ok_def reconnect_end_ok reconnect_end_marks)
qed

lemma job_built_ok:
  assumes s: "sys_ok B \<lparr>y_mgr = m, y_jobs = j # js, y_world = w\<rparr>" and st: "job_step cr env j m w = (j', m', w')" and j: "j = RlBuilt cfg flags es order"
  shows "sys_ok B \<lparr>y_mgr = m', y_jobs = (case j' of None \<Rightarrow> [] | Some x \<Rightarrow> [x]) @ js, y_world = w'\<rparr>"
proof -
  obtain m1 w1 where sw: "reload_swap env cfg flags es order m w = (m1, w1)" by fastforce
  have "covered (mgr_cover m1 \<union> jobs_cover js) B w1"
    by (rule reload_swap_covered [OF _ sw]) (use sys_okD(3) [OF s] j in \<open>simp add: Un_ac\<close>)
  moreover have "mgr_ok m1"
    by (rule reload_swap_ok [OF _ sw]) (use sys_okD(2) [OF s] j defaultHealth_ok in simp)
  moreover have "marks m1 = built j" "m_nextId m1 = m_nextId m"
    using sw j by (auto simp: reload_swap_def marks_def)
  moreover have "marks_ok (built j) (m_nextId m) js"
    using sys_okD(4) [OF s] by (rule marks_ok_reload) (simp add: j)
  ultimately show ?thesis
    using s st j sw by (auto simp: sys_ok_def)
qed

lemma job_step_ok:
  assumes "sys_ok B \<lparr>y_mgr = m, y_jobs = j # js, y_world = w\<rparr>" and "job_step cr env j m w = (j', m', w')"
  shows "sys_ok B \<lparr>y_mgr = m', y_jobs = (case j' of None \<Rightarrow> [] | Some x \<Rightarrow> [x]) @ js, y_world = w'\<rparr>"
  by (cases j) (erule job_started_ok [OF assms] job_loop_ok [OF assms] job_dial_ok [OF assms] job_swap_ok [OF assms] job_built_ok [OF assms])+

lemma build_entries_marks:
  assumes "distinct (map ep_Name eps)" and "world_ok w"
    and "build_entries cr env cfg flags eps i [] [] w = (Inr (es, order), w')"
  shows "ids (map (\<lambda>(n, e). (n, en_id e, en_reconnecting e)) es) = [i..<i + length eps]"
    and "flagged (map (\<lambda>(n, e). (n, en_id e, en_reconnecting e)) es) = {}"
proof -
  from build_entries_fleet [OF assms]
  have e: "map (\<lambda>(n, e). (n, en_id e, en_ep e)) es = map (\<lambda>(k, ep). (ep_Name ep, k, ep)) (enumerate i eps)"
    "\<forall>(n, e) \<in> set es. \<not> en_reconnecting e" by auto
  have "map (en_id \<circ> snd) es = map fst (enumerate i eps)"
    using arg_cong [OF e(1), of "map (fst \<circ> snd)"] by (simp add: comp_def case_prod_beta)
  then show "ids (map (\<lambda>(n, e). (n, en_id e, en_reconnecting e)) es) = [i..<i + length eps]"
    by (simp add: ids_def case_prod_beta comp_def)
  show "flagged (map (\<lambda>(n, e). (n, en_id e, en_reconnecting e)) es) = {}"
    using e(2) by (auto simp: flagged_def)
qed

lemma build_entries_built:
  assumes "build_entries cr env cfg flags eps i [] [] w = (Inr (es, order), w')" and "health_ok hs"
  shows "built_ok hs es order"
  using build_entries_ok [OF assms(2) built_ok_empty assms(1)] by (rule conjunct1)

lemma reload_start_ok:
  assumes s: "sys_ok B \<lparr>y_mgr = m, y_jobs = js, y_world = w\<rparr>" and d: "distinct (map ep_Name eps)"
    and r: "reload_start cr env cfg flags eps m w = (new, m', w')"
  shows "sys_ok B \<lparr>y_mgr = m', y_jobs = js @ new, y_world = w'\<rparr>"
proof -
  let ?k = "m_nextId m" and ?C = "mgr_cover m \<union> jobs_cover js"
  obtain x w1 where b: "build_entries cr env cfg flags eps ?k [] [] w = (x, w1)" by fastforce
  have w: "world_ok w" using sys_okD(3) [OF s] by (simp add: covered_def)
  note cov = build_entries_covered [OF d sys_okD(3) [OF s] b]
  have m: "m' = m\<lparr>m_nextId := ?k + length eps\<rparr>" "w' = w1"
    "new = (case x of Inl _ \<Rightarrow> [] | Inr (es, order) \<Rightarrow> [RlBuilt cfg flags es order])"
    using r b by (auto simp: reload_start_def Let_def split: sum.splits)
  have f: "mgr_ok m'" "mgr_cover m' = mgr_cover m" "marks m' = marks m"
    using sys_okD(1) [OF s] by (auto simp: m(1) mgr_ok_def mgr_cover_def marks_def)
  show ?thesis
  proof (cases x)
    case (Inl e)
    have "marks_ok (marks m) (?k + length eps) js" using sys_okD(4) [OF s] by (auto simp: marks_ok_def)
    with s Inl cov f show ?thesis by (auto simp: sys_ok_def m)
  next
    case (Inr y)
    obtain es order where y: "y = (es, order)" by fastforce
    let ?j = "RlBuilt cfg flags es order"
    have e: "covered (entries_cover es \<union> ?C) B w1" using cov Inr y by auto
    have mk: "marks_ok (marks m) (?k + length eps) (js @ [?j])"
      using build_entries_marks [OF d w b [unfolded Inr y]]
      by (intro marks_ok_build [OF sys_okD(4) [OF s]]) simp_all
    have "job_ok ?j" using build_entries_built b Inr y by simp
    moreover have "covered (mgr_cover m \<union> (jobs_cover js \<union> entries_cover es)) B w1"
      using e by (simp add: Un_ac)
    ultimately show ?thesis
      using s Inr y f mk by (simp add: sys_ok_def m ball_Un)
  qed
qed

lemma sys_step_ok:
  assumes "sys_step cr s s'" and "sys_ok B s"
  shows "sys_ok B s'"
  using assms(1)
proof (cases rule: sys_step.cases)
  case (Serve env opn rq m w m' w' js)
  with sys_ok_step_ok [of B m js w m' w' "[]"] serve_step assms(2) show ?thesis by fastforce
next
  case (Check ns m env w m' started w' js)
  with sys_ok_step_ok [of B m js w m' w' "map RcStarted started"] runHealthCheck_step assms(2)
  show ?thesis by fastforce
next
  case (Ping env ns m w r m' w' js)
  with sys_ok_step_ok [of B m js w m' w' "[]"] pingAll_step assms(2) show ?thesis by fastforce
next
  case (Bench env m w rs m' w' js)
  with sys_ok_step_ok [of B m js w m' w' "[]"] bench_loop_step assms(2) show ?thesis
    by (fastforce simp: Benchmark_def)
next
  case (Work env j m w j' m' w' as bs)
  from assms(2) have "sys_ok B \<lparr>y_mgr = m, y_jobs = j # as @ bs, y_world = w\<rparr>"
    unfolding Work(1) by (simp only: sys_ok_swap)
  from job_step_ok [OF this Work(3)] show ?thesis
    unfolding Work(2) by (cases j') (simp_all add: sys_ok_swap)
next
  case (Reload cfg eps env flags m w new m' w' js)
  with reload_start_ok assms(2) show ?thesis by simp
next
  case (Close m w m' w' js)
  with assms(2) mgr_Close_ok [of m w m' w'] mgr_Close_covered [of m "jobs_cover js" B w m' w'] show ?thesis
    by (auto simp: sys_ok_def mgr_Close_def marks_def marks_ok_def)
next
  case (Drop m js w h)
  with assms(2) show ?thesis
    by (auto simp: sys_ok_def close_handle_open covered_def intro!: covered_less [of _ B w "close_handle h w"])
qed

section \<open>Reachable states\<close>

lemma NewManager_sys_ok:
  assumes w: "world_ok w0" and eps: "UpstreamEndpoints cfg = Inr eps" "distinct (map ep_Name eps)"
    and n: "NewManager cr env cfg flags w0 = (Inr m, w)"
  shows "sys_ok (set (w_open w0)) \<lparr>y_mgr = m, y_jobs = [], y_world = w\<rparr>"
proof -
  let ?B = "set (w_open w0)"
  obtain es order w1 where b: "build_entries cr env cfg flags eps 0 [] [] w0 = (Inr (es, order), w1)"
    using n eps(1) by (auto simp: NewManager_def split: prod.splits sum.splits)
  let ?m = "\<lparr>m_cfg = cfg, m_health = defaultHealth (e_pd env) cfg, m_strategy = defaultStrategy cfg,
      m_remoteFlags = flags, m_entries = es, m_order = order,
      m_active = (if order = [] then [] else hd order), m_rrIdx = 0, m_cancelled = False, m_nextId = length eps\<rparr>"
  obtain r where pa: "pingAll env (map fst es) ?m w1 = (r, m, w)"
    using n eps(1) b by (auto simp: NewManager_def split: prod.splits)
  note st = pingAll_step [OF pa]
  have "covered {} ?B w0" using w by (simp add: covered_def)
  from build_entries_covered [OF eps(2) this b] have "covered (mgr_cover ?m \<union> {}) ?B w1" by (simp add: mgr_cover_def)
  from step_okD(4) [OF st this] have c: "covered (mgr_cover m \<union> jobs_cover []) ?B w" by simp
  have "ids (marks ?m) = [0..<length eps]" "flagged (marks ?m) = {}"
    using build_entries_marks [OF eps(2) w b] by (simp_all add: marks_def)
  then have "marks_ok (marks ?m) (length eps) []" by (auto simp: marks_ok_def)
  then have "marks_ok (marks m) (m_nextId m) []" using step_okD(2,3) [OF st] by simp
  with c NewManager_ok [OF n] show ?thesis by (intro sys_okI) simp_all
qed

lemma reachable_ok:
  assumes "reachable cr w0 s" and "world_ok w0"
  shows "sys_ok (set (w_open w0)) s"
  using assms(1)
proof (induction rule: reachable.induct)
  case (start cfg eps env flags m w)
  then show ?case by (intro NewManager_sys_ok [OF assms(2)])
next
  case (step s s')
  then show ?case by (blast intro: sys_step_ok)
qed

text \<open>A goroutine run on its own for at most \<open>k\<close> steps.\<close>

fun run_job :: "crypto \<Rightarrow> env \<Rightarrow> nat \<Rightarrow> job \<Rightarrow> Manager \<Rightarrow> world \<Rightarrow> job list \<times> Manager \<times> world" where
  "run_job cr env 0 j m w = ([j], m, w)"
| "run_job cr env (Suc k) j m w =
     (case job_step cr env j m w of
        (None, m1, w1) \<Rightarrow> ([], m1, w1)
      | (Some j1, m1, w1) \<Rightarrow> run_job cr env k j1 m1 w1)"

fun run_jobs :: "crypto \<Rightarrow> env \<Rightarrow> nat \<Rightarrow> job list \<Rightarrow> Manager \<Rightarrow> world \<Rightarrow> job list \<times> Manager \<times> world" where
  "run_jobs cr env k [] m w = ([], m, w)"
| "run_jobs cr env k (j # js) m w =
     (case run_job cr env k j m w of
        (rest, m1, w1) \<Rightarrow> (case run_jobs cr env k js m1 w1 of (rest', m2, w2) \<Rightarrow> (rest @ rest', m2, w2)))"

fun is_reload :: "job \<Rightarrow> bool" where
  "is_reload (RlBuilt cfg flags es order) = True"
| "is_reload _ = False"

definition closed :: "Manager \<Rightarrow> bool" where
  "closed m \<longleftrightarrow> m_cancelled m \<and> m_entries m = []"

fun is_dial :: "job \<Rightarrow> bool" where
  "is_dial (RcDial rc cfg flags ep) = True"
| "is_dial _ = False"

lemma job_step_closed:
  assumes c: "closed m" and "\<not> is_reload j" and s: "job_step cr env j m w = (j', m', w')"
  shows "closed m' \<and> (case j' of None \<Rightarrow> True | Some x \<Rightarrow> is_dial j \<and> \<not> is_reload x \<and> \<not> is_dial x)"
proof (cases j)
  case (RcDial rc cfg flags ep)
  obtain r w1 where "reconnect_dial cr env cfg flags ep w = (r, w1)" by fastforce
  with RcDial c s show ?thesis by (cases r) auto
next
  case (RlBuilt cfg flags es order)
  with assms(2) show ?thesis by simp
qed (use c s in \<open>auto simp: closed_def reconnect_begin_def reconnect_target_def reconnect_end_def reconnect_swap_def\<close>)

lemma run_job_closed:
  assumes c: "closed m" "\<not> is_reload j" and s: "sys_ok B \<lparr>y_mgr = m, y_jobs = j # js, y_world = w\<rparr>"
    and r: "run_job cr env (Suc (Suc 0)) j m w = (rest, m', w')"
  shows "rest = [] \<and> closed m' \<and> sys_ok B \<lparr>y_mgr = m', y_jobs = js, y_world = w'\<rparr>"
proof -
  obtain j1 m1 w1 where s1: "job_step cr env j m w = (j1, m1, w1)" by (metis prod_cases3)
  note c1 = job_step_closed [OF c s1] and o1 = job_step_ok [OF s s1]
  show ?thesis
  proof (cases j1)
    case None
    with c1 o1 s1 r show ?thesis by simp
  next
    case (Some x)
    obtain j2 m2 w2 where s2: "job_step cr env x m1 w1 = (j2, m2, w2)" by (metis prod_cases3)
    have x: "closed m1" "\<not> is_reload x" "\<not> is_dial x" "sys_ok B \<lparr>y_mgr = m1, y_jobs = x # js, y_world = w1\<rparr>"
      using c1 o1 Some by simp_all
    from job_step_closed [OF x(1,2) s2] job_step_ok [OF x(4) s2] x(3) s1 s2 Some r show ?thesis
      by (cases j2) simp_all
  qed
qed

lemma run_jobs_closed:
  assumes "closed m" and "\<forall>j \<in> set js. \<not> is_reload j" and "sys_ok B \<lparr>y_mgr = m, y_jobs = js, y_world = w\<rparr>"
    and "run_jobs cr env (Suc (Suc 0)) js m w = (rest, m', w')"
  shows "rest = [] \<and> closed m' \<and> sys_ok B \<lparr>y_mgr = m', y_jobs = [], y_world = w'\<rparr>"
  using assms
proof (induction js arbitrary: m w rest)
  case Nil
  then show ?case by simp
next
  case (Cons j js)
  obtain r1 m1 w1 where r1: "run_job cr env (Suc (Suc 0)) j m w = (r1, m1, w1)" by (metis prod_cases3)
  obtain r2 where r2: "run_jobs cr env (Suc (Suc 0)) js m1 w1 = (r2, m', w')" and rest: "rest = r1 @ r2"
    using Cons.prems(4) r1 by (auto split: prod.splits)
  have a: "r1 = []" "closed m1" "sys_ok B \<lparr>y_mgr = m1, y_jobs = js, y_world = w1\<rparr>"
    using run_job_closed [OF Cons.prems(1) _ Cons.prems(3) r1] Cons.prems(2) by auto
  from Cons.IH [OF a(2) _ a(3) r2] Cons.prems(2) rest a(1) show ?case by auto
qed

lemma shutdown_sys_ok:
  assumes "sys_ok B s" and "\<forall>j \<in> set (y_jobs s). \<not> is_reload j" and "mgr_Close (y_mgr s) (y_world s) = (m1, w1)"
  shows "case run_jobs cr env (Suc (Suc 0)) (y_jobs s) m1 w1 of
     (rest, m2, w2) \<Rightarrow> rest = [] \<and> m_entries m2 = [] \<and> set (w_open w2) \<subseteq> B"
proof -
  let ?s1 = "\<lparr>y_mgr = m1, y_jobs = y_jobs s, y_world = w1\<rparr>"
  have "sys_step cr \<lparr>y_mgr = y_mgr s, y_jobs = y_jobs s, y_world = y_world s\<rparr> ?s1"
    by (rule sys_step.Close [OF assms(3)])
  then have "sys_step cr s ?s1" by (cases s) simp
  then have ok: "sys_ok B ?s1" by (rule sys_step_ok) (rule assms(1))
  have cl: "closed m1" using assms(3) by (auto simp: mgr_Close_def closed_def)
  obtain rest m2 w2 where r: "run_jobs cr env (Suc (Suc 0)) (y_jobs s) m1 w1 = (rest, m2, w2)" by (metis prod_cases3)
  note rc = run_jobs_closed [OF cl assms(2) ok r]
  have "mgr_cover m2 = {}" using rc by (simp add: closed_def mgr_cover_def)
  then have "set (w_open w2) \<subseteq> B" using rc by (auto simp: sys_ok_def covered_def)
  with rc r show ?thesis by (simp add: closed_def)
qed

lemma sample_reachable:
  "\<exists>m w. NewManager toy_crypto calm_env sample_quic_client [] world0 = (Inr m, w)
     \<and> reachable toy_crypto world0 \<lparr>y_mgr = m, y_jobs = [], y_world = w\<rparr>"
proof -
  obtain eps where e: "UpstreamEndpoints sample_quic_client = Inr eps" "list_all (endpoint_ok toy_crypto calm_env) eps"
    "map ep_Name eps = [''fra'', ''ams'']"
    using sample_quic_endpoints by (elim exE conjE)
  have d: "distinct (map ep_Name eps)" unfolding e(3) by simp
  obtain m w where n: "NewManager toy_crypto calm_env sample_quic_client [] world0 = (Inr m, w)"
    using NewManager_calm [OF calm_env_calm sample_quic_network e(1,2)] by (rule succeedsE)
  have "reachable toy_crypto world0 \<lparr>y_mgr = m, y_jobs = [], y_world = w\<rparr>" by (rule reachable.start [OF e(1) d n])
  with n show ?thesis by (intro exI conjI)
qed

section \<open>Properties\<close>



text \<open>C4. The manager's books stay consistent in every reachable state: the names in order are exactly
  the names with an entry, each entry is filed under its endpoint's name, the active name is one
  of them, and the counters of every entry are within the health thresholds.\<close>

theorem manager_books_consistent:
  assumes "reachable cr w0 s" and "world_ok w0"
  shows "distinct (map fst (m_entries (y_mgr s)))
     \<and> set (m_order (y_mgr s)) = fst ` set (m_entries (y_mgr s))
     \<and> (m_order (y_mgr s) \<noteq> [] \<longrightarrow> m_active (y_mgr s) \<in> set (m_order (y_mgr s)))
     \<and> (\<forall>(n, e) \<in> set (m_entries (y_mgr s)). ep_Name (en_ep e) = n \<and> 0 \<le> en_failures e
         \<and> (if en_healthy e then en_failures e < hs_FailThreshold (m_health (y_mgr s))
            else 0 \<le> en_recovers e \<and> en_recovers e < hs_RecoverThreshold (m_health (y_mgr s))))"
  using reachable_ok [OF assms] by (auto simp: sys_ok_def mgr_ok_def entry_ok_def)

theorem manager_books_consistent_witness:
  "\<exists>m w. NewManager toy_crypto calm_env sample_quic_client [] world0 = (Inr m, w)
     \<and> set (m_order m) = fst ` set (m_entries m)"
proof -
  obtain m w where m: "NewManager toy_crypto calm_env sample_quic_client [] world0 = (Inr m, w)"
    "reachable toy_crypto world0 \<lparr>y_mgr = m, y_jobs = [], y_world = w\<rparr>"
    using sample_reachable by (elim exE conjE)
  have "set (m_order m) = fst ` set (m_entries m)"
    using manager_books_consistent [OF m(2) world0_ok] by simp
  with m(1) show ?thesis by (intro exI conjI)
qed

text \<open>C2. Only one reconnect runs per entry at a time: in every reachable state no two running
  reconnects work for the same entry, and an entry carries the reconnecting mark exactly while a
  reconnect runs for it (so the mark is never left behind).\<close>

theorem one_reconnect_per_entry:
  assumes "reachable cr w0 s" and "world_ok w0"
  shows "distinct (run_ids (y_jobs s))
     \<and> (\<forall>(n, e) \<in> set (m_entries (y_mgr s)). en_reconnecting e \<longleftrightarrow> en_id e \<in> set (run_ids (y_jobs s)))"
proof -
  let ?ms = "marks (y_mgr s)" and ?r = "set (run_ids (y_jobs s))"
  have m: "distinct (run_ids (y_jobs s))" "distinct (ids ?ms)" "flagged ?ms = set (ids ?ms) \<inter> ?r"
    using reachable_ok [OF assms] by (auto simp: sys_ok_def marks_ok_def)
  have "en_reconnecting e \<longleftrightarrow> en_id e \<in> ?r" if e: "(n, e) \<in> set (m_entries (y_mgr s))" for n e
  proof -
    have in_ms: "(n, en_id e, en_reconnecting e) \<in> set ?ms" using e by (force simp: marks_def)
    then have i: "en_id e \<in> set (ids ?ms)" by (force simp: ids_def)
    have "en_reconnecting e \<longleftrightarrow> en_id e \<in> flagged ?ms"
      by (rule flagged_iff [OF m(2) in_ms])
    with m(3) i show ?thesis by blast
  qed
  with m(1) show ?thesis by blast
qed

theorem one_reconnect_per_entry_witness:
  "\<exists>m w. NewManager toy_crypto calm_env sample_quic_client [] world0 = (Inr m, w)
     \<and> (\<forall>(n, e) \<in> set (m_entries m). \<not> en_reconnecting e)"
proof -
  obtain m w where m: "NewManager toy_crypto calm_env sample_quic_client [] world0 = (Inr m, w)"
    "reachable toy_crypto world0 \<lparr>y_mgr = m, y_jobs = [], y_world = w\<rparr>"
    using sample_reachable by (elim exE conjE)
  have "\<forall>(n, e) \<in> set (m_entries m). \<not> en_reconnecting e"
    using one_reconnect_per_entry [OF m(2) world0_ok] by simp
  with m(1) show ?thesis by (intro exI conjI)
qed



lemma backoff_doubles: "(next_backoff ^^ k) second = second * 2 ^ min k 5"
proof (induction k)
  case (Suc k)
  have "k < 5 \<Longrightarrow> k = 0 \<or> k = 1 \<or> k = 2 \<or> k = 3 \<or> k = 4" by auto
  with Suc show ?case by (cases "k < 5") (auto simp: next_backoff_def second_def)
qed simp

lemma reconnect_swap_health:
  assumes "reconnect_swap m n p w = (m', w')" and "map_of (m_entries m) n = Some cur"
  shows "entryHealthyLocked m' k \<longleftrightarrow> k = n \<or> entryHealthyLocked m k"
  using reconnect_swap_some [OF assms] by (simp add: entryHealthyLocked_def update_conv')

lemma reconnect_swap_active:
  assumes s: "reconnect_swap m n p w = (m', w')" and "map_of (m_entries m) n = Some cur"
  shows "m_active m' = (if m_active m = [] \<or> \<not> entryHealthyLocked m' (m_active m) then n else m_active m)"
proof -
  let ?m1 = "m\<lparr>m_entries := AList.update n (cur\<lparr>en_pool := p, en_healthy := True, en_failures := 0, en_recovers := 0\<rparr>) (m_entries m)\<rparr>"
  have h1: "entryHealthyLocked ?m1 = entryHealthyLocked m'"
    by (rule entryHealthyLocked_cong) (use reconnect_swap_some [OF assms] in simp)
  have "m' = (if m_active ?m1 = [] \<or> \<not> entryHealthyLocked ?m1 (m_active ?m1) then ?m1\<lparr>m_active := n\<rparr> else ?m1)"
    using assms by (simp add: reconnect_swap_def Let_def del: if_split)
  then have "m_active m' = (if m_active m = [] \<or> \<not> entryHealthyLocked ?m1 (m_active m) then n else m_active m)"
    by (cases "m_active m = [] \<or> \<not> entryHealthyLocked ?m1 (m_active m)") simp_all
  then show ?thesis unfolding h1 .
qed

text \<open>C5. A reconnect restores its server: when its new pool is swapped in and the server is still
  configured, the server is healthy with the new pool and cleared counters, the active server is
  a healthy one, everything of the old pool is closed and nothing else is; when the server is no
  longer configured the new pool is closed. The waits between failed attempts double from one
  second up to 32 seconds and stay there.\<close>

theorem reconnect_restores:
  "(\<forall>k. (next_backoff ^^ k) second = second * 2 ^ min k 5)
   \<and> (case reconnect_swap m n p w of (m', w') \<Rightarrow>
       (case map_of (m_entries m) n of
          None \<Rightarrow> m' = m \<and> w_open w' = filter (live (pool_holds p)) (w_open w)
        | Some cur \<Rightarrow> entryHealthyLocked m' n \<and> pool_of m' n = p
            \<and> entryHealthyLocked m' (m_active m')
            \<and> (entryHealthyLocked m (m_active m) \<and> m_active m \<noteq> [] \<longrightarrow> m_active m' = m_active m)
            \<and> (\<forall>k. k \<noteq> n \<longrightarrow> map_of (m_entries m') k = map_of (m_entries m) k)
            \<and> w_open w' = filter (live (pool_holds (en_pool cur))) (w_open w)))"
proof (intro conjI allI)
  show "(next_backoff ^^ k) second = second * 2 ^ min k 5" for k by (rule backoff_doubles)
  show "case reconnect_swap m n p w of (m', w') \<Rightarrow>
       (case map_of (m_entries m) n of
          None \<Rightarrow> m' = m \<and> w_open w' = filter (live (pool_holds p)) (w_open w)
        | Some cur \<Rightarrow> entryHealthyLocked m' n \<and> pool_of m' n = p
            \<and> entryHealthyLocked m' (m_active m')
            \<and> (entryHealthyLocked m (m_active m) \<and> m_active m \<noteq> [] \<longrightarrow> m_active m' = m_active m)
            \<and> (\<forall>k. k \<noteq> n \<longrightarrow> map_of (m_entries m') k = map_of (m_entries m) k)
            \<and> w_open w' = filter (live (pool_holds (en_pool cur))) (w_open w))"
  proof (cases "map_of (m_entries m) n")
    case None
    then show ?thesis by (simp add: reconnect_swap_def pool_Close_world)
  next
    case (Some cur)
    obtain m' w' where s: "reconnect_swap m n p w = (m', w')" by fastforce
    have es: "m_entries m' = AList.update n (cur\<lparr>en_pool := p, en_healthy := True, en_failures := 0, en_recovers := 0\<rparr>) (m_entries m)"
      "w' = snd (pool_Close (en_pool cur) w)" using reconnect_swap_some [OF s Some] by simp_all
    note h = reconnect_swap_health [OF s Some] and a = reconnect_swap_active [OF s Some]
    have "pool_of m' n = p" by (simp add: pool_of_def es update_conv')
    moreover have "entryHealthyLocked m' n" "entryHealthyLocked m' (m_active m')" using h a by simp_all
    moreover have "m_active m' = m_active m" if "entryHealthyLocked m (m_active m) \<and> m_active m \<noteq> []"
      using that h a by simp
    moreover have "\<forall>k. k \<noteq> n \<longrightarrow> map_of (m_entries m') k = map_of (m_entries m) k"
      by (simp add: es(1) update_conv')
    ultimately show ?thesis unfolding s prod.case Some option.case es(2) pool_Close_world by blast
  qed
qed

theorem reconnect_restores_witness:
  "case reconnect_swap (sample_manager Failover) ''b'' empty_pool sample_world of
     (m', w') \<Rightarrow> m_active m' = ''a'' \<and> pool_of m' ''b'' = empty_pool"
proof -
  have "m_active (sample_manager Failover) = ''a''" "map_of (m_entries (sample_manager Failover)) ''b'' \<noteq> None"
    by (simp_all add: sample_manager_def)
  with reconnect_restores [where m = "sample_manager Failover" and n = "''b''" and p = empty_pool and w = sample_world] sample_manager_simps(9)
  show ?thesis by (auto split: prod.splits)
qed

end
