(* ===== verification/Metrics.thy ===== *)
theory Metrics
  imports World
begin

text \<open>
  \<^verbatim>\<open>internal/metrics\<close> and \<^verbatim>\<open>internal/ioext\<close>: the process-wide counters (64-bit and wrapping), the
  metered writer and the copy loop of \<^verbatim>\<open>io.CopyBuffer\<close>. A source of bytes is
  the list of its read results, each a chunk and an optional error; a writer also returns the
  number of bytes it took, as \<^verbatim>\<open>io.Writer\<close> does.
\<close>

section \<open>Counters\<close>

record Collector =
  mt_BytesIn :: "64 word"
  mt_BytesOut :: "64 word"
  mt_TCPAccepted :: "64 word"
  mt_TCPActive :: "64 word"
  mt_UDPPackets :: "64 word"
  mt_RelayTCP :: "64 word"
  mt_RelayUDP :: "64 word"
  mt_UDPDgramFlows :: "64 word"
  mt_UDPDgramIn :: "64 word"
  mt_UDPDgramOut :: "64 word"
  mt_UDPDgramDropped :: "64 word"
  mt_Errors :: "64 word"

definition zero_Collector :: Collector where
  "zero_Collector = \<lparr>mt_BytesIn = 0, mt_BytesOut = 0, mt_TCPAccepted = 0, mt_TCPActive = 0, mt_UDPPackets = 0,
     mt_RelayTCP = 0, mt_RelayUDP = 0, mt_UDPDgramFlows = 0, mt_UDPDgramIn = 0, mt_UDPDgramOut = 0,
     mt_UDPDgramDropped = 0, mt_Errors = 0\<rparr>"

text \<open>A snapshot has the same fields; that of a nil collector is zero.\<close>

definition mt_Snapshot :: "Collector option \<Rightarrow> Collector" where
  "mt_Snapshot c = (case c of None \<Rightarrow> zero_Collector | Some c \<Rightarrow> c)"

definition IncError :: "Collector \<Rightarrow> Collector" where
  "IncError c = c\<lparr>mt_Errors := mt_Errors c + 1\<rparr>"

definition add_bytes :: "bool \<Rightarrow> nat \<Rightarrow> Collector \<Rightarrow> Collector" where
  "add_bytes outbound n c =
     (if outbound then c\<lparr>mt_BytesOut := mt_BytesOut c + of_nat n\<rparr>
      else c\<lparr>mt_BytesIn := mt_BytesIn c + of_nat n\<rparr>)"

section \<open>Metered copying\<close>

type_synonym 'w io_writer = "'w \<Rightarrow> byte list \<Rightarrow> (nat \<times> error option) \<times> 'w"

definition metered_Write :: "'w io_writer \<Rightarrow> bool \<Rightarrow> ('w \<times> Collector) io_writer" where
  "metered_Write wr outbound st p =
     (case st of (w, c) \<Rightarrow>
        (case wr w p of
           ((n, e), w1) \<Rightarrow> ((n, e), (w1, if n > 0 then add_bytes outbound n c else c))))"

definition errInvalidWrite :: error where "errInvalidWrite = Ext ''invalid write result''"
definition ErrShortWrite :: error where "ErrShortWrite = Ext ''short write''"

text \<open>One round of \<^verbatim>\<open>io.CopyBuffer\<close>: \<open>Some r\<close> when the copy ends with result \<open>r\<close>.\<close>

definition copy_step ::
  "'w io_writer \<Rightarrow> byte list \<Rightarrow> error option \<Rightarrow> 'w \<Rightarrow> error option option \<times> 'w" where
  "copy_step wr p er w =
     (let fin = (case er of None \<Rightarrow> None | Some e \<Rightarrow> if e = io_EOF then Some None else Some (Some e))
      in if p = [] then (fin, w)
         else (case wr w p of
                 ((nw, ew), w1) \<Rightarrow>
                   if length p < nw then (Some (Some (case ew of None \<Rightarrow> errInvalidWrite | Some e \<Rightarrow> e)), w1)
                   else (case ew of
                           Some e \<Rightarrow> (Some (Some e), w1)
                         | None \<Rightarrow> if length p \<noteq> nw then (Some (Some ErrShortWrite), w1) else (fin, w1))))"

fun ioext_Copy :: "'w io_writer \<Rightarrow> (byte list \<times> error option) list \<Rightarrow> 'w \<Rightarrow> error option \<times> 'w" where
  "ioext_Copy wr [] w = (None, w)"
| "ioext_Copy wr ((p, er) # src) w =
     (case copy_step wr p er w of
        (Some r, w1) \<Rightarrow> (r, w1)
      | (None, w1) \<Rightarrow> ioext_Copy wr src w1)"

definition CopyMetered ::
  "'w io_writer \<Rightarrow> (byte list \<times> error option) list \<Rightarrow> bool \<Rightarrow> 'w \<times> Collector \<Rightarrow> error option \<times> 'w \<times> Collector" where
  "CopyMetered wr src outbound st = ioext_Copy (metered_Write wr outbound) src st"

text \<open>The bytes of a source up to the first read that reports an error or the end.\<close>

fun source_bytes :: "(byte list \<times> error option) list \<Rightarrow> byte list" where
  "source_bytes [] = []"
| "source_bytes ((p, er) # src) = p @ (if er = None then source_bytes src else [])"

section \<open>The contract of io.Writer\<close>

text \<open>
  What the copy loop relies on: a writer takes a prefix of what it is given, in order, and takes
  all of it unless it reports an error. \<open>out\<close> is what has been written.
\<close>

locale honest_writer =
  fixes wr :: "'w \<Rightarrow> byte list \<Rightarrow> (nat \<times> error option) \<times> 'w"
    and out :: "'w \<Rightarrow> byte list"
  assumes takes_prefix: "wr w p = ((n, e), w') \<Longrightarrow> n \<le> length p \<and> out w' = out w @ take n p"
    and takes_all: "wr w p = ((n, None), w') \<Longrightarrow> n = length p"
begin

lemma metered_step:
  assumes "copy_step (metered_Write wr ob) p er (w, c) = (r, (w', c'))"
  shows "\<exists>k \<le> length p. out w' = out w @ take k p \<and> c' = add_bytes ob k c
     \<and> (r = None \<or> r = Some None \<longrightarrow> k = length p)"
proof (cases "p = []")
  case True
  then show ?thesis using assms by (auto simp: copy_step_def add_bytes_def)
next
  case False
  obtain n e w1 where w1: "wr w p = ((n, e), w1)" by (metis prod.exhaust)
  have n: "n \<le> length p" "out w1 = out w @ take n p" "e = None \<Longrightarrow> n = length p"
    using takes_prefix [OF w1] takes_all [of w p n w1] w1 by auto
  have "w' = w1" "c' = add_bytes ob n c" "r = None \<or> r = Some None \<longrightarrow> e = None"
    using assms False w1 n
    by (auto simp: copy_step_def metered_Write_def Let_def add_bytes_def split: option.splits if_splits)
  with n show ?thesis by blast
qed

lemma copy_metered:
  assumes "ioext_Copy (metered_Write wr ob) src (w, c) = (r, (w', c'))"
  shows "\<exists>k. k \<le> length (source_bytes src) \<and> out w' = out w @ take k (source_bytes src) \<and> c' = add_bytes ob k c
     \<and> (r = None \<longrightarrow> k = length (source_bytes src))"
  using assms
proof (induction src arbitrary: w c)
  case Nil
  then show ?case by (auto simp: add_bytes_def)
next
  case (Cons x src)
  obtain p er where x: "x = (p, er)" by fastforce
  obtain q w1 c1 where st: "copy_step (metered_Write wr ob) p er (w, c) = (q, (w1, c1))" by (metis prod.exhaust)
  obtain k where k: "k \<le> length p" "out w1 = out w @ take k p" "c1 = add_bytes ob k c"
    "q = None \<or> q = Some None \<longrightarrow> k = length p"
    using metered_step [OF st] by blast
  show ?case
  proof (cases q)
    case (Some y)
    with Cons.prems st x have "r = y" "w' = w1" "c' = c1" by auto
    moreover have "y = None \<longrightarrow> er \<noteq> None"
      using st Some by (auto simp: copy_step_def Let_def split: option.splits prod.splits if_splits)
    ultimately show ?thesis using k x Some by (intro exI [of _ k]) auto
  next
    case None
    with Cons.prems st x have c: "ioext_Copy (metered_Write wr ob) src (w1, c1) = (r, (w', c'))" by simp
    have er: "er = None"
      using st None by (auto simp: copy_step_def Let_def split: option.splits prod.splits if_splits)
    from Cons.IH [OF c] obtain l where l: "l \<le> length (source_bytes src)" "out w' = out w1 @ take l (source_bytes src)"
      "c' = add_bytes ob l c1" "r = None \<longrightarrow> l = length (source_bytes src)" by blast
    have "k = length p" using k(4) None by simp
    with k(2,3) l x er show ?thesis
      by (intro exI [of _ "length p + l"]) (auto simp: add_bytes_def)
  qed
qed

end

section \<open>Connections and streams as writers\<close>

definition conn_Write :: "env \<Rightarrow> handle \<Rightarrow> world io_writer" where
  "conn_Write env h w p =
     (case stream_write env h w p of
        (Some e, w1) \<Rightarrow> ((0, Some e), w1)
      | (None, w1) \<Rightarrow> ((length p, None), w1))"

interpretation conn: honest_writer "conn_Write env h" "written h" for env h
  by unfold_locales
    (auto simp: conn_Write_def stream_write_def written_def tick_def split: option.splits)

text \<open>A write to one connection leaves the others and the set of open objects alone.\<close>

definition frame_ok :: "handle \<Rightarrow> world \<Rightarrow> world \<Rightarrow> bool" where
  "frame_ok h w w' \<longleftrightarrow> w_open w' = w_open w \<and> w_next w' = w_next w
     \<and> (\<forall>h'. h' \<noteq> h \<longrightarrow> written h' w' = written h' w) \<and> (world_ok w \<and> h < w_next w \<longrightarrow> world_ok w')"

lemma frame_ok_refl [simp]: "frame_ok h w w"
  by (simp add: frame_ok_def)

lemma written_append: "w_log w' = w_log w @ [(h, bs)] \<Longrightarrow> written h' w' = written h' w @ (if h' = h then bs else [])"
  by (auto simp: written_def)

lemma written_tick [simp]: "written h (tick w) = written h w"
  by (simp add: written_def)

lemma stream_write_frame: "stream_write env h w p = (r, w') \<Longrightarrow> frame_ok h w w'"
  using stream_write_world_ok [of w h env p r w'] stream_write_simps [of env h w p r w'] written_append [of w' w h p]
  by (cases r) (auto simp: frame_ok_def, auto simp: stream_write_def split: option.splits)

lemma conn_Write_frame: "conn_Write env h w p = (r, w') \<Longrightarrow> frame_ok h w w'"
  by (auto simp: conn_Write_def intro: stream_write_frame split: prod.splits option.splits)

lemma copy_step_frame:
  "copy_step (metered_Write (conn_Write env h) ob) p er (w, c) = (q, (w', c')) \<Longrightarrow> frame_ok h w w'"
  by (auto simp: copy_step_def metered_Write_def Let_def conn_Write_frame split: if_splits prod.splits option.splits)

section \<open>Properties\<close>

text \<open>Copying into a connection or stream is faithful and metered exactly: what arrives is a
  prefix of what was read, in order; the counter of the direction grows by exactly the bytes that
  arrived (modulo \<open>2^64\<close>) and no other counter changes; when the copy ends without an error
  everything read has arrived.\<close>

lemma copy_metered_exact:
  "case CopyMetered (conn_Write env h) src outbound (w, c) of (r, (w', c')) \<Rightarrow>
     \<exists>k \<le> length (source_bytes src). written h w' = written h w @ take k (source_bytes src)
       \<and> c' = add_bytes outbound k c \<and> (r = None \<longrightarrow> k = length (source_bytes src))"
proof -
  obtain r w' c' where r: "ioext_Copy (metered_Write (conn_Write env h) outbound) src (w, c) = (r, (w', c'))"
    by (metis prod.exhaust)
  from conn.copy_metered [OF r] show ?thesis unfolding CopyMetered_def r prod.case by blast
qed

end
