(* ===== verification/Relay.thy ===== *)
theory Relay
  imports Transport Metrics
begin

text \<open>
  The data path of the exit: \<^verbatim>\<open>internal/tunnel/relay.go\<close> and \<^verbatim>\<open>internal/tunnel/dgram.go\<close>. A relay runs
  two copying goroutines and a third that waits for the first of them, or for the end of the
  context; an execution is the list of the steps these goroutines take, in the order they happen,
  each with what the operating system delivered. \<open>None\<close> as the result of a run means that the relay
  is still running when the list ends.
\<close>

section \<open>Splicing two connections\<close>

text \<open>
  \<open>ReadL\<close>, \<open>ReadR\<close>: a copying goroutine gets a result from its source; \<open>WakeCtx\<close>, \<open>WakeErr\<close>: the
  waiting goroutine takes one branch of its \<^verbatim>\<open>select\<close>, which it can only when that branch is ready.
\<close>

datatype splice_event =
    ReadL "byte list" "error option"
  | ReadR "byte list" "error option"
  | Cancel
  | WakeCtx
  | WakeErr

text \<open>\<open>sp_l2r\<close>, \<open>sp_r2l\<close>: how each copy ended, \<open>None\<close> while it runs; \<open>sp_ch\<close>: the buffered channel.\<close>

record splice =
  sp_l2r :: "error option option"
  sp_r2l :: "error option option"
  sp_ch :: "error option list"
  sp_ctx :: bool
  sp_w :: world
  sp_c :: Collector

definition ctx_Canceled :: error where "ctx_Canceled = Ext ''context canceled''"

fun splice_step ::
  "env \<Rightarrow> handle \<Rightarrow> handle \<Rightarrow> bool \<Rightarrow> splice_event \<Rightarrow> splice \<Rightarrow> error option option \<times> splice" where
  "splice_step env l r ob (ReadL p er) s =
     (if sp_l2r s \<noteq> None then (None, s)
      else (case copy_step (metered_Write (conn_Write env r) ob) p er (sp_w s, sp_c s) of
              (q, (w, c)) \<Rightarrow>
                (None, s\<lparr>sp_l2r := q, sp_ch := sp_ch s @ (case q of None \<Rightarrow> [] | Some e \<Rightarrow> [e]),
                         sp_w := w, sp_c := c\<rparr>)))"
| "splice_step env l r ob (ReadR p er) s =
     (if sp_r2l s \<noteq> None then (None, s)
      else (case copy_step (metered_Write (conn_Write env l) (\<not> ob)) p er (sp_w s, sp_c s) of
              (q, (w, c)) \<Rightarrow>
                (None, s\<lparr>sp_r2l := q, sp_ch := sp_ch s @ (case q of None \<Rightarrow> [] | Some e \<Rightarrow> [e]),
                         sp_w := w, sp_c := c\<rparr>)))"
| "splice_step env l r ob Cancel s = (None, s\<lparr>sp_ctx := True\<rparr>)"
| "splice_step env l r ob WakeCtx s = (if sp_ctx s then Some (Some ctx_Canceled) else None, s)"
| "splice_step env l r ob WakeErr s =
     (case sp_ch s of [] \<Rightarrow> (None, s) | e # es \<Rightarrow> (Some e, s\<lparr>sp_ch := es\<rparr>))"

fun splice_run ::
  "env \<Rightarrow> handle \<Rightarrow> handle \<Rightarrow> bool \<Rightarrow> splice_event list \<Rightarrow> splice \<Rightarrow> error option option \<times> splice" where
  "splice_run env l r ob [] s = (None, s)"
| "splice_run env l r ob (ev # evs) s =
     (case splice_step env l r ob ev s of
        (Some res, s1) \<Rightarrow> (Some res, s1)
      | (None, s1) \<Rightarrow> splice_run env l r ob evs s1)"

definition splice_start :: "world \<Rightarrow> Collector \<Rightarrow> splice" where
  "splice_start w c = \<lparr>sp_l2r = None, sp_r2l = None, sp_ch = [], sp_ctx = False, sp_w = w, sp_c = c\<rparr>"

section \<open>TCP relay\<close>

definition inc_active :: "64 word \<Rightarrow> Collector \<Rightarrow> Collector" where
  "inc_active d c = c\<lparr>mt_TCPActive := mt_TCPActive c + d\<rparr>"

text \<open>The left side is the tunnel stream; what comes from it is metered as inbound.\<close>

definition relayTCP ::
  "env \<Rightarrow> handle \<Rightarrow> string \<Rightarrow> splice_event list \<Rightarrow> world \<Rightarrow> Collector \<Rightarrow> error option option \<times> world \<times> Collector" where
  "relayTCP env strm addr evs w c =
     (let c1 = inc_active 1 (c\<lparr>mt_RelayTCP := mt_RelayTCP c + 1\<rparr>)
      in case acquire env (NetDial ''tcp'' addr) None w of
           (Inl e, w1) \<Rightarrow> (Some (Some e), w1, inc_active (-1) (IncError c1))
         | (Inr conn, w1) \<Rightarrow>
             (case splice_run env strm conn False evs (splice_start w1 c1) of
                (None, s) \<Rightarrow> (None, sp_w s, sp_c s)
              | (Some res, s) \<Rightarrow> (Some res, close_handle conn (sp_w s), inc_active (-1) (sp_c s))))"

section \<open>UDP relay over a stream\<close>

definition udpBuf :: nat where "udpBuf = 65536"

text \<open>
  \<open>Up\<close>: the goroutine from the stream to the target makes one round on what the stream still
  delivers; \<open>Down\<close>: the other one gets a datagram or an error (the idle deadline included) from the
  target.
\<close>

datatype udp_event =
    Up
  | Down "byte list res"
  | UCancel
  | UWakeCtx
  | UWakeErr

record urelay =
  ur_up :: bool
  ur_down :: bool
  ur_in :: "byte list"
  ur_ch :: "error list"
  ur_ctx :: bool
  ur_w :: world
  ur_c :: Collector

fun udp_step :: "env \<Rightarrow> handle \<Rightarrow> handle \<Rightarrow> udp_event \<Rightarrow> urelay \<Rightarrow> error option \<times> urelay" where
  "udp_step env strm conn Up s =
     (if \<not> ur_up s then (None, s)
      else (case ReadDatagram (ur_in s) udpBuf of
              (Inl e, inp) \<Rightarrow> (None, s\<lparr>ur_up := False, ur_in := inp, ur_ch := ur_ch s @ [e]\<rparr>)
            | (Inr p, inp) \<Rightarrow>
                if p = [] then (None, s\<lparr>ur_in := inp\<rparr>)
                else (case stream_write env conn (ur_w s) p of
                        (Some e, w) \<Rightarrow> (None, s\<lparr>ur_up := False, ur_in := inp, ur_ch := ur_ch s @ [e], ur_w := w\<rparr>)
                      | (None, w) \<Rightarrow>
                          (None, s\<lparr>ur_in := inp, ur_w := w, ur_c := add_bytes True (length p) (ur_c s)\<rparr>))))"
| "udp_step env strm conn (Down d) s =
     (if \<not> ur_down s then (None, s)
      else (case d of
              Inl e \<Rightarrow> (None, s\<lparr>ur_down := False, ur_ch := ur_ch s @ [e]\<rparr>)
            | Inr b \<Rightarrow>
                (let p = take udpBuf b
                 in case WriteDatagram (stream_write env strm) (ur_w s) p of
                      (Some e, w) \<Rightarrow> (None, s\<lparr>ur_down := False, ur_ch := ur_ch s @ [e], ur_w := w\<rparr>)
                    | (None, w) \<Rightarrow> (None, s\<lparr>ur_w := w, ur_c := add_bytes False (length p) (ur_c s)\<rparr>))))"
| "udp_step env strm conn UCancel s = (None, s\<lparr>ur_ctx := True\<rparr>)"
| "udp_step env strm conn UWakeCtx s = (if ur_ctx s then Some ctx_Canceled else None, s)"
| "udp_step env strm conn UWakeErr s =
     (case ur_ch s of [] \<Rightarrow> (None, s) | e # es \<Rightarrow> (Some e, s\<lparr>ur_ch := es\<rparr>))"

fun udp_run :: "env \<Rightarrow> handle \<Rightarrow> handle \<Rightarrow> udp_event list \<Rightarrow> urelay \<Rightarrow> error option \<times> urelay" where
  "udp_run env strm conn [] s = (None, s)"
| "udp_run env strm conn (ev # evs) s =
     (case udp_step env strm conn ev s of
        (Some e, s1) \<Rightarrow> (Some e, s1)
      | (None, s1) \<Rightarrow> udp_run env strm conn evs s1)"

definition udp_start :: "byte list \<Rightarrow> world \<Rightarrow> Collector \<Rightarrow> urelay" where
  "udp_start inp w c =
     \<lparr>ur_up = True, ur_down = True, ur_in = inp, ur_ch = [], ur_ctx = False, ur_w = w, ur_c = c\<rparr>"

text \<open>\<open>inp\<close>: all the stream delivers after the control message.\<close>

definition relayUDP ::
  "env \<Rightarrow> handle \<Rightarrow> string \<Rightarrow> byte list \<Rightarrow> udp_event list \<Rightarrow> world \<Rightarrow> Collector
     \<Rightarrow> error option \<times> world \<times> Collector" where
  "relayUDP env strm addr inp evs w c =
     (let c1 = c\<lparr>mt_RelayUDP := mt_RelayUDP c + 1\<rparr>
      in case acquire env (NetDial ''udp'' addr) None w of
           (Inl e, w1) \<Rightarrow> (Some e, w1, IncError c1)
         | (Inr conn, w1) \<Rightarrow>
             (case udp_run env strm conn evs (udp_start inp w1 c1) of
                (None, s) \<Rightarrow> (None, ur_w s, ur_c s)
              | (Some e, s) \<Rightarrow> (Some e, close_handle conn (ur_w s), ur_c s)))"

section \<open>What a splice delivers\<close>

fun lefts :: "splice_event list \<Rightarrow> (byte list \<times> error option) list" where
  "lefts [] = []"
| "lefts (ReadL p er # evs) = (p, er) # lefts evs"
| "lefts (_ # evs) = lefts evs"

fun rights :: "splice_event list \<Rightarrow> (byte list \<times> error option) list" where
  "rights [] = []"
| "rights (ReadR p er # evs) = (p, er) # rights evs"
| "rights (_ # evs) = rights evs"

text \<open>What a copy still has to deliver.\<close>

definition pending :: "error option option \<Rightarrow> (byte list \<times> error option) list \<Rightarrow> byte list" where
  "pending d src = (if d = None then source_bytes src else [])"

text \<open>
  One direction between two states: a prefix of what was pending has arrived, and all of it when
  the copy ended without an error meanwhile.
\<close>

definition moved :: "byte list \<Rightarrow> error option option \<Rightarrow> byte list \<Rightarrow> error option option \<Rightarrow> byte list \<Rightarrow> nat \<Rightarrow> bool" where
  "moved out d todo d' out' k \<longleftrightarrow> k \<le> length todo \<and> out' = out @ take k todo
     \<and> (d = None \<and> d' = Some None \<longrightarrow> k = length todo)"

lemma moved_done: "moved out (Some e) [] d' out' k \<longleftrightarrow> k = 0 \<and> out' = out"
  by (auto simp: moved_def)

lemma moved_zero: "d' = None \<or> d \<noteq> None \<Longrightarrow> moved out d todo d' out 0"
  by (auto simp: moved_def)

text \<open>A round of one copy, followed by the rest of the run.\<close>

lemma moved_step:
  assumes c: "copy_step (metered_Write (conn_Write env h) ob) p er (w, c) = (q, (w1, c1))"
    and m: "moved (written h w1) q (pending q src) d' (written h w2) k" and d': "q \<noteq> None \<Longrightarrow> d' = q"
  obtains j where "moved (written h w) None (pending None ((p, er) # src)) d' (written h w2) (j + k)"
    and "c1 = add_bytes ob j c"
proof -
  obtain j where j: "j \<le> length p" "written h w1 = written h w @ take j p" "c1 = add_bytes ob j c"
    "q = None \<or> q = Some None \<longrightarrow> j = length p"
    using conn.metered_step [OF c] by blast
  have er: "q = None \<longrightarrow> er = None" "q = Some None \<longrightarrow> er \<noteq> None"
    using c by (auto simp: copy_step_def Let_def split: option.splits prod.splits if_splits)
  have "moved (written h w) None (pending None ((p, er) # src)) d' (written h w2) (j + k)"
  proof (cases q)
    case None
    with m er j show ?thesis by (auto simp: moved_def pending_def)
  next
    case (Some e)
    with m have "k = 0" "written h w2 = written h w1" by (auto simp: moved_def pending_def)
    with Some er j d' show ?thesis by (auto simp: moved_def pending_def)
  qed
  with j(3) show ?thesis using that by blast
qed

lemma add_bytes_add: "add_bytes ob j (add_bytes ob k c) = add_bytes ob (j + k) c"
  by (simp add: add_bytes_def add_ac)

lemma add_bytes_comm: "add_bytes ob j (add_bytes (\<not> ob) k c) = add_bytes (\<not> ob) k (add_bytes ob j c)"
  by (simp add: add_bytes_def)

lemma add_bytes_zero [simp]: "add_bytes ob 0 c = c"
  by (simp add: add_bytes_def)

text \<open>The ends of the copies never change once set, and the channel holds only ends.\<close>

definition ends_ok :: "splice \<Rightarrow> bool" where
  "ends_ok s \<longleftrightarrow> (\<forall>e \<in> set (sp_ch s). sp_l2r s = Some e \<or> sp_r2l s = Some e)"

lemma splice_step_ends:
  assumes "splice_step env l r ob ev s = (res, s')"
  shows "(sp_l2r s \<noteq> None \<longrightarrow> sp_l2r s' = sp_l2r s) \<and> (sp_r2l s \<noteq> None \<longrightarrow> sp_r2l s' = sp_r2l s)
     \<and> (ends_ok s \<longrightarrow> ends_ok s'
          \<and> (\<forall>e. res = Some e \<longrightarrow> e = Some ctx_Canceled \<or> sp_l2r s' = Some e \<or> sp_r2l s' = Some e))"
  using assms by (cases ev) (auto simp: ends_ok_def split: if_splits prod.splits option.splits list.splits)

lemma splice_run_ends:
  assumes "splice_run env l r ob evs s = (res, s')"
  shows "(sp_l2r s \<noteq> None \<longrightarrow> sp_l2r s' = sp_l2r s) \<and> (sp_r2l s \<noteq> None \<longrightarrow> sp_r2l s' = sp_r2l s)
     \<and> (ends_ok s \<longrightarrow> (\<forall>e. res = Some e \<longrightarrow> e = Some ctx_Canceled \<or> sp_l2r s' = Some e \<or> sp_r2l s' = Some e))"
  using assms
proof (induction evs arbitrary: s)
  case (Cons ev evs)
  obtain q s1 where st: "splice_step env l r ob ev s = (q, s1)" by fastforce
  from splice_step_ends [OF st] Cons.IH [of s1] Cons.prems st show ?case by (cases q) auto
qed simp

text \<open>A run moves bytes both ways and meters each direction by itself.\<close>

definition spliced :: "handle \<Rightarrow> handle \<Rightarrow> bool \<Rightarrow> splice_event list \<Rightarrow> splice \<Rightarrow> splice \<Rightarrow> bool" where
  "spliced l r ob evs s s' \<longleftrightarrow> (\<exists>a b.
     moved (written r (sp_w s)) (sp_l2r s) (pending (sp_l2r s) (lefts evs)) (sp_l2r s') (written r (sp_w s')) a
     \<and> moved (written l (sp_w s)) (sp_r2l s) (pending (sp_r2l s) (rights evs)) (sp_r2l s') (written l (sp_w s')) b
     \<and> sp_c s' = add_bytes ob a (add_bytes (\<not> ob) b (sp_c s)))"

lemma spliced_simps:
  "spliced l r ob evs (s\<lparr>sp_ctx := b\<rparr>) s' = spliced l r ob evs s s'"
  "spliced l r ob (Cancel # evs) s s' = spliced l r ob evs s s'"
  "spliced l r ob (WakeCtx # evs) s s' = spliced l r ob evs s s'"
  "spliced l r ob (WakeErr # evs) s s' = spliced l r ob evs s s'"
  by (simp_all add: spliced_def)

lemma spliced_left:
  assumes c: "copy_step (metered_Write (conn_Write env r) ob) p er (sp_w s, sp_c s) = (q, (w, c))"
    and s: "sp_l2r s = None" "sp_l2r s1 = q" "sp_r2l s1 = sp_r2l s" "sp_w s1 = w" "sp_c s1 = c"
    and m: "spliced l r ob evs s1 s'" and e: "q \<noteq> None \<longrightarrow> sp_l2r s' = q" and "l \<noteq> r"
  shows "spliced l r ob (ReadL p er # evs) s s'"
proof -
  obtain a b where ab: "moved (written r w) q (pending q (lefts evs)) (sp_l2r s') (written r (sp_w s')) a"
    "moved (written l w) (sp_r2l s) (pending (sp_r2l s) (rights evs)) (sp_r2l s') (written l (sp_w s')) b"
    "sp_c s' = add_bytes ob a (add_bytes (\<not> ob) b c)"
    using m s by (auto simp: spliced_def)
  obtain j where j: "moved (written r (sp_w s)) None (pending None ((p, er) # lefts evs)) (sp_l2r s') (written r (sp_w s')) (j + a)"
    "c = add_bytes ob j (sp_c s)"
    using moved_step [OF c ab(1)] e by blast
  have "written l w = written l (sp_w s)" using copy_step_frame [OF c] \<open>l \<noteq> r\<close> by (auto simp: frame_ok_def)
  then have "moved (written l (sp_w s)) (sp_r2l s) (pending (sp_r2l s) (rights evs)) (sp_r2l s') (written l (sp_w s')) b"
    using ab(2) by simp
  moreover have "sp_c s' = add_bytes ob (j + a) (add_bytes (\<not> ob) b (sp_c s))"
    unfolding ab(3) j(2) by (simp add: add_bytes_comm [symmetric] add_bytes_add add.commute)
  ultimately show ?thesis using j(1) s(1) unfolding spliced_def by (intro exI [of _ "j + a"] exI [of _ b]) simp
qed

lemma spliced_right:
  assumes c: "copy_step (metered_Write (conn_Write env l) (\<not> ob)) p er (sp_w s, sp_c s) = (q, (w, c))"
    and s: "sp_r2l s = None" "sp_r2l s1 = q" "sp_l2r s1 = sp_l2r s" "sp_w s1 = w" "sp_c s1 = c"
    and m: "spliced l r ob evs s1 s'" and e: "q \<noteq> None \<longrightarrow> sp_r2l s' = q" and "l \<noteq> r"
  shows "spliced l r ob (ReadR p er # evs) s s'"
proof -
  obtain a b where ab: "moved (written r w) (sp_l2r s) (pending (sp_l2r s) (lefts evs)) (sp_l2r s') (written r (sp_w s')) a"
    "moved (written l w) q (pending q (rights evs)) (sp_r2l s') (written l (sp_w s')) b"
    "sp_c s' = add_bytes ob a (add_bytes (\<not> ob) b c)"
    using m s by (auto simp: spliced_def)
  obtain j where j: "moved (written l (sp_w s)) None (pending None ((p, er) # rights evs)) (sp_r2l s') (written l (sp_w s')) (j + b)"
    "c = add_bytes (\<not> ob) j (sp_c s)"
    using moved_step [OF c ab(2)] e by blast
  have "written r w = written r (sp_w s)" using copy_step_frame [OF c] \<open>l \<noteq> r\<close> by (auto simp: frame_ok_def)
  then have "moved (written r (sp_w s)) (sp_l2r s) (pending (sp_l2r s) (lefts evs)) (sp_l2r s') (written r (sp_w s')) a"
    using ab(1) by simp
  moreover have "sp_c s' = add_bytes ob a (add_bytes (\<not> ob) (j + b) (sp_c s))"
    unfolding ab(3) j(2) by (simp add: add_bytes_add add.commute)
  ultimately show ?thesis using j(1) s(1) unfolding spliced_def by (intro exI [of _ a] exI [of _ "j + b"]) simp
qed

lemma splice_run_spliced:
  assumes "splice_run env l r ob evs s = (res, s')" and "l \<noteq> r"
  shows "spliced l r ob evs s s'"
  using assms(1)
proof (induction evs arbitrary: s)
  case Nil
  then show ?case by (auto simp: spliced_def intro!: exI [of _ 0] moved_zero)
next
  case (Cons ev evs)
  obtain q s1 where st: "splice_step env l r ob ev s = (q, s1)" by fastforce
  show ?case
  proof (cases q)
    case (Some e)
    with Cons.prems st have "s' = s1" by simp
    with Some st show ?thesis
      by (cases ev) (auto simp: spliced_def intro!: exI [of _ 0] moved_zero split: if_splits prod.splits list.splits)
  next
    case None
    with Cons.prems st have run: "splice_run env l r ob evs s1 = (res, s')" by simp
    from Cons.IH [OF run] have IH: "spliced l r ob evs s1 s'" .
    note ends = splice_run_ends [OF run]
    show ?thesis
    proof (cases ev)
      case (ReadL p er)
      obtain q w c where c: "copy_step (metered_Write (conn_Write env r) ob) p er (sp_w s, sp_c s) = (q, (w, c))"
        by (metis prod.exhaust)
      show ?thesis
      proof (cases "sp_l2r s")
        case None
        with ReadL st c have "sp_l2r s1 = q" "sp_r2l s1 = sp_r2l s" "sp_w s1 = w" "sp_c s1 = c" by auto
        with ReadL None c IH ends assms(2) show ?thesis by (auto intro: spliced_left)
      qed (use ReadL st IH in \<open>auto simp: spliced_def pending_def\<close>)
    next
      case (ReadR p er)
      obtain q w c where c: "copy_step (metered_Write (conn_Write env l) (\<not> ob)) p er (sp_w s, sp_c s) = (q, (w, c))"
        by (metis prod.exhaust)
      show ?thesis
      proof (cases "sp_r2l s")
        case None
        with ReadR st c have "sp_r2l s1 = q" "sp_l2r s1 = sp_l2r s" "sp_w s1 = w" "sp_c s1 = c" by auto
        with ReadR None c IH ends assms(2) show ?thesis by (auto intro: spliced_right)
      qed (use ReadR st IH in \<open>auto simp: spliced_def pending_def\<close>)
    qed (use st IH None in \<open>auto simp: spliced_simps split: if_splits list.splits\<close>)
  qed
qed

text \<open>A splice opens and closes nothing.\<close>

lemma splice_step_unchanged:
  assumes "splice_step env l r ob ev s = (res, s')" and "world_ok (sp_w s)" and "l < w_next (sp_w s)" and "r < w_next (sp_w s)"
  shows "unchanged (sp_w s) (sp_w s') \<and> w_next (sp_w s') = w_next (sp_w s)"
  using assms
  by (cases ev) (auto simp: unchanged_def frame_ok_def dest!: copy_step_frame split: if_splits prod.splits list.splits)

lemma splice_run_unchanged:
  assumes "splice_run env l r ob evs s = (res, s')" and "world_ok (sp_w s)" and "l < w_next (sp_w s)" and "r < w_next (sp_w s)"
  shows "unchanged (sp_w s) (sp_w s') \<and> w_next (sp_w s') = w_next (sp_w s)"
  using assms
proof (induction evs arbitrary: s)
  case Nil
  then show ?case by (auto simp: unchanged_def)
next
  case (Cons ev evs)
  obtain q s1 where st: "splice_step env l r ob ev s = (q, s1)" by fastforce
  note u = splice_step_unchanged [OF st Cons.prems(2-4)]
  with Cons.IH [of s1] Cons.prems st show ?case
    by (cases q) (auto dest: unchanged_ok intro: unchanged_trans)
qed

text \<open>A copy that ended has left its result in the channel, where the waiting goroutine finds it.\<close>

definition reported :: "splice \<Rightarrow> bool" where
  "reported s \<longleftrightarrow> (sp_l2r s \<noteq> None \<or> sp_r2l s \<noteq> None \<longrightarrow> sp_ch s \<noteq> [])"

lemma splice_step_reported:
  "splice_step env l r ob ev s = (None, s1) \<Longrightarrow> reported s \<Longrightarrow>
     reported s1 \<and> (sp_ch s \<noteq> [] \<longrightarrow> sp_ch s1 \<noteq> []) \<and> (sp_ctx s \<longrightarrow> sp_ctx s1)"
  by (cases ev) (auto simp: reported_def split: if_splits prod.splits option.splits list.splits)

lemma splice_run_reported:
  "splice_run env l r ob evs s = (None, s1) \<Longrightarrow> reported s \<Longrightarrow>
     reported s1 \<and> (sp_ch s \<noteq> [] \<longrightarrow> sp_ch s1 \<noteq> []) \<and> (sp_ctx s \<longrightarrow> sp_ctx s1)"
proof (induction evs arbitrary: s)
  case (Cons ev evs)
  obtain q s2 where st: "splice_step env l r ob ev s = (q, s2)" by fastforce
  with Cons.prems have "q = None" by (cases q) auto
  with splice_step_reported [of env l r ob ev s s2] Cons.IH [of s2] Cons.prems st show ?case by auto
qed simp

lemma splice_run_append:
  "splice_run env l r ob (xs @ ys) s =
     (case splice_run env l r ob xs s of (Some res, s1) \<Rightarrow> (Some res, s1) | (None, s1) \<Rightarrow> splice_run env l r ob ys s1)"
  by (induction xs arbitrary: s) (auto split: prod.splits option.splits)

text \<open>The end of either source, noticed by the waiting goroutine, ends the splice.\<close>

definition source_ends :: "splice_event \<Rightarrow> bool" where
  "source_ends ev \<longleftrightarrow> (\<exists>p e. ev = ReadL p (Some e) \<or> ev = ReadR p (Some e))"

lemma copy_step_ends: "copy_step wr p (Some e) w = (q, w1) \<Longrightarrow> q \<noteq> None"
  by (auto simp: copy_step_def Let_def split: if_splits prod.splits option.splits)

lemma splice_step_end:
  "source_ends ev \<Longrightarrow> splice_step env l r ob ev s = (q, s1) \<Longrightarrow> reported s \<Longrightarrow> q = None \<and> sp_ch s1 \<noteq> []"
  by (auto simp: source_ends_def reported_def dest!: copy_step_ends split: if_splits prod.splits)

lemma splice_returns:
  assumes "source_ends ev" and "reported s"
  shows "fst (splice_run env l r ob (xs @ ev # ys @ WakeErr # zs) s) \<noteq> None"
proof -
  obtain q s1 where x: "splice_run env l r ob xs s = (q, s1)" by fastforce
  show ?thesis
  proof (cases q)
    case None
    with splice_run_reported x assms(2) have s1: "reported s1" by blast
    obtain q2 s2 where e: "splice_step env l r ob ev s1 = (q2, s2)" by fastforce
    from splice_step_end [OF assms(1) e s1] have q2: "q2 = None" and ch: "sp_ch s2 \<noteq> []" by simp_all
    have s2: "reported s2" using splice_step_reported [of env l r ob ev s1 s2] e q2 s1 by blast
    obtain q3 s3 where y: "splice_run env l r ob ys s2 = (q3, s3)" by fastforce
    show ?thesis
    proof (cases q3)
      case None
      with splice_run_reported y s2 ch have "sp_ch s3 \<noteq> []" by blast
      then show ?thesis using x \<open>q = None\<close> e q2 y None
        by (auto simp: splice_run_append neq_Nil_conv)
    qed (use x \<open>q = None\<close> e q2 y in \<open>simp add: splice_run_append\<close>)
  qed (use x in \<open>simp add: splice_run_append\<close>)
qed

lemma splice_start_ok [simp]: "ends_ok (splice_start w c)" "reported (splice_start w c)"
  by (simp_all add: splice_start_def ends_ok_def reported_def)

text \<open>The contract of a finished splice, as its four users rely on it.\<close>

lemma splice_contract:
  assumes "splice_run env l r ob evs (splice_start w c) = (res, s)" and "l \<noteq> r"
    and "world_ok w" and "l < w_next w" and "r < w_next w"
  obtains a b where "a \<le> length (source_bytes (lefts evs))" and "b \<le> length (source_bytes (rights evs))"
    and "written r (sp_w s) = written r w @ take a (source_bytes (lefts evs))"
    and "written l (sp_w s) = written l w @ take b (source_bytes (rights evs))"
    and "sp_c s = add_bytes ob a (add_bytes (\<not> ob) b c)"
    and "res = Some None \<longrightarrow> a = length (source_bytes (lefts evs)) \<or> b = length (source_bytes (rights evs))"
    and "unchanged w (sp_w s)" and "w_next (sp_w s) = w_next w"
proof -
  from splice_run_spliced [OF assms(1,2)] obtain a b where
    "moved (written r w) None (source_bytes (lefts evs)) (sp_l2r s) (written r (sp_w s)) a"
    "moved (written l w) None (source_bytes (rights evs)) (sp_r2l s) (written l (sp_w s)) b"
    "sp_c s = add_bytes ob a (add_bytes (\<not> ob) b c)"
    by (auto simp: spliced_def splice_start_def pending_def)
  moreover have "res = Some None \<longrightarrow> sp_l2r s = Some None \<or> sp_r2l s = Some None"
    using splice_run_ends [OF assms(1)] by auto
  moreover have "unchanged w (sp_w s)" "w_next (sp_w s) = w_next w"
    using splice_run_unchanged [OF assms(1)] assms(3-5) by (simp_all add: splice_start_def)
  ultimately show ?thesis by (intro that [of a b]) (auto simp: moved_def)
qed

lemma fresh_written: "world_ok w \<Longrightarrow> w_next w \<le> h \<Longrightarrow> written h w = []"
  by (force simp: world_ok_def written_def filter_empty_conv)

lemma written_same_log: "w_log w' = w_log w \<Longrightarrow> written h w' = written h w"
  by (simp add: written_def)

lemma inc_active_simps [simp]:
  "mt_BytesIn (inc_active d c) = mt_BytesIn c" "mt_BytesOut (inc_active d c) = mt_BytesOut c"
  "mt_TCPActive (inc_active d c) = mt_TCPActive c + d" "mt_RelayTCP (inc_active d c) = mt_RelayTCP c"
  by (simp_all add: inc_active_def)

lemma add_bytes_simps [simp]:
  "mt_TCPActive (add_bytes ob k c) = mt_TCPActive c" "mt_RelayTCP (add_bytes ob k c) = mt_RelayTCP c"
  "mt_RelayUDP (add_bytes ob k c) = mt_RelayUDP c"
  "mt_BytesIn (add_bytes False k c) = mt_BytesIn c + of_nat k" "mt_BytesOut (add_bytes False k c) = mt_BytesOut c"
  "mt_BytesIn (add_bytes True k c) = mt_BytesIn c" "mt_BytesOut (add_bytes True k c) = mt_BytesOut c + of_nat k"
  by (simp_all add: add_bytes_def)

section \<open>What a UDP relay delivers\<close>

text \<open>The datagrams written to a socket, boundaries included.\<close>

definition packets :: "handle \<Rightarrow> world \<Rightarrow> byte list list" where
  "packets h w = map snd (filter (\<lambda>x. fst x = h) (w_log w))"

lemma written_packets: "written h w = concat (packets h w)"
  by (simp add: written_def packets_def)

lemma packets_tick [simp]: "packets h (tick w) = packets h w"
  by (simp add: packets_def)

definition delivers :: "env \<Rightarrow> bool" where
  "delivers env \<longleftrightarrow> (\<forall>h w. e_fail env (StreamWrite h) w = None)"

lemma stream_write_packets:
  "stream_write env h w p = (r, w') \<Longrightarrow> packets h' w' = packets h' w @ (if r = None \<and> h' = h then [p] else [])"
  by (auto simp: stream_write_def packets_def split: option.splits)

lemma stream_write_delivers: "delivers env \<Longrightarrow> stream_write env h w p = (r, w') \<Longrightarrow> r = None"
  by (auto simp: delivers_def stream_write_def)

fun ups :: "udp_event list \<Rightarrow> nat" where
  "ups [] = 0"
| "ups (Up # evs) = Suc (ups evs)"
| "ups (_ # evs) = ups evs"

text \<open>What the target sends, up to the first read error.\<close>

fun downs :: "udp_event list \<Rightarrow> byte list list" where
  "downs [] = []"
| "downs (Down (Inr b) # evs) = take udpBuf b # downs evs"
| "downs (Down (Inl e) # evs) = []"
| "downs (_ # evs) = downs evs"

abbreviation nonempty :: "byte list list \<Rightarrow> byte list list" where
  "nonempty \<equiv> filter (\<lambda>p. p \<noteq> [])"

abbreviation total :: "byte list list \<Rightarrow> nat" where
  "total ps \<equiv> sum_list (map length ps)"

text \<open>
  \<open>k\<close> datagrams went up and \<open>j\<close> came down; when nothing fails and the relay still runs, these are
  all the goroutines had the occasion to move.
\<close>

definition relayed :: "env \<Rightarrow> handle \<Rightarrow> handle \<Rightarrow> byte list list \<Rightarrow> udp_event list \<Rightarrow> urelay \<Rightarrow> error option \<Rightarrow> urelay \<Rightarrow> nat \<Rightarrow> nat \<Rightarrow> bool" where
  "relayed env strm conn qs evs s res s' k j \<longleftrightarrow>
     packets conn (ur_w s') = packets conn (ur_w s) @ nonempty (take k qs)
     \<and> packets strm (ur_w s') = packets strm (ur_w s) @ map frame (take j (downs evs))
     \<and> ur_c s' = add_bytes True (total (take k qs)) (add_bytes False (total (take j (downs evs))) (ur_c s))
     \<and> (\<not> ur_up s \<longrightarrow> k = 0) \<and> (\<not> ur_down s \<longrightarrow> j = 0)
     \<and> (delivers env \<and> res = None \<and> ur_up s \<longrightarrow> k = min (ups evs) (length qs))
     \<and> (delivers env \<and> res = None \<and> ur_down s \<and> (\<forall>d \<in> set (downs evs). length d \<le> MaxDatagram)
          \<longrightarrow> j = length (downs evs))"

lemma ReadDatagram_nil: "ReadDatagram [] cap = (Inl io_EOF, [])"
  by (simp add: ReadDatagram_def read_full_def)

lemma ReadDatagram_udpBuf: "length p \<le> MaxDatagram \<Longrightarrow> ReadDatagram (frame p @ rest) udpBuf = (Inr p, rest)"
  by (rule ReadDatagram_frame) (simp_all add: MaxDatagram_def udpBuf_def)

lemma relayed_up:
  assumes st: "udp_step env strm conn Up s = (None, s1)" and up: "ur_up s" and inp: "ur_in s = concat (map frame (q # qs))"
    and q: "length q \<le> MaxDatagram" and "strm \<noteq> conn"
    and IH: "relayed env strm conn qs evs s1 res s' k j"
  shows "\<exists>k j. relayed env strm conn (q # qs) (Up # evs) s res s' k j"
proof -
  note rd = ReadDatagram_udpBuf [OF q, of "concat (map frame qs)"]
  obtain r w where wr: "stream_write env conn (ur_w s) q = (r, w)" by fastforce
  note pk = stream_write_packets [OF wr]
  show ?thesis
  proof (cases "q = []")
    case True
    with st up inp rd have "s1 = s\<lparr>ur_in := concat (map frame qs)\<rparr>" by simp
    with IH True up show ?thesis by (intro exI [of _ "Suc k"] exI [of _ j]) (simp add: relayed_def)
  next
    case False
    show ?thesis
    proof (cases r)
      case None
      with st up inp rd wr False
      have s1: "s1 = s\<lparr>ur_in := concat (map frame qs), ur_w := w, ur_c := add_bytes True (length q) (ur_c s)\<rparr>" by simp
      show ?thesis using IH False up None pk \<open>strm \<noteq> conn\<close> unfolding s1
        by (intro exI [of _ "Suc k"] exI [of _ j])
          (simp add: relayed_def add_bytes_comm [of True, simplified, symmetric] add_bytes_add add.commute)
    next
      case (Some e)
      with st up inp rd wr False have "s1 = s\<lparr>ur_up := False, ur_in := concat (map frame qs), ur_ch := ur_ch s @ [e], ur_w := w\<rparr>"
        by simp
      with IH up Some pk stream_write_delivers [OF _ wr] show ?thesis
        by (intro exI [of _ 0] exI [of _ j]) (auto simp: relayed_def)
    qed
  qed
qed

lemma relayed_down:
  assumes st: "udp_step env strm conn (Down (Inr b)) s = (None, s1)" and down: "ur_down s" and "strm \<noteq> conn"
    and IH: "relayed env strm conn qs evs s1 res s' k j"
  shows "\<exists>k j. relayed env strm conn qs (Down (Inr b) # evs) s res s' k j"
proof -
  define p where "p = take udpBuf b"
  show ?thesis
  proof (cases "length p \<le> MaxDatagram")
    case big: False
    then obtain e where "WriteDatagram (stream_write env strm) (ur_w s) p = (Some e, ur_w s)"
      by (simp add: WriteDatagram_def)
    with st down have "s1 = s\<lparr>ur_down := False, ur_ch := ur_ch s @ [e]\<rparr>"
      by (simp add: p_def Let_def)
    with IH big show ?thesis
      by (intro exI [of _ k] exI [of _ 0]) (simp add: relayed_def p_def)
  next
    case ok: True
    obtain r w where wr: "stream_write env strm (ur_w s) (frame p) = (r, w)" by fastforce
    note pk = stream_write_packets [OF wr]
    have wd: "WriteDatagram (stream_write env strm) (ur_w s) p = (r, w)"
      using ok wr by (simp add: WriteDatagram_def frame_def)
    show ?thesis
    proof (cases r)
      case None
      with st down wd have s1: "s1 = s\<lparr>ur_w := w, ur_c := add_bytes False (length p) (ur_c s)\<rparr>"
        by (simp add: p_def Let_def)
      show ?thesis using IH None pk \<open>strm \<noteq> conn\<close> down unfolding s1
        by (intro exI [of _ k] exI [of _ "Suc j"]) (simp add: relayed_def p_def add_bytes_add add.commute)
    next
      case (Some e)
      with st down wd have "s1 = s\<lparr>ur_down := False, ur_ch := ur_ch s @ [e], ur_w := w\<rparr>"
        by (simp add: p_def Let_def)
      with IH down Some pk stream_write_delivers [OF _ wr] show ?thesis
        by (intro exI [of _ k] exI [of _ 0]) (auto simp: relayed_def)
    qed
  qed
qed

lemma relayed_simps:
  "relayed env strm conn qs (UCancel # evs) s res s' = relayed env strm conn qs evs s res s'"
  "relayed env strm conn qs (UWakeCtx # evs) s res s' = relayed env strm conn qs evs s res s'"
  "relayed env strm conn qs (UWakeErr # evs) s res s' = relayed env strm conn qs evs s res s'"
  "relayed env strm conn qs evs (s\<lparr>ur_ctx := b\<rparr>) res s' = relayed env strm conn qs evs s res s'"
  by (simp_all add: relayed_def fun_eq_iff)

lemma udp_step_wakes:
  "udp_step env strm conn ev s = (Some e, s1) \<Longrightarrow> ur_w s1 = ur_w s \<and> ur_c s1 = ur_c s"
  by (cases ev) (auto simp: Let_def split: if_splits prod.splits sum.splits option.splits list.splits)

lemma relayed_none: "s' = s \<or> res \<noteq> None \<Longrightarrow> ur_w s' = ur_w s \<Longrightarrow> ur_c s' = ur_c s \<Longrightarrow> evs = [] \<or> res \<noteq> None \<Longrightarrow>
   relayed env strm conn qs evs s res s' 0 0"
  by (auto simp: relayed_def)

lemma relayed_up_idle:
  assumes st: "udp_step env strm conn Up s = (None, s1)" and idle: "\<not> ur_up s \<or> ur_in s = [] \<and> qs = []"
    and r: "relayed env strm conn qs evs s1 res s' k j"
  shows "relayed env strm conn qs (Up # evs) s res s' 0 j"
proof -
  have "ur_w s1 = ur_w s" "ur_c s1 = ur_c s" "\<not> ur_up s1" "ur_down s1 = ur_down s"
    using st idle by (auto simp: ReadDatagram_nil split: if_splits)
  with r idle show ?thesis by (auto simp: relayed_def)
qed

lemma relayed_down_idle:
  assumes st: "udp_step env strm conn (Down d) s = (None, s1)" and idle: "\<nexists>b. ur_down s \<and> d = Inr b"
    and r: "relayed env strm conn qs evs s1 res s' k j"
  shows "relayed env strm conn qs (Down d # evs) s res s' k 0"
proof -
  have "ur_w s1 = ur_w s" "ur_c s1 = ur_c s" "\<not> ur_down s1" "ur_up s1 = ur_up s"
    using st idle by (cases d; auto split: if_splits)+
  with r idle show ?thesis by (cases d) (auto simp: relayed_def)
qed

lemma udp_step_input:
  assumes "udp_step env strm conn ev s = (None, s1)" and "ev \<noteq> Up" and "ur_up s \<longrightarrow> ur_in s = i"
  shows "ur_up s1 \<longrightarrow> ur_in s1 = i"
  using assms by (cases ev) (auto simp: Let_def split: if_splits prod.splits sum.splits option.splits list.splits)

text \<open>One step that does not end the relay, in front of a run that is understood.\<close>

lemma relayed_step:
  assumes st: "udp_step env strm conn ev s = (None, s1)" and ne: "strm \<noteq> conn"
    and inp: "ur_up s \<longrightarrow> ur_in s = concat (map frame qs)" and qs: "\<forall>q \<in> set qs. length q \<le> MaxDatagram"
    and IH: "\<And>qs. ur_up s1 \<longrightarrow> ur_in s1 = concat (map frame qs) \<Longrightarrow> \<forall>q \<in> set qs. length q \<le> MaxDatagram
      \<Longrightarrow> \<exists>k j. relayed env strm conn qs evs s1 res s' k j"
  shows "\<exists>k j. relayed env strm conn qs (ev # evs) s res s' k j"
proof (cases ev)
  case Up
  show ?thesis
  proof (cases "ur_up s \<and> qs \<noteq> []")
    case True
    then obtain q qs' where q: "qs = q # qs'" "length q \<le> MaxDatagram" using qs by (cases qs) auto
    have "ur_up s1 \<longrightarrow> ur_in s1 = concat (map frame qs')"
      using st Up True inp q ReadDatagram_udpBuf [OF q(2), of "concat (map frame qs')"]
      by (auto split: if_splits prod.splits option.splits)
    then obtain k j where "relayed env strm conn qs' evs s1 res s' k j" using IH [of qs'] qs q by auto
    with relayed_up [OF st [unfolded Up]] True q ne inp Up show ?thesis by blast
  next
    case False
    then have idle: "\<not> ur_up s \<or> ur_in s = [] \<and> qs = []" using inp by auto
    then have "ur_up s1 \<longrightarrow> ur_in s1 = concat (map frame qs)"
      using st Up by (auto simp: ReadDatagram_nil split: if_splits)
    then obtain k j where "relayed env strm conn qs evs s1 res s' k j" using IH [of qs] qs by auto
    from relayed_up_idle [OF st [unfolded Up] idle this] show ?thesis unfolding Up by blast
  qed
next
  case (Down d)
  have "ur_up s1 \<longrightarrow> ur_in s1 = concat (map frame qs)" using udp_step_input [OF st _ inp] Down by simp
  then obtain k j where r: "relayed env strm conn qs evs s1 res s' k j" using IH [of qs] qs by auto
  show ?thesis
  proof (cases "\<exists>b. ur_down s \<and> d = Inr b")
    case True
    then obtain b where b: "ur_down s" "d = Inr b" by blast
    from relayed_down [OF st [unfolded Down b(2)] b(1) ne r] show ?thesis unfolding Down b(2) .
  next
    case False
    from relayed_down_idle [OF st [unfolded Down] False r] show ?thesis unfolding Down by blast
  qed
qed (use st IH [of qs] inp qs in \<open>auto simp: relayed_simps split: if_splits list.splits\<close>)

lemma udp_run_relayed:
  assumes "udp_run env strm conn evs s = (res, s')" and "strm \<noteq> conn"
    and "ur_up s \<longrightarrow> ur_in s = concat (map frame qs)" and "\<forall>q \<in> set qs. length q \<le> MaxDatagram"
  shows "\<exists>k j. relayed env strm conn qs evs s res s' k j"
  using assms
proof (induction evs arbitrary: s qs)
  case Nil
  then show ?case by (intro exI [of _ 0]) (simp add: relayed_none)
next
  case (Cons ev evs)
  obtain r s1 where st: "udp_step env strm conn ev s = (r, s1)" by fastforce
  show ?case
  proof (cases r)
    case (Some e)
    with Cons.prems(1) st have "s' = s1" "res = Some e" by simp_all
    with udp_step_wakes [OF st [unfolded Some]] show ?thesis
      by (intro exI [of _ 0]) (simp add: relayed_none)
  next
    case None
    with Cons.prems st have "udp_run env strm conn evs s1 = (res, s')" by simp
    from Cons.IH [OF this Cons.prems(2)] show ?thesis by (rule relayed_step [OF st [unfolded None] Cons.prems(2-4)])
  qed
qed

lemma udp_step_unchanged:
  assumes "udp_step env strm conn ev s = (res, s')" and "world_ok (ur_w s)" and "strm < w_next (ur_w s)" and "conn < w_next (ur_w s)"
  shows "unchanged (ur_w s) (ur_w s') \<and> w_next (ur_w s') = w_next (ur_w s)"
  using assms
  by (cases ev) (auto simp: unchanged_def WriteDatagram_def Let_def frame_ok_def dest!: stream_write_frame
      split: if_splits prod.splits sum.splits option.splits list.splits)

lemma udp_run_unchanged:
  assumes "udp_run env strm conn evs s = (res, s')" and "world_ok (ur_w s)" and "strm < w_next (ur_w s)" and "conn < w_next (ur_w s)"
  shows "unchanged (ur_w s) (ur_w s') \<and> w_next (ur_w s') = w_next (ur_w s)"
  using assms
proof (induction evs arbitrary: s)
  case Nil
  then show ?case by (auto simp: unchanged_def)
next
  case (Cons ev evs)
  obtain q s1 where st: "udp_step env strm conn ev s = (q, s1)" by fastforce
  note u = udp_step_unchanged [OF st Cons.prems(2-4)]
  with Cons.IH [of s1] Cons.prems st show ?case
    by (cases q) (auto dest: unchanged_ok intro: unchanged_trans)
qed

lemma dialled:
  assumes "world_ok w" and "acquire env call None w = (Inr h, w1)" and "unchanged w1 w2" and "w_next w2 = w_next w1"
  shows "h = w_next w" and "h < w_next w1" and "world_ok w1" and "w_next w1 = Suc (w_next w)" and "written h w1 = []"
    and "\<And>h'. written h' w1 = written h' w" and "\<And>h'. packets h' w1 = packets h' w"
    and "unchanged w (close_handle h w2)"
proof -
  note a = acquire_ok [OF assms(2)]
  have ok1: "world_ok w1" by (rule acquire_world_ok [OF assms(1,2)]) simp
  show "h = w_next w" "w_next w1 = Suc (w_next w)" using a by simp_all
  then show "h < w_next w1" by simp
  show "world_ok w1" by (rule ok1)
  have log: "w_log w1 = w_log w" using a by simp
  show wr: "written h' w1 = written h' w" for h' by (rule written_same_log [OF log])
  show "packets h' w1 = packets h' w" for h' by (simp add: packets_def log)
  show "written h w1 = []" unfolding wr by (rule fresh_written [OF assms(1)]) (use a in simp)
  have g: "grows w {h} w2" using grows_unchanged [OF grows_acquire [OF assms(1,2)] assms(3)] by simp
  show "unchanged w (close_handle h w2)"
    by (rule grows_close_unchanged [OF assms(1) g close_handle_open]) (simp_all add: grows_ok [OF g])
qed

lemma fresh_packets: "world_ok w \<Longrightarrow> w_next w \<le> h \<Longrightarrow> packets h w = []"
  by (force simp: world_ok_def packets_def filter_empty_conv)

text \<open>As long as the waiting goroutine is not scheduled the relay does not return.\<close>

lemma udp_run_waits: "\<forall>ev \<in> set evs. ev \<noteq> UWakeCtx \<and> ev \<noteq> UWakeErr \<Longrightarrow> fst (udp_run env strm conn evs s) = None"
proof (induction evs arbitrary: s)
  case (Cons ev evs)
  then have "fst (udp_step env strm conn ev s) = None"
    by (cases ev) (auto simp: Let_def split: prod.splits sum.splits option.splits)
  with Cons show ?case by (auto split: prod.splits option.splits)
qed simp

lemma relayUDP_waits:
  assumes "e_fail env (NetDial ''udp'' addr) w = None" and "\<forall>ev \<in> set evs. ev \<noteq> UWakeCtx \<and> ev \<noteq> UWakeErr"
  shows "fst (relayUDP env strm addr inp evs w c) = None"
proof -
  obtain w1 where a: "acquire env (NetDial ''udp'' addr) None w = (Inr (w_next w), w1)"
    using assms(1) by (simp add: acquire_def)
  let ?s = "udp_start inp w1 (c\<lparr>mt_RelayUDP := mt_RelayUDP c + 1\<rparr>)"
  obtain r s where "udp_run env strm (w_next w) evs ?s = (r, s)" by fastforce
  with a udp_run_waits [OF assms(2), of env strm "w_next w" ?s] show ?thesis by (simp add: relayUDP_def Let_def)
qed

lemma read_back:
  assumes "\<forall>d \<in> set ds. length d \<le> MaxDatagram"
  shows "read_n (\<lambda>r. ReadDatagram r udpBuf) (length (take j ds)) (concat (map frame (take j ds))) = (Inr (take j ds), [])"
proof -
  have le: "MaxDatagram \<le> udpBuf" by (simp add: MaxDatagram_def udpBuf_def)
  have "list_all (\<lambda>p. length p \<le> MaxDatagram \<and> length p \<le> udpBuf) (take j ds)"
    unfolding list_all_iff using assms le by (meson in_set_takeD order.trans)
  from dg.read_n_concat [OF this, of "[]"] show ?thesis by (simp only: append_Nil2)
qed

lemma relayTCP_unchanged:
  assumes "world_ok w" and "strm < w_next w" and "relayTCP env strm addr evs w c = (Some r, w', c')"
  shows "unchanged w w'"
proof (cases "acquire env (NetDial ''tcp'' addr) None w")
  case (Pair q w1)
  show ?thesis
  proof (cases q)
    case (Inl e)
    with Pair assms(3) have "w' = w1" by (simp add: relayTCP_def Let_def)
    with acquire_unchanged [OF assms(1)] Pair Inl show ?thesis by blast
  next
    case (Inr conn)
    note a = Pair [unfolded Inr]
    let ?s = "splice_start w1 (inc_active 1 (c\<lparr>mt_RelayTCP := mt_RelayTCP c + 1\<rparr>))"
    obtain res s where run: "splice_run env strm conn False evs ?s = (res, s)" by fastforce
    have u: "unchanged w1 (sp_w s) \<and> w_next (sp_w s) = w_next w1"
      using splice_run_unchanged [OF run] acquire_ok [OF a] acquire_world_ok [OF assms(1) a] assms(2)
      by (simp add: splice_start_def)
    have "w' = close_handle conn (sp_w s)"
      using assms(3) a run by (cases res) (simp_all add: relayTCP_def Let_def)
    with dialled(8) [OF assms(1) a] u show ?thesis by simp
  qed
qed

lemma relayUDP_unchanged:
  assumes "world_ok w" and "strm < w_next w" and "relayUDP env strm addr inp evs w c = (Some r, w', c')"
  shows "unchanged w w'"
proof (cases "acquire env (NetDial ''udp'' addr) None w")
  case (Pair q w1)
  show ?thesis
  proof (cases q)
    case (Inl e)
    with Pair assms(3) have "w' = w1" by (simp add: relayUDP_def Let_def)
    with acquire_unchanged [OF assms(1)] Pair Inl show ?thesis by blast
  next
    case (Inr conn)
    note a = Pair [unfolded Inr]
    let ?s = "udp_start inp w1 (c\<lparr>mt_RelayUDP := mt_RelayUDP c + 1\<rparr>)"
    obtain res s where run: "udp_run env strm conn evs ?s = (res, s)" by fastforce
    have u: "unchanged w1 (ur_w s) \<and> w_next (ur_w s) = w_next w1"
      using udp_run_unchanged [OF run] acquire_ok [OF a] acquire_world_ok [OF assms(1) a] assms(2)
      by (simp add: udp_start_def)
    have "w' = close_handle conn (ur_w s)"
      using assms(3) a run by (cases res) (simp_all add: relayUDP_def Let_def)
    with dialled(8) [OF assms(1) a] u show ?thesis by simp
  qed
qed

text \<open>A world to run the relays in.\<close>

definition relay_world :: world where
  "relay_world = \<lparr>w_clock = 0, w_next = 4, w_open = [(3, None)], w_log = [], w_kcp = [], w_flags = []\<rparr>"

section \<open>Properties\<close>

lemma relayTCP_contract:
  assumes "world_ok w" and "strm < w_next w" and "e_fail env (NetDial ''tcp'' addr) w = None"
  shows "case relayTCP env strm addr evs w c of (res, w', c') \<Rightarrow>
     \<exists>a b. a \<le> length (source_bytes (lefts evs)) \<and> b \<le> length (source_bytes (rights evs))
       \<and> written (w_next w) w' = take a (source_bytes (lefts evs))
       \<and> written strm w' = written strm w @ take b (source_bytes (rights evs))
       \<and> mt_BytesIn c' = mt_BytesIn c + of_nat a \<and> mt_BytesOut c' = mt_BytesOut c + of_nat b
       \<and> (res = Some None \<longrightarrow> a = length (source_bytes (lefts evs)) \<or> b = length (source_bytes (rights evs)))
       \<and> (res \<noteq> None \<longrightarrow> unchanged w w' \<and> mt_TCPActive c' = mt_TCPActive c)"
proof -
  let ?c1 = "inc_active 1 (c\<lparr>mt_RelayTCP := mt_RelayTCP c + 1\<rparr>)"
  obtain w1 where a1: "acquire env (NetDial ''tcp'' addr) None w = (Inr (w_next w), w1)"
    using assms(3) by (simp add: acquire_def)
  obtain res s where run: "splice_run env strm (w_next w) False evs (splice_start w1 ?c1) = (res, s)" by fastforce
  have n: "world_ok w1" "w_next w1 = Suc (w_next w)"
    using acquire_ok [OF a1] acquire_world_ok [OF assms(1) a1] by simp_all
  obtain a b where ab: "a \<le> length (source_bytes (lefts evs))" "b \<le> length (source_bytes (rights evs))"
    "written (w_next w) (sp_w s) = written (w_next w) w1 @ take a (source_bytes (lefts evs))"
    "written strm (sp_w s) = written strm w1 @ take b (source_bytes (rights evs))"
    "sp_c s = add_bytes False a (add_bytes True b ?c1)"
    "res = Some None \<longrightarrow> a = length (source_bytes (lefts evs)) \<or> b = length (source_bytes (rights evs))"
    "unchanged w1 (sp_w s)" "w_next (sp_w s) = w_next w1"
    using splice_contract [OF run] n assms(2) by auto
  note d = dialled [OF assms(1) a1 ab(7,8)]
  have rel: "relayTCP env strm addr evs w c =
      (case res of None \<Rightarrow> (None, sp_w s, sp_c s)
       | Some r \<Rightarrow> (Some r, close_handle (w_next w) (sp_w s), inc_active (-1) (sp_c s)))"
    using a1 run by (cases res) (simp_all add: relayTCP_def Let_def)
  have cl: "written h (close_handle (w_next w) (sp_w s)) = written h (sp_w s)" for h by (rule written_same_log) simp
  show ?thesis
  proof (cases res)
    case None
    show ?thesis unfolding rel None option.case prod.case
      by (intro exI [of _ a] exI [of _ b]) (use ab d in simp)
  next
    case (Some r)
    show ?thesis unfolding rel Some option.case prod.case cl
      by (intro exI [of _ a] exI [of _ b]) (use ab d Some in simp)
  qed
qed

text \<open>C25. The exit's TCP relay is faithful under every interleaving of its goroutines: what the target
  receives is a prefix of what the stream delivered and the other way round, with both byte
  counters exact modulo \<open>2^64\<close>; a relay that ends without an error has delivered one direction
  completely; and when it returns its socket is closed, nothing else was opened or closed, and the
  gauge of active connections is back to its value.\<close>

theorem relay_tcp_faithful:
  assumes "world_ok w" and "strm < w_next w" and "e_fail env (NetDial ''tcp'' addr) w = None"
  shows "case relayTCP env strm addr evs w c of (res, w', c') \<Rightarrow>
     \<exists>a b. a \<le> length (source_bytes (lefts evs)) \<and> b \<le> length (source_bytes (rights evs))
       \<and> written (w_next w) w' = take a (source_bytes (lefts evs))
       \<and> written strm w' = written strm w @ take b (source_bytes (rights evs))
       \<and> mt_BytesIn c' = mt_BytesIn c + of_nat a \<and> mt_BytesOut c' = mt_BytesOut c + of_nat b
       \<and> (res = Some None \<longrightarrow> a = length (source_bytes (lefts evs)) \<or> b = length (source_bytes (rights evs)))
       \<and> (res \<noteq> None \<longrightarrow> unchanged w w' \<and> mt_TCPActive c' = mt_TCPActive c)"
  using assms by (rule relayTCP_contract)

text \<open>C26. The exit's TCP relay ends: once the stream or the target reports its end (or an error) and
  the waiting goroutine is scheduled after that, the relay has returned, whatever else happens
  before, between and after.\<close>

theorem relay_tcp_ends:
  assumes "source_ends ev"
  shows "fst (relayTCP env strm addr (xs @ ev # ys @ WakeErr # zs) w c) \<noteq> None"
proof (cases "acquire env (NetDial ''tcp'' addr) None w")
  case (Pair r w1)
  show ?thesis
  proof (cases r)
    case (Inr conn)
    obtain res s where run: "splice_run env strm conn False (xs @ ev # ys @ WakeErr # zs)
        (splice_start w1 (inc_active 1 (c\<lparr>mt_RelayTCP := mt_RelayTCP c + 1\<rparr>))) = (res, s)" by fastforce
    have "res \<noteq> None" using splice_returns [OF assms splice_start_ok(2)] run by (metis fst_conv)
    with Pair Inr run show ?thesis by (auto simp: relayTCP_def Let_def)
  qed (use Pair in \<open>simp add: relayTCP_def Let_def\<close>)
qed

lemma relayUDP_contract:
  assumes "world_ok w" and "strm < w_next w" and "e_fail env (NetDial ''udp'' addr) w = None"
    and "write_all pipe_write [] ps = (None, inp)" and "\<forall>p \<in> set ps. length p \<le> MaxDatagram"
    and "\<forall>d \<in> set (downs evs). length d \<le> MaxDatagram"
  shows "case relayUDP env strm addr inp evs w c of (res, w', c') \<Rightarrow>
     \<exists>k j. packets (w_next w) w' = nonempty (take k ps)
       \<and> packets strm w' = packets strm w @ map frame (take j (downs evs))
       \<and> read_n (\<lambda>r. ReadDatagram r udpBuf) (length (take j (downs evs))) (concat (map frame (take j (downs evs))))
           = (Inr (take j (downs evs)), [])
       \<and> mt_BytesOut c' = mt_BytesOut c + of_nat (total (take k ps))
       \<and> mt_BytesIn c' = mt_BytesIn c + of_nat (total (take j (downs evs)))
       \<and> (delivers env \<and> res = None \<longrightarrow> k = min (ups evs) (length ps) \<and> j = length (downs evs))
       \<and> (res \<noteq> None \<longrightarrow> unchanged w w')"
proof -
  let ?c1 = "c\<lparr>mt_RelayUDP := mt_RelayUDP c + 1\<rparr>"
  have inp: "inp = concat (map frame ps)"
    using assms(4,5) write_all_pipe [of ps "[]"] by (simp add: list_all_iff)
  obtain w1 where a1: "acquire env (NetDial ''udp'' addr) None w = (Inr (w_next w), w1)"
    using assms(3) by (simp add: acquire_def)
  obtain res s where run: "udp_run env strm (w_next w) evs (udp_start inp w1 ?c1) = (res, s)" by fastforce
  have n: "world_ok w1" "w_next w1 = Suc (w_next w)"
    using acquire_ok [OF a1] acquire_world_ok [OF assms(1) a1] by simp_all
  have u: "unchanged w1 (ur_w s)" "w_next (ur_w s) = w_next w1"
    using udp_run_unchanged [OF run] n assms(2) by (simp_all add: udp_start_def)
  note d = dialled [OF assms(1) a1 u]
  obtain k j where kj: "relayed env strm (w_next w) ps evs (udp_start inp w1 ?c1) res s k j"
    using udp_run_relayed [OF run, of ps] assms(2,5) inp by (auto simp: udp_start_def)
  have rel: "relayUDP env strm addr inp evs w c =
      (case res of None \<Rightarrow> (None, ur_w s, ur_c s) | Some r \<Rightarrow> (Some r, close_handle (w_next w) (ur_w s), ur_c s))"
    using a1 run by (cases res) (simp_all add: relayUDP_def Let_def)
  note rd = read_back [OF assms(6), of j]
  have fresh: "packets (w_next w) w = []" by (rule fresh_packets [OF assms(1)]) simp
  have cl: "packets h (close_handle (w_next w) (ur_w s)) = packets h (ur_w s)" for h by (simp add: packets_def)
  have p: "packets (w_next w) (ur_w s) = nonempty (take k ps)" "packets strm (ur_w s) = packets strm w @ map frame (take j (downs evs))"
    "mt_BytesOut (ur_c s) = mt_BytesOut c + of_nat (total (take k ps))"
    "mt_BytesIn (ur_c s) = mt_BytesIn c + of_nat (total (take j (downs evs)))"
    "delivers env \<and> res = None \<longrightarrow> k = min (ups evs) (length ps) \<and> j = length (downs evs)"
    using kj assms(6) by (simp_all add: relayed_def udp_start_def d(7) fresh)
  show ?thesis
  proof (cases res)
    case None
    show ?thesis unfolding rel None option.case prod.case
      by (intro exI [of _ k] exI [of _ j] conjI) (use p rd None in simp_all)
  next
    case (Some r)
    show ?thesis unfolding rel Some option.case prod.case cl
      by (intro exI [of _ k] exI [of _ j] conjI) (use p rd d(8) in simp_all)
  qed
qed

text \<open>C27. UDP over a stream, end to end: when the client frames the datagrams \<open>ps\<close> into the stream, the
  target's socket gets a prefix of those that are not empty, each as one datagram with its
  boundaries; the stream gets the frames of a prefix of what the target sent, which the client
  reads back one by one; the byte counters are exact; and as long as no write fails and the relay
  runs, every round moves its datagram. When it returns its socket is closed and nothing else was
  opened or closed.\<close>

theorem relay_udp_end_to_end:
  assumes "world_ok w" and "strm < w_next w" and "e_fail env (NetDial ''udp'' addr) w = None"
    and "write_all pipe_write [] ps = (None, inp)" and "\<forall>p \<in> set ps. length p \<le> MaxDatagram"
    and "\<forall>d \<in> set (downs evs). length d \<le> MaxDatagram"
  shows "case relayUDP env strm addr inp evs w c of (res, w', c') \<Rightarrow>
     \<exists>k j. packets (w_next w) w' = nonempty (take k ps)
       \<and> packets strm w' = packets strm w @ map frame (take j (downs evs))
       \<and> read_n (\<lambda>r. ReadDatagram r udpBuf) (length (take j (downs evs))) (concat (map frame (take j (downs evs))))
           = (Inr (take j (downs evs)), [])
       \<and> mt_BytesOut c' = mt_BytesOut c + of_nat (total (take k ps))
       \<and> mt_BytesIn c' = mt_BytesIn c + of_nat (total (take j (downs evs)))
       \<and> (delivers env \<and> res = None \<longrightarrow> k = min (ups evs) (length ps) \<and> j = length (downs evs))
       \<and> (res \<noteq> None \<longrightarrow> unchanged w w')"
  using assms by (rule relayUDP_contract)

theorem relay_tcp_faithful_witness:
  "case relayTCP calm_env 3 ''a:1'' [ReadL [1, 2] None, ReadR [9] (Some io_EOF), WakeErr] relay_world zero_Collector of
     (res, w', c') \<Rightarrow> res = Some None \<and> written 4 w' = [1, 2] \<and> written 3 w' = [9]
       \<and> (\<exists>a b. written 4 w' = take a [1, 2] \<and> written 3 w' = take b [9] \<and> mt_BytesIn c' = of_nat a)"
proof -
  let ?r = "relayTCP calm_env 3 ''a:1'' [ReadL [1, 2] None, ReadR [9] (Some io_EOF), WakeErr] relay_world zero_Collector"
  have ok: "world_ok relay_world" "3 < w_next relay_world" "e_fail calm_env (NetDial ''tcp'' ''a:1'') relay_world = None"
    by (simp_all add: relay_world_def world_ok_def calm_env_def)
  have "fst ?r = Some None \<and> written 4 (fst (snd ?r)) = [1, 2] \<and> written 3 (fst (snd ?r)) = [9]" by code_simp
  with relay_tcp_faithful [OF ok, of "[ReadL [1, 2] None, ReadR [9] (Some io_EOF), WakeErr]" zero_Collector]
  show ?thesis by (auto simp: relay_world_def written_def zero_Collector_def split: prod.splits)
qed

theorem relay_tcp_ends_witness:
  "fst (relayTCP calm_env 3 ''a:1'' ([ReadL [1, 2] None] @ ReadR [9] (Some io_EOF) # [] @ WakeErr # [Cancel])
     relay_world zero_Collector) \<noteq> None"
  by (rule relay_tcp_ends) (simp add: source_ends_def)

theorem relay_udp_end_to_end_witness:
  "\<exists>inp. write_all pipe_write [] [[1, 2], [], [3]] = (None, inp)
     \<and> (case relayUDP calm_env 3 ''a:1'' inp [Up, Down (Inr [7]), Up, Up] relay_world zero_Collector of (res, w', c') \<Rightarrow>
          res = None \<and> packets 4 w' = [[1, 2], [3]] \<and> packets 3 w' = [frame [7]])"
proof -
  let ?inp = "concat (map frame [[1, 2], [], [3]])"
  let ?evs = "[Up, Down (Inr [7]), Up, Up]"
  let ?r = "relayUDP calm_env 3 ''a:1'' ?inp ?evs relay_world zero_Collector"
  have ok: "world_ok relay_world" "3 < w_next relay_world" "e_fail calm_env (NetDial ''udp'' ''a:1'') relay_world = None"
    by (simp_all add: relay_world_def world_ok_def calm_env_def)
  have inp: "write_all pipe_write [] [[1, 2], [], [3]] = (None, ?inp)"
    using write_all_pipe [of "[[1, 2], [], [3]]" "[]"] by (simp add: MaxDatagram_def)
  have dn: "downs ?evs = [[7]]" by (simp add: udpBuf_def)
  have bound: "\<forall>p \<in> set [[1, 2], [], [3 :: byte]]. length p \<le> MaxDatagram" "\<forall>d \<in> set (downs ?evs). length d \<le> MaxDatagram"
    unfolding dn by (simp_all add: MaxDatagram_def)
  have "fst ?r = None" by (rule relayUDP_waits [OF ok(3)]) simp
  then obtain w' c' where r: "?r = (None, w', c')" by (metis prod.collapse)
  have dl: "delivers calm_env" by (simp add: delivers_def calm_env_def)
  from relay_udp_end_to_end [OF ok inp bound, of zero_Collector, unfolded r prod.case dn] obtain k j where
    "packets 4 w' = nonempty (take k [[1, 2], [], [3]])" "packets 3 w' = packets 3 relay_world @ map frame (take j [[7]])"
    "k = min 3 3" "j = 1"
    using dl by (auto simp: relay_world_def)
  then have "packets 4 w' = [[1, 2], [3]]" "packets 3 w' = [frame [7]]"
    by (simp_all add: relay_world_def packets_def)
  with r inp show ?thesis by (intro exI [of _ ?inp]) simp
qed

end
