(* ===== verification/Opener.thy ===== *)
theory Opener
  imports Supervision Relay
begin

text \<open>
  The interface between the listeners of a client (port forwards, SOCKS5, the range redirect) and
  the tunnel: \<^verbatim>\<open>tunnelpool.Opener\<close>, \<^verbatim>\<open>tunnelpool.DatagramOpener\<close> and \<^verbatim>\<open>forward.RouteFn\<close>. Both openers
  of the upstream manager implement it; its laws are the locale \<open>tunnel_opener\<close>. The part the three
  TCP listeners have in common, to open a tunnel stream for a connection and to copy in both
  directions until one of them ends, is here as well.
\<close>

section \<open>Openers\<close>

definition op_OpenTCP :: "env \<Rightarrow> opener \<Rightarrow> Manager \<Rightarrow> string \<Rightarrow> world \<Rightarrow> handle res \<times> Manager \<times> world" where
  "op_OpenTCP env opn m target w =
     (case opn of DefaultOpener \<Rightarrow> mgr_OpenTCP env m target w | BoundOpener b \<Rightarrow> bound_OpenTCP env m b target w)"

definition op_OpenUDP ::
  "env \<Rightarrow> opener \<Rightarrow> Manager \<Rightarrow> string \<Rightarrow> string \<Rightarrow> world \<Rightarrow> (handle \<times> bool \<times> 64 word) res \<times> Manager \<times> world" where
  "op_OpenUDP env opn m l target w =
     (case opn of DefaultOpener \<Rightarrow> mgr_OpenUDP env m l target w | BoundOpener b \<Rightarrow> bound_OpenUDP env m b l target w)"

definition op_CloseUDP :: "opener \<Rightarrow> Manager \<Rightarrow> 64 word \<Rightarrow> world \<Rightarrow> error option \<times> Manager \<times> world" where
  "op_CloseUDP opn m key w =
     (case opn of DefaultOpener \<Rightarrow> mgr_CloseUDP m key w | BoundOpener b \<Rightarrow> (None, bound_CloseUDP m b key w))"

definition op_SupportsDatagrams :: "opener \<Rightarrow> Manager \<Rightarrow> world \<Rightarrow> bool \<times> Manager" where
  "op_SupportsDatagrams opn m w =
     (case opn of DefaultOpener \<Rightarrow> mgr_SupportsDatagrams m w | BoundOpener b \<Rightarrow> bound_SupportsDatagrams m b w)"

definition op_OpenUDPDatagram ::
  "env \<Rightarrow> opener \<Rightarrow> Manager \<Rightarrow> string \<Rightarrow> string \<Rightarrow> nat \<Rightarrow> world
     \<Rightarrow> ((Session \<times> 64 word) \<times> bool) res \<times> Manager \<times> world" where
  "op_OpenUDPDatagram env opn m key target d w =
     (case opn of DefaultOpener \<Rightarrow> mgr_OpenUDPDatagram env m key target d w
      | BoundOpener b \<Rightarrow> bound_OpenUDPDatagram env m b key target d w)"

text \<open>\<^verbatim>\<open>RouteFn\<close>: the opener for an optional binding, \<open>None\<close> for nil.\<close>

type_synonym RouteFn = "string \<Rightarrow> opener option"

fun is_panic :: "error \<Rightarrow> bool" where
  "is_panic (Panic _) = True"
| "is_panic _ = False"

section \<open>The contract of an opener\<close>

text \<open>
  \<open>opened\<close>: a stream that was not there before, owned by a session of the manager, on which exactly
  the given message was sent; nothing else was opened or closed.
\<close>

definition opened :: "env \<Rightarrow> Message \<Rightarrow> Manager \<Rightarrow> world \<Rightarrow> handle \<Rightarrow> world \<Rightarrow> bool" where
  "opened env msg m w h w' \<longleftrightarrow> written h w' = e_enc env msg \<and> grows w {h} w'
     \<and> (\<forall>x. x \<noteq> h \<longrightarrow> written x w' = written x w)
     \<and> (\<exists>sm \<in> mgr_cover m. w_open w' = (h, Some sm) # w_open w)"

locale tunnel_opener =
  fixes env :: env
    and otcp :: "Manager \<Rightarrow> string \<Rightarrow> world \<Rightarrow> handle res \<times> Manager \<times> world"
    and oudp :: "Manager \<Rightarrow> string \<Rightarrow> string \<Rightarrow> world \<Rightarrow> (handle \<times> bool \<times> 64 word) res \<times> Manager \<times> world"
    and cudp :: "Manager \<Rightarrow> 64 word \<Rightarrow> world \<Rightarrow> error option \<times> Manager \<times> world"
    and odgram :: "Manager \<Rightarrow> string \<Rightarrow> string \<Rightarrow> nat \<Rightarrow> world \<Rightarrow> ((Session \<times> 64 word) \<times> bool) res \<times> Manager \<times> world"
  assumes tcp_step: "otcp m t w = (r, m', w') \<Longrightarrow> step_ok m w m' w'"
    and tcp_opened: "world_ok w \<Longrightarrow> otcp m t w = (Inr h, m', w') \<Longrightarrow>
      \<exists>a. Parse t = Inr a \<and> opened env (addr_message TCP a) m w h w'"
    and tcp_failed: "world_ok w \<Longrightarrow> otcp m t w = (Inl e, m', w') \<Longrightarrow> unchanged w w'"
    and udp_step: "oudp m l t w = (q, m', w') \<Longrightarrow> step_ok m w m' w'"
    and udp_opened: "world_ok w \<Longrightarrow> oudp m l t w = (Inr (h, True, key), m', w') \<Longrightarrow>
      \<exists>a. Parse t = Inr a \<and> opened env (addr_message UDP a) m w h w'"
    and udp_reused: "oudp m l t w = (Inr (h, False, key), m', w') \<Longrightarrow> w' = w"
    and udp_key: "oudp m l t w = (Inr (h, isNew, key), m', w') \<Longrightarrow> key = addrPairKey l t"
    and close_step: "cudp m key w = (pe, m', w') \<Longrightarrow> step_ok m w m' w'"
    and dgram_step: "odgram m k t d w = (f, m', w') \<Longrightarrow> step_ok m w m' w'"

section \<open>The openers of the manager keep the contract\<close>

lemma pool_of_cover: "pool_cover (pool_of m n) \<subseteq> mgr_cover m"
  using pool_in_cover [of "m_entries m" n]
  by (auto simp: pool_of_def mgr_cover_def pool_cover_def empty_pool_def split: option.splits)

lemma poolFor_cover: "poolFor m b = (r, m1) \<Longrightarrow> mgr_cover m1 = mgr_cover m"
  by (drule poolFor_frame) (simp add: mgr_cover_def)

lemma open_with_write:
  assumes "open_with env p msg w = (Inr h, p', w')"
  obtains p1 w1 where "openStream env p w = (Inr h, p1, w1)" and "stream_write env h w1 (e_enc env msg) = (None, w')"
proof (cases "openStream env p w")
  case (fields r p1 w1)
  then obtain h1 where r: "r = Inr h1" using assms by (cases r) (simp_all add: open_with_def)
  obtain q w2 where wr: "stream_write env h1 w1 (e_enc env msg) = (q, w2)" by fastforce
  have "q = None \<and> h1 = h \<and> w2 = w'" using assms fields r wr by (cases q) (simp_all add: open_with_def msg_Write_def)
  with that fields r wr show ?thesis by blast
qed

lemma open_with_log:
  assumes w: "world_ok w" and "open_with env p msg w = (Inr h, p', w')" and "x \<noteq> h"
  shows "written x w' = written x w"
proof -
  obtain p1 w1 where os: "openStream env p w = (Inr h, p1, w1)" and wr: "stream_write env h w1 (e_enc env msg) = (None, w')"
    by (rule open_with_write [OF assms(2)])
  have "w_log w1 = w_log w" using openStream_spec [OF w os] unfolding sum.case by blast
  moreover have "written x w' = written x w1" using stream_write_frame [OF wr] \<open>x \<noteq> h\<close> unfolding frame_ok_def by blast
  ultimately show ?thesis using written_same_log [of w1 w x] by simp
qed

lemma open_with_opened:
  assumes "world_ok w" and "poolFor m b = (Some n, m1)" and "open_with env (pool_of m1 n) msg w = (Inr h, p, w')"
  shows "opened env msg m w h w'"
proof -
  from open_with_spec [OF assms(1,3)] obtain s where s: "written h w' = e_enc env msg" "grows w {h} w'"
    "s \<in> set (p_sessions (pool_of m1 n))" "smux_alive s w" "w_open w' = (h, ss_Smux s) # w_open w" by auto
  from s(4) obtain sm where sm: "ss_Smux s = Some sm" by (auto simp: smux_alive_def split: option.splits)
  have "sm \<in> mgr_cover m" using smux_in_cover [OF s(3) sm] pool_of_cover [of m1 n] poolFor_cover [OF assms(2)] by auto
  with s sm open_with_log [OF assms(1,3)] show ?thesis by (auto simp: opened_def)
qed

text \<open>Every opener works on the pool \<^verbatim>\<open>poolFor\<close> picks, or fails.\<close>

lemma op_OpenTCP_pool:
  assumes "op_OpenTCP env opn m t w = (r, m', w')"
  obtains (none) b m1 where "poolFor m b = (None, m1)" "is_err r" "m' = m1" "w' = w"
    | (some) b n m1 p where "poolFor m b = (Some n, m1)" "OpenTCP env (pool_of m1 n) t w = (r, p, w')" "m' = set_pool n p m1"
  using assms
  by (auto simp: op_OpenTCP_def mgr_OpenTCP_def bound_OpenTCP_def split: opener.splits prod.splits option.splits sum.splits)

lemma op_OpenUDP_pool:
  assumes "op_OpenUDP env opn m l t w = (r, m', w')"
  obtains (none) b m1 where "poolFor m b = (None, m1)" "is_err r" "m' = m1" "w' = w"
    | (some) b n m1 p where "poolFor m b = (Some n, m1)" "OpenUDP env (pool_of m1 n) l t w = (r, p, w')" "m' = set_pool n p m1"
  using assms
  by (auto simp: op_OpenUDP_def mgr_OpenUDP_def bound_OpenUDP_def split: opener.splits prod.splits option.splits)

lemma op_steps:
  "op_OpenTCP env opn m t w = (r, m', w') \<Longrightarrow> step_ok m w m' w'"
  "op_OpenUDP env opn m l t w = (q, m', w') \<Longrightarrow> step_ok m w m' w'"
  "op_CloseUDP opn m key w = (pe, m', w') \<Longrightarrow> step_ok m w m' w'"
  "op_SupportsDatagrams opn m w = (b, m') \<Longrightarrow> step_ok m w m' w"
  "op_OpenUDPDatagram env opn m k t d w = (f, m', w') \<Longrightarrow> step_ok m w m' w'"
  using serve_step [of env opn "ReqTCP t" m w m' w'] serve_step [of env opn "ReqUDP l t" m w m' w']
    serve_step [of env opn "ReqCloseUDP key" m w m' w'] serve_step [of env opn ReqSupportsDatagrams m w m' w]
    serve_step [of env opn "ReqDatagram k t d" m w m' w']
  by (cases opn; simp add: op_OpenTCP_def op_OpenUDP_def op_CloseUDP_def op_SupportsDatagrams_def op_OpenUDPDatagram_def)+

interpretation tun: tunnel_opener env "op_OpenTCP env opn" "op_OpenUDP env opn" "op_CloseUDP opn" "op_OpenUDPDatagram env opn"
  for env opn
proof unfold_locales
  fix m t w h m' w'
  assume w: "world_ok w" and o: "op_OpenTCP env opn m t w = (Inr h, m', w')"
  from o show "\<exists>a. Parse t = Inr a \<and> opened env (addr_message TCP a) m w h w'"
  proof (cases rule: op_OpenTCP_pool)
    case (some b n m1 p)
    then show ?thesis using open_with_opened [OF w some(1)] by (auto simp: OpenTCP_open_with split: sum.splits)
  qed simp
next
  fix m t w e m' w'
  assume w: "world_ok w" and o: "op_OpenTCP env opn m t w = (Inl e, m', w')"
  from o show "unchanged w w'"
  proof (cases rule: op_OpenTCP_pool)
    case (some b n m1 p)
    then show ?thesis using open_with_spec [OF w] w
      by (cases "Parse t") (fastforce simp: OpenTCP_open_with unchanged_def)+
  qed (use w in \<open>simp add: unchanged_def\<close>)
next
  fix m l t w h key m' w'
  assume w: "world_ok w" and o: "op_OpenUDP env opn m l t w = (Inr (h, True, key), m', w')"
  from o show "\<exists>a. Parse t = Inr a \<and> opened env (addr_message UDP a) m w h w'"
  proof (cases rule: op_OpenUDP_pool)
    case (some b n m1 p)
    then show ?thesis using open_with_opened [OF w some(1)]
      by (fastforce simp: OpenUDP_open_with split: sum.splits option.splits prod.splits)
  qed simp
next
  fix m l t w h key m' w'
  assume o: "op_OpenUDP env opn m l t w = (Inr (h, False, key), m', w')"
  from o show "w' = w"
    by (cases rule: op_OpenUDP_pool) (auto simp: OpenUDP_open_with split: sum.splits option.splits prod.splits)
next
  fix m l t w h isNew key m' w'
  assume o: "op_OpenUDP env opn m l t w = (Inr (h, isNew, key), m', w')"
  from o show "key = addrPairKey l t"
    by (cases rule: op_OpenUDP_pool) (auto simp: OpenUDP_open_with split: sum.splits option.splits prod.splits)
qed (rule op_steps, assumption)+

section \<open>Carrying a TCP connection\<close>

text \<open>
  What the TCP handlers have in common: open the stream (\<open>open_stream\<close>), copy both ways until the
  first direction ends or the context does, close the stream. \<open>before\<close> and \<open>after\<close> are what the
  handler does to the counters around the copying. A panic of the opener unwinds the handler
  without counting an error.
\<close>

datatype tcp_end = StillOpen | NoOpener | NotOpened error | Ended "error option"

definition open_stream ::
  "(Manager \<Rightarrow> string \<Rightarrow> world \<Rightarrow> handle res \<times> Manager \<times> world) \<Rightarrow> string \<Rightarrow> Manager \<Rightarrow> world \<Rightarrow> Collector
     \<Rightarrow> handle res \<times> Manager \<times> world \<times> Collector" where
  "open_stream otcp target m w c =
     (case otcp m target w of
        (Inl e, m1, w1) \<Rightarrow> (Inl e, m1, w1, if is_panic e then c else IncError c)
      | (Inr strm, m1, w1) \<Rightarrow> (Inr strm, m1, w1, c))"

definition carry ::
  "env \<Rightarrow> (Manager \<Rightarrow> string \<Rightarrow> world \<Rightarrow> handle res \<times> Manager \<times> world) \<Rightarrow> (Collector \<Rightarrow> Collector) \<Rightarrow> (Collector \<Rightarrow> Collector)
     \<Rightarrow> handle \<Rightarrow> string \<Rightarrow> splice_event list \<Rightarrow> Manager \<Rightarrow> world \<Rightarrow> Collector
     \<Rightarrow> tcp_end \<times> Manager \<times> world \<times> Collector" where
  "carry env otcp before after conn target evs m w c =
     (case open_stream otcp target m w c of
        (Inl e, m1, w1, c1) \<Rightarrow> (NotOpened e, m1, w1, c1)
      | (Inr strm, m1, w1, c1) \<Rightarrow>
          (case splice_run env conn strm True evs (splice_start w1 (before c1)) of
             (None, s) \<Rightarrow> (StillOpen, m1, sp_w s, sp_c s)
           | (Some r, s) \<Rightarrow> (Ended r, m1, close_handle strm (sp_w s), after (sp_c s))))"

text \<open>
  What a carried connection is: a new stream that starts with the request for the target, followed
  by a prefix of what the connection sent; the connection got a prefix of what the stream
  delivered; both are counted exactly; a copy that ended by itself is complete; and when the
  handler is done the stream is closed and everything else is as it was.
\<close>

definition carried ::
  "env \<Rightarrow> (Collector \<Rightarrow> Collector) \<Rightarrow> (Collector \<Rightarrow> Collector) \<Rightarrow> handle \<Rightarrow> string \<Rightarrow> splice_event list
     \<Rightarrow> world \<Rightarrow> Collector \<Rightarrow> tcp_end \<Rightarrow> world \<Rightarrow> Collector \<Rightarrow> bool" where
  "carried env before after conn target evs w c res w' c' \<longleftrightarrow> (\<exists>addr strm a b.
     Parse target = Inr addr \<and> \<not> is_open strm w \<and> strm \<noteq> conn
     \<and> a \<le> length (source_bytes (lefts evs)) \<and> b \<le> length (source_bytes (rights evs))
     \<and> written strm w' = e_enc env (addr_message TCP addr) @ take a (source_bytes (lefts evs))
     \<and> written conn w' = written conn w @ take b (source_bytes (rights evs))
     \<and> (let c2 = add_bytes True a (add_bytes False b (before c)) in c' = (if res = StillOpen then c2 else after c2))
     \<and> (res = Ended None \<longrightarrow> a = length (source_bytes (lefts evs)) \<or> b = length (source_bytes (rights evs)))
     \<and> (if res = StillOpen then is_open strm w' else unchanged w w'))"

context tunnel_opener
begin

lemma open_stream_opened:
  assumes "world_ok w" and "open_stream otcp target m w c = (Inr strm, m', w', c')"
  shows "\<exists>a. Parse target = Inr a \<and> opened env (addr_message TCP a) m w strm w'" and "c' = c"
  using assms tcp_opened [OF assms(1)] by (auto simp: open_stream_def split: prod.splits sum.splits)

lemma open_stream_step: "open_stream otcp target m w c = (r, m', w', c') \<Longrightarrow> step_ok m w m' w'"
  by (auto simp: open_stream_def split: prod.splits sum.splits dest: tcp_step)

lemma open_stream_failed:
  "world_ok w \<Longrightarrow> open_stream otcp target m w c = (Inl e, m', w', c') \<Longrightarrow> unchanged w w'"
  by (auto simp: open_stream_def split: prod.splits sum.splits intro: tcp_failed)

lemma opened_props:
  assumes "world_ok w" and "opened env msg m w h w'"
  shows "w_next w \<le> h" and "h < w_next w'" and "\<not> is_open h w" and "world_ok w'"
proof -
  have g: "grows w {h} w'" using assms(2) by (simp add: opened_def)
  then show "w_next w \<le> h" "h < w_next w'" "world_ok w'" by (auto simp: grows_def)
  then show "\<not> is_open h w" using is_open_fresh [OF assms(1), of h] by auto
qed

lemma opened_closed:
  assumes "world_ok w" and "opened env msg m w h w'" and "unchanged w' w2"
  shows "unchanged w (close_handle h w2)"
proof -
  have g: "grows w {h} w2" using assms(2,3) grows_unchanged by (auto simp: opened_def)
  show ?thesis by (rule grows_close_unchanged [OF assms(1) g]) (simp_all add: close_handle_open grows_ok [OF g])
qed

lemma carry_carried:
  assumes w: "world_ok w" and cn: "conn < w_next w"
    and r: "carry env otcp before after conn target evs m w c = (res, m', w', c')" and ne: "\<forall>e. res \<noteq> NotOpened e"
  shows "carried env before after conn target evs w c res w' c'"
proof -
  obtain strm m1 w1 c1 where o: "open_stream otcp target m w c = (Inr strm, m1, w1, c1)"
    using r ne by (auto simp: carry_def split: prod.splits sum.splits)
  from open_stream_opened [OF w o] obtain addr where
    ad: "Parse target = Inr addr" "opened env (addr_message TCP addr) m w strm w1" and c1: "c1 = c" by auto
  note op = opened_props [OF w ad(2)]
  obtain q s where run: "splice_run env conn strm True evs (splice_start w1 (before c)) = (q, s)" by fastforce
  have lt: "conn < w_next w1" "conn \<noteq> strm" using cn op(1,2) by auto
  obtain a b where ab: "a \<le> length (source_bytes (lefts evs))" "b \<le> length (source_bytes (rights evs))"
    "written strm (sp_w s) = written strm w1 @ take a (source_bytes (lefts evs))"
    "written conn (sp_w s) = written conn w1 @ take b (source_bytes (rights evs))"
    "sp_c s = add_bytes True a (add_bytes False b (before c))"
    "q = Some None \<longrightarrow> a = length (source_bytes (lefts evs)) \<or> b = length (source_bytes (rights evs))"
    "unchanged w1 (sp_w s)"
    by (rule splice_contract [OF run lt(2) op(4) lt(1) op(2)]) (simp only: simp_thms)
  have "written strm w1 = e_enc env (addr_message TCP addr)" "written conn w1 = written conn w" "is_open strm w1"
    using ad(2) lt(2) by (auto simp: opened_def is_open_def)
  moreover have "unchanged w (close_handle strm (sp_w s))" by (rule opened_closed [OF w ad(2) ab(7)])
  moreover have "case q of None \<Rightarrow> res = StillOpen \<and> w' = sp_w s \<and> c' = sp_c s
      | Some r \<Rightarrow> res = Ended r \<and> w' = close_handle strm (sp_w s) \<and> c' = after (sp_c s)"
    using r o c1 run by (auto simp: carry_def split: option.splits)
  ultimately show ?thesis
    using ad(1) op(3) lt(2) ab unchanged_is_open [OF ab(7), of strm] written_same_log [of "close_handle strm (sp_w s)" "sp_w s"]
    unfolding carried_def Let_def
    by (intro exI [of _ addr] exI [of _ strm] exI [of _ a] exI [of _ b]) (cases q; simp)
qed

lemma carry_returns:
  assumes "source_ends ev"
  shows "fst (carry env otcp before after conn target (xs @ ev # ys @ WakeErr # zs) m w c) \<noteq> StillOpen"
proof (cases "open_stream otcp target m w c")
  case (fields r m1 w1 c1)
  show ?thesis
  proof (cases r)
    case (Inr strm)
    obtain q s where run: "splice_run env conn strm True (xs @ ev # ys @ WakeErr # zs) (splice_start w1 (before c1)) = (q, s)"
      by fastforce
    have "q \<noteq> None" using splice_returns [OF assms splice_start_ok(2)] run by (metis fst_conv)
    with fields Inr run show ?thesis by (auto simp: carry_def)
  qed (use fields in \<open>simp add: carry_def\<close>)
qed

end

section \<open>Carrying UDP packets\<close>

text \<open>
  What the UDP listeners have in common: one packet sent over the stream of its flow, which is opened
  when there is none and given up when the write fails; or as a QUIC datagram. An opener that
  failed has returned the key 0. The second component is the panic of a call, if any.
\<close>

datatype udp_sent = UdpNotOpened error | UdpNotWritten error | UdpSent handle bool "64 word"

definition send_stream ::
  "env \<Rightarrow> opener \<Rightarrow> string \<Rightarrow> string \<Rightarrow> byte list \<Rightarrow> Manager \<Rightarrow> world \<Rightarrow> udp_sent \<times> error option \<times> Manager \<times> world" where
  "send_stream env opn l target p m w =
     (case op_OpenUDP env opn m l target w of
        (Inl e, m1, w1) \<Rightarrow>
          if is_panic e then (UdpNotOpened e, Some e, m1, w1)
          else (UdpNotOpened e, op_CloseUDP opn m1 0 w1)
      | (Inr (strm, isNew, key), m1, w1) \<Rightarrow>
          (case WriteDatagram (stream_write env strm) w1 p of
             (Some e, w2) \<Rightarrow> (UdpNotWritten e, op_CloseUDP opn m1 key w2)
           | (None, w2) \<Rightarrow> (UdpSent strm isNew key, None, m1, w2)))"

datatype dgram_sent = DgNotOpened error | DgNotSent error | DgSent

definition send_dgram ::
  "env \<Rightarrow> opener \<Rightarrow> string \<Rightarrow> string \<Rightarrow> nat \<Rightarrow> byte list \<Rightarrow> Manager \<Rightarrow> world \<Rightarrow> dgram_sent \<times> Manager \<times> world" where
  "send_dgram env opn l target d p m w =
     (case op_OpenUDPDatagram env opn m (l @ ''|'' @ target) target d w of
        (Inl e, m1, w1) \<Rightarrow> (DgNotOpened e, m1, w1)
      | (Inr (fl, _), m1, w1) \<Rightarrow>
          (case flow_send env fl p w1 of
             (Some e, w2) \<Rightarrow> (DgNotSent e, m1, w2)
           | (None, w2) \<Rightarrow> (DgSent, m1, w2)))"

end
