(* ===== verification/Forward.thy ===== *)
theory Forward
  imports Opener
begin

text \<open>
  \<^verbatim>\<open>internal/forward\<close>: the port forwards of a client. A rule listens for TCP connections or UDP packets
  and carries them through the tunnel to its target. The goroutines of a connection or a flow are
  functions of the events they see; \<open>Frontend\<close> interleaves them. \<open>out\<close> is what was sent to UDP
  clients: socket, address and payload, oldest first.
\<close>

section \<open>Rules\<close>

record Rule =
  ru_Listen :: string
  ru_Target :: string
  ru_Proto :: string
  ru_BindUpstream :: string

datatype service = ServeTCP Rule | ServeUDP Rule

text \<open>\<^verbatim>\<open>Start\<close>: the goroutines it starts, in order, and its error.\<close>

fun fwd_Start :: "Rule list \<Rightarrow> service list \<times> error option" where
  "fwd_Start [] = ([], None)"
| "fwd_Start (r # rs) =
     (if ru_Proto r = ''tcp'' \<or> ru_Proto r = [] then (case fwd_Start rs of (ss, e) \<Rightarrow> (ServeTCP r # ss, e))
      else if ru_Proto r = ''udp'' then (case fwd_Start rs of (ss, e) \<Rightarrow> (ServeUDP r # ss, e))
      else ([], Some (Errorf ''unsupported forward protocol %q'' [ru_Proto r])))"

definition fwd_opener :: "RouteFn option \<Rightarrow> string \<Rightarrow> opener option" where
  "fwd_opener route bind = (case route of None \<Rightarrow> None | Some f \<Rightarrow> f bind)"

section \<open>TCP\<close>

definition fwd_handleTCP ::
  "env \<Rightarrow> RouteFn option \<Rightarrow> handle \<Rightarrow> Rule \<Rightarrow> splice_event list \<Rightarrow> Manager \<Rightarrow> world \<Rightarrow> Collector
     \<Rightarrow> tcp_end \<times> Manager \<times> world \<times> Collector" where
  "fwd_handleTCP env route conn rule evs m w c =
     (case fwd_opener route (ru_BindUpstream rule) of
        None \<Rightarrow> (NoOpener, m, w, c)
      | Some opn \<Rightarrow> carry env (op_OpenTCP env opn) id id conn (ru_Target rule) evs m w c)"

definition tcp_accepted :: "Collector \<Rightarrow> Collector" where
  "tcp_accepted c = inc_active 1 (c\<lparr>mt_TCPAccepted := mt_TCPAccepted c + 1\<rparr>)"

text \<open>The goroutine of an accepted connection.\<close>

definition fwd_conn ::
  "env \<Rightarrow> RouteFn option \<Rightarrow> handle \<Rightarrow> Rule \<Rightarrow> splice_event list \<Rightarrow> Manager \<Rightarrow> world \<Rightarrow> Collector
     \<Rightarrow> tcp_end \<times> Manager \<times> world \<times> Collector" where
  "fwd_conn env route conn rule evs m w c =
     (case fwd_handleTCP env route conn rule evs m w (tcp_accepted c) of
        (r, m1, w1, c1) \<Rightarrow>
          if r = StillOpen then (r, m1, w1, c1) else (r, m1, close_handle conn w1, inc_active (-1) c1))"

section \<open>UDP\<close>

text \<open>The socket \<^verbatim>\<open>serveUDP\<close> reads from; \<open>resolve_udp\<close> is \<^verbatim>\<open>net.ResolveUDPAddr\<close>, which may ask a name server.\<close>

definition fwd_listenUDP :: "(string \<Rightarrow> udp_addr res) \<Rightarrow> env \<Rightarrow> Rule \<Rightarrow> world \<Rightarrow> handle res \<times> world" where
  "fwd_listenUDP resolve_udp env rule w =
     (case resolve_udp (ru_Listen rule) of
        Inl e \<Rightarrow> (Inl e, w)
      | Inr laddr \<Rightarrow> acquire env (NetListen ''udp'' (udp_addr_string laddr)) None w)"

text \<open>
  One packet of the loop of \<^verbatim>\<open>serveUDP\<close>, read from \<open>client\<close>; \<open>d\<close> is the closure that delivers the
  answers of a datagram flow. The result is the panic, or the stream and key of a new flow whose
  pump is started.
\<close>

definition fwd_packet ::
  "env \<Rightarrow> RouteFn option \<Rightarrow> Rule \<Rightarrow> udp_addr \<Rightarrow> nat \<Rightarrow> byte list \<Rightarrow> Manager \<Rightarrow> world \<Rightarrow> Collector
     \<Rightarrow> (handle \<times> 64 word) option res \<times> Manager \<times> world \<times> Collector" where
  "fwd_packet env route rule client d p m w c =
     (if p = [] then (Inr None, m, w, c)
      else
        let c1 = c\<lparr>mt_UDPPackets := mt_UDPPackets c + 1\<rparr>; l = udp_addr_string client; target = ru_Target rule
        in case fwd_opener route (ru_BindUpstream rule) of
             None \<Rightarrow> (Inr None, m, w, c1)
           | Some opn \<Rightarrow>
               (case op_SupportsDatagrams opn m w of
                  (True, m1) \<Rightarrow>
                    (case send_dgram env opn l target d p m1 w of
                       (DgNotOpened e, m2, w2) \<Rightarrow> (if is_panic e then Inl e else Inr None, m2, w2, c1)
                     | (DgNotSent e, m2, w2) \<Rightarrow> (Inr None, m2, w2, c1\<lparr>mt_UDPDgramDropped := mt_UDPDgramDropped c1 + 1\<rparr>)
                     | (DgSent, m2, w2) \<Rightarrow>
                         (Inr None, m2, w2, add_bytes True (length p) (c1\<lparr>mt_UDPDgramOut := mt_UDPDgramOut c1 + 1\<rparr>)))
                | (False, m1) \<Rightarrow>
                    (case send_stream env opn l target p m1 w of
                       (_, Some e, m2, w2) \<Rightarrow> (Inl e, m2, w2, c1)
                     | (UdpNotOpened e, None, m2, w2) \<Rightarrow> (Inr None, m2, w2, c1)
                     | (UdpNotWritten e, None, m2, w2) \<Rightarrow> (Inr None, m2, w2, IncError c1)
                     | (UdpSent strm isNew key, None, m2, w2) \<Rightarrow>
                         (Inr (if isNew then Some (strm, key) else None), m2, w2, add_bytes True (length p) c1))))"

text \<open>The closure that delivers the answers of a datagram flow; they are not counted.\<close>

definition fwd_deliver ::
  "env \<Rightarrow> handle \<Rightarrow> udp_addr \<Rightarrow> byte list \<Rightarrow> world \<Rightarrow> (handle \<times> udp_addr \<times> byte list) list
     \<Rightarrow> world \<times> (handle \<times> udp_addr \<times> byte list) list" where
  "fwd_deliver env sock client p w out =
     (case attempt env (SockWriteTo sock client) w of
        (Some e, w1) \<Rightarrow> (w1, out)
      | (None, w1) \<Rightarrow> (w1, out @ [(sock, client, p)]))"

text \<open>One round of \<^verbatim>\<open>pumpUDP\<close> on what the stream still delivers: \<open>True\<close> when the loop goes on.\<close>

definition fwd_pump_round ::
  "env \<Rightarrow> handle \<Rightarrow> udp_addr \<Rightarrow> byte list \<Rightarrow> world \<Rightarrow> Collector \<Rightarrow> (handle \<times> udp_addr \<times> byte list) list
     \<Rightarrow> bool \<times> byte list \<times> world \<times> Collector \<times> (handle \<times> udp_addr \<times> byte list) list" where
  "fwd_pump_round env sock client inp w c out =
     (case ReadDatagram inp udpBuf of
        (Inl e, rest) \<Rightarrow> (False, rest, w, c, out)
      | (Inr p, rest) \<Rightarrow>
          (case attempt env (SockWriteTo sock client) w of
             (Some e, w1) \<Rightarrow> (False, rest, w1, add_bytes False (length p) c, out)
           | (None, w1) \<Rightarrow> (True, rest, w1, add_bytes False (length p) c, out @ [(sock, client, p)])))"

text \<open>
  The whole pump, until the context ends after \<open>k\<close> rounds. The opener its deferred call uses is
  chosen when the pump starts.
\<close>

fun pump_rounds ::
  "env \<Rightarrow> handle \<Rightarrow> udp_addr \<Rightarrow> nat \<Rightarrow> byte list \<Rightarrow> world \<Rightarrow> Collector \<Rightarrow> (handle \<times> udp_addr \<times> byte list) list
     \<Rightarrow> world \<times> Collector \<times> (handle \<times> udp_addr \<times> byte list) list" where
  "pump_rounds env sock client 0 inp w c out = (w, c, out)"
| "pump_rounds env sock client (Suc k) inp w c out =
     (case fwd_pump_round env sock client inp w c out of
        (False, _, w1, c1, out1) \<Rightarrow> (w1, c1, out1)
      | (True, rest, w1, c1, out1) \<Rightarrow> pump_rounds env sock client k rest w1 c1 out1)"

definition fwd_pumpUDP ::
  "env \<Rightarrow> RouteFn option \<Rightarrow> string \<Rightarrow> handle \<Rightarrow> udp_addr \<Rightarrow> 64 word \<Rightarrow> nat \<Rightarrow> byte list \<Rightarrow> Manager \<Rightarrow> world
     \<Rightarrow> Collector \<Rightarrow> (handle \<times> udp_addr \<times> byte list) list
     \<Rightarrow> error option \<times> Manager \<times> world \<times> Collector \<times> (handle \<times> udp_addr \<times> byte list) list" where
  "fwd_pumpUDP env route bind sock client key k inp m w c out =
     (case fwd_opener route bind of
        None \<Rightarrow> (Some nil_deref, m, w, c, out)
      | Some opn \<Rightarrow>
          (case pump_rounds env sock client k inp w c out of
             (w1, c1, out1) \<Rightarrow>
               (case op_CloseUDP opn m key w1 of (e, m1, w2) \<Rightarrow> (e, m1, w2, c1, out1))))"

section \<open>A forwarded connection\<close>

lemma fwd_handleTCP_carried:
  assumes "world_ok w" and "conn < w_next w" and "fwd_handleTCP env route conn rule evs m w c = (res, m', w', c')"
    and "res = StillOpen \<or> res = Ended r"
  shows "carried env id id conn (ru_Target rule) evs w c res w' c'"
proof -
  obtain opn where "carry env (op_OpenTCP env opn) id id conn (ru_Target rule) evs m w c = (res, m', w', c')"
    using assms(3,4) by (auto simp: fwd_handleTCP_def split: option.splits)
  from tun.carry_carried [OF assms(1,2) this] assms(4) show ?thesis by auto
qed

lemma carry_failed:
  assumes "world_ok w" and "carry env (op_OpenTCP env opn) before after conn target evs m w c = (NotOpened e, m', w', c')"
  shows "unchanged w w' \<and> c' = (if is_panic e then c else IncError c)"
proof -
  obtain r m1 w1 c1 where o: "open_stream (op_OpenTCP env opn) target m w c = (r, m1, w1, c1)" by (metis prod.exhaust)
  with assms(2) have r: "r = Inl e" "w' = w1" "c' = c1" by (auto simp: carry_def split: sum.splits prod.splits option.splits)
  with tun.open_stream_failed [OF assms(1) o [unfolded r(1)]] o show ?thesis
    by (auto simp: open_stream_def split: prod.splits sum.splits)
qed

section \<open>What a pump delivers\<close>

text \<open>The datagrams a stream delivers, \<open>k\<close> at most.\<close>

fun read_dgrams :: "nat \<Rightarrow> byte list \<Rightarrow> byte list list" where
  "read_dgrams 0 inp = []"
| "read_dgrams (Suc k) inp =
     (case ReadDatagram inp udpBuf of (Inl e, rest) \<Rightarrow> [] | (Inr p, rest) \<Rightarrow> p # read_dgrams k rest)"

lemma read_dgrams_frames:
  "\<forall>p \<in> set ps. length p \<le> MaxDatagram \<Longrightarrow> read_dgrams k (concat (map frame ps)) = take k ps"
proof (induction k arbitrary: ps)
  case (Suc k)
  show ?case
  proof (cases ps)
    case Nil
    then show ?thesis by (simp add: ReadDatagram_nil)
  next
    case (Cons p qs)
    with Suc show ?thesis by (simp add: ReadDatagram_udpBuf)
  qed
qed simp

lemma pump_rounds_spec:
  "\<exists>j. snd (snd (pump_rounds env sock client k inp w c out)) = out @ map (\<lambda>p. (sock, client, p)) (take j (read_dgrams k inp))
     \<and> ((\<forall>w. e_fail env (SockWriteTo sock client) w = None) \<longrightarrow> j \<ge> length (read_dgrams k inp))"
proof (induction k arbitrary: inp w c out)
  case (Suc k)
  obtain r rest where rd: "ReadDatagram inp udpBuf = (r, rest)" by fastforce
  show ?case
  proof (cases r)
    case (Inl e)
    with rd show ?thesis by (simp add: fwd_pump_round_def)
  next
    case (Inr p)
    show ?thesis
    proof (cases "e_fail env (SockWriteTo sock client) w")
      case (Some e)
      with rd Inr show ?thesis by (intro exI [of _ 0]) (auto simp: fwd_pump_round_def attempt_def)
    next
      case None
      obtain j where j: "snd (snd (pump_rounds env sock client k rest (tick w) (add_bytes False (length p) c) (out @ [(sock, client, p)])))
          = (out @ [(sock, client, p)]) @ map (\<lambda>p. (sock, client, p)) (take j (read_dgrams k rest))"
        "(\<forall>w. e_fail env (SockWriteTo sock client) w = None) \<longrightarrow> j \<ge> length (read_dgrams k rest)"
        using Suc.IH by blast
      with rd Inr None show ?thesis by (intro exI [of _ "Suc j"]) (simp add: fwd_pump_round_def attempt_def)
    qed
  qed
qed simp

section \<open>A flow through a bound rule\<close>

text \<open>
  \<open>steady m b p\<close>: server \<open>b\<close> is healthy and has the pool \<open>p\<close>, so that a rule bound to it always
  goes through this pool.
\<close>

definition steady :: "Manager \<Rightarrow> string \<Rightarrow> Pool \<Rightarrow> bool" where
  "steady m b p \<longleftrightarrow> b \<noteq> [] \<and> (\<exists>e. map_of (m_entries m) b = Some e \<and> en_healthy e \<and> en_pool e = p)"

lemma steady_poolFor: "steady m b p \<Longrightarrow> poolFor m b = (Some b, m) \<and> pool_of m b = p"
  by (auto simp: steady_def poolFor_def entryHealthyLocked_def)

lemma steady_set_pool: "steady m b p \<Longrightarrow> steady (set_pool b q m) b q"
  by (auto simp: steady_def set_pool_def map_of_map_entry)

lemma steady_OpenUDP:
  "steady m b p \<Longrightarrow> op_OpenUDP env (BoundOpener b) m l t w =
     (case OpenUDP env p l t w of (r, q, w1) \<Rightarrow> (r, set_pool b q m, w1))"
  using steady_poolFor [of m b p] by (simp add: op_OpenUDP_def bound_OpenUDP_def)

lemma steady_SupportsDatagrams:
  "steady m b p \<Longrightarrow> op_SupportsDatagrams (BoundOpener b) m w = (SupportsDatagrams p w, m)"
  using steady_poolFor [of m b p] by (simp add: op_SupportsDatagrams_def bound_SupportsDatagrams_def)

text \<open>The counters after packets were sent over a stream.\<close>

definition sent_count :: "byte list list \<Rightarrow> Collector \<Rightarrow> Collector" where
  "sent_count ps c = add_bytes True (total ps) (c\<lparr>mt_UDPPackets := mt_UDPPackets c + of_nat (length ps)\<rparr>)"

lemma sent_count_simps:
  "sent_count [] c = c" "sent_count qs (sent_count ps c) = sent_count (ps @ qs) c"
  by (simp_all add: sent_count_def add_bytes_def add.assoc add.commute add.left_commute)

lemma WriteDatagram_delivers:
  assumes "delivers env" and "length p \<le> MaxDatagram"
  shows "WriteDatagram (stream_write env h) w p = (None, (tick w)\<lparr>w_log := w_log w @ [(h, frame p)]\<rparr>)"
  using assms by (simp add: WriteDatagram_def stream_write_def delivers_def frame_def)

text \<open>A packet of a flow that has a stream, and the first packet of a flow.\<close>

lemma fwd_packet_next:
  assumes r: "fwd_opener route (ru_BindUpstream rule) = Some (BoundOpener b)" and s: "steady m b p"
    and k: "\<forall>x \<in> set (p_sessions p). \<not> DatagramsOK x" and d: "delivers env" and q: "q \<noteq> []" "length q \<le> MaxDatagram"
    and f: "p_udp p (addrPairKey (udp_addr_string client) (ru_Target rule)) = Some strm"
  shows "fwd_packet env route rule client dl q m w c =
     (Inr None, set_pool b p m, (tick w)\<lparr>w_log := w_log w @ [(strm, frame q)]\<rparr>, sent_count [q] c)"
proof -
  have "op_SupportsDatagrams (BoundOpener b) m w = (False, m)"
    using steady_SupportsDatagrams [OF s, of w] k by (auto simp: SupportsDatagrams_def list_ex_iff)
  then show ?thesis
    using r f q steady_OpenUDP [OF s] WriteDatagram_delivers [OF d q(2)]
    by (simp add: fwd_packet_def Let_def send_stream_def OpenUDP_def sent_count_def add_bytes_def)
qed

lemma fwd_packet_first:
  assumes r: "fwd_opener route (ru_BindUpstream rule) = Some (BoundOpener b)" and s: "steady m b p"
    and k: "\<forall>x \<in> set (p_sessions p). \<not> DatagramsOK x" and d: "delivers env" and q: "q \<noteq> []" "length q \<le> MaxDatagram"
    and f: "p_udp p (addrPairKey (udp_addr_string client) (ru_Target rule)) = None"
    and t: "Parse (ru_Target rule) = Inr a" and o: "openStream env p w = (Inr strm, p1, w1)"
  shows "fwd_packet env route rule client dl q m w c =
     (Inr (Some (strm, addrPairKey (udp_addr_string client) (ru_Target rule))),
      set_pool b (p1\<lparr>p_udp := (p_udp p1)(addrPairKey (udp_addr_string client) (ru_Target rule) \<mapsto> strm)\<rparr>) m,
      (tick (tick w1))\<lparr>w_log := w_log w1 @ [(strm, e_enc env (addr_message UDP a)), (strm, frame q)]\<rparr>, sent_count [q] c)"
proof -
  have "op_SupportsDatagrams (BoundOpener b) m w = (False, m)"
    using steady_SupportsDatagrams [OF s, of w] k by (auto simp: SupportsDatagrams_def list_ex_iff)
  moreover have "stream_write env strm w1 x = (None, (tick w1)\<lparr>w_log := w_log w1 @ [(strm, x)]\<rparr>)" for x
    using d by (simp add: stream_write_def delivers_def)
  ultimately show ?thesis
    using r f q t o steady_OpenUDP [OF s] WriteDatagram_delivers [OF d q(2)]
    by (simp add: fwd_packet_def Let_def send_stream_def OpenUDP_def msg_Write_def sent_count_def add_bytes_def tick_def)
qed

text \<open>The packets of one client, in the order they arrive; the result lists the pumps started.\<close>

fun fwd_packets ::
  "env \<Rightarrow> RouteFn option \<Rightarrow> Rule \<Rightarrow> udp_addr \<Rightarrow> nat \<Rightarrow> byte list list \<Rightarrow> Manager \<Rightarrow> world \<Rightarrow> Collector
     \<Rightarrow> (handle \<times> 64 word) list res \<times> Manager \<times> world \<times> Collector" where
  "fwd_packets env route rule client d [] m w c = (Inr [], m, w, c)"
| "fwd_packets env route rule client d (p # ps) m w c =
     (case fwd_packet env route rule client d p m w c of
        (Inl e, m1, w1, c1) \<Rightarrow> (Inl e, m1, w1, c1)
      | (Inr pump, m1, w1, c1) \<Rightarrow>
          (case fwd_packets env route rule client d ps m1 w1 c1 of
             (Inl e, m2, w2, c2) \<Rightarrow> (Inl e, m2, w2, c2)
           | (Inr pumps, m2, w2, c2) \<Rightarrow> (Inr (case_option [] (\<lambda>x. [x]) pump @ pumps), m2, w2, c2)))"

lemma fwd_packets_next:
  assumes r: "fwd_opener route (ru_BindUpstream rule) = Some (BoundOpener b)"
    and k: "\<forall>x \<in> set (p_sessions p). \<not> DatagramsOK x" and d: "delivers env"
    and f: "p_udp p (addrPairKey (udp_addr_string client) (ru_Target rule)) = Some strm"
  shows "\<lbrakk>steady m b p; \<forall>q \<in> set ps. length q \<le> MaxDatagram\<rbrakk> \<Longrightarrow>
     \<exists>m' w'. fwd_packets env route rule client dl ps m w c = (Inr [], m', w', sent_count (nonempty ps) c)
       \<and> steady m' b p \<and> w_log w' = w_log w @ map (\<lambda>q. (strm, frame q)) (nonempty ps) \<and> w_open w' = w_open w"
proof (induction ps arbitrary: m w c)
  case Nil
  then show ?case by (simp add: sent_count_simps)
next
  case (Cons q ps)
  show ?case
  proof (cases "q = []")
    case True
    obtain m' w' where "fwd_packets env route rule client dl ps m w c = (Inr [], m', w', sent_count (nonempty ps) c)"
      "steady m' b p" "w_log w' = w_log w @ map (\<lambda>q. (strm, frame q)) (nonempty ps)" "w_open w' = w_open w"
      using Cons.IH [OF Cons.prems(1)] Cons.prems(2) by fastforce
    with True show ?thesis by (simp add: fwd_packet_def)
  next
    case False
    let ?w = "(tick w)\<lparr>w_log := w_log w @ [(strm, frame q)]\<rparr>"
    have x: "fwd_packet env route rule client dl q m w c = (Inr None, set_pool b p m, ?w, sent_count [q] c)"
      by (rule fwd_packet_next [OF r Cons.prems(1) k d False _ f]) (use Cons.prems(2) in simp)
    obtain m' w' where "fwd_packets env route rule client dl ps (set_pool b p m) ?w (sent_count [q] c)
        = (Inr [], m', w', sent_count (nonempty ps) (sent_count [q] c))"
      "steady m' b p" "w_log w' = w_log ?w @ map (\<lambda>q. (strm, frame q)) (nonempty ps)" "w_open w' = w_open ?w"
      using Cons.IH [OF steady_set_pool [OF Cons.prems(1)]] Cons.prems(2) by fastforce
    with x False show ?thesis by (simp add: sent_count_simps(2))
  qed
qed


lemma fwd_packets_flow:
  assumes r: "fwd_opener route (ru_BindUpstream rule) = Some (BoundOpener b)" and s: "steady m b p"
    and k: "\<forall>x \<in> set (p_sessions p). \<not> DatagramsOK x" and d: "delivers env"
    and f: "p_udp p (addrPairKey (udp_addr_string client) (ru_Target rule)) = None"
    and t: "Parse (ru_Target rule) = Inr a" and w: "world_ok w" and o: "openStream env p w = (Inr strm, p1, w1)"
  shows "\<lbrakk>nonempty ps \<noteq> []; \<forall>q \<in> set ps. length q \<le> MaxDatagram\<rbrakk> \<Longrightarrow>
     \<exists>m' w'. fwd_packets env route rule client dl ps m w c =
         (Inr [(strm, addrPairKey (udp_addr_string client) (ru_Target rule))], m', w', sent_count (nonempty ps) c)
       \<and> w_log w' = w_log w1 @ (strm, e_enc env (addr_message UDP a)) # map (\<lambda>q. (strm, frame q)) (nonempty ps)
       \<and> w_open w' = w_open w1"
proof (induction ps)
  case (Cons q ps)
  show ?case
  proof (cases "q = []")
    case True
    with Cons obtain m' w' where "fwd_packets env route rule client dl ps m w c =
         (Inr [(strm, addrPairKey (udp_addr_string client) (ru_Target rule))], m', w', sent_count (nonempty ps) c)"
       "w_log w' = w_log w1 @ (strm, e_enc env (addr_message UDP a)) # map (\<lambda>q. (strm, frame q)) (nonempty ps)"
       "w_open w' = w_open w1" by auto
    with True show ?thesis by (simp add: fwd_packet_def)
  next
    case False
    let ?key = "addrPairKey (udp_addr_string client) (ru_Target rule)"
    let ?p = "p1\<lparr>p_udp := (p_udp p1)(?key \<mapsto> strm)\<rparr>"
    let ?w = "(tick (tick w1))\<lparr>w_log := w_log w1 @ [(strm, e_enc env (addr_message UDP a)), (strm, frame q)]\<rparr>"
    have x: "fwd_packet env route rule client dl q m w c = (Inr (Some (strm, ?key)), set_pool b ?p m, ?w, sent_count [q] c)"
      by (rule fwd_packet_first [OF r s k d False _ f t o]) (use Cons.prems(2) in simp)
    have "p_sessions p1 = p_sessions p" using openStream_spec [OF w o] by auto
    then have k': "\<forall>x \<in> set (p_sessions ?p). \<not> DatagramsOK x" using k by simp
    obtain m' w' where "fwd_packets env route rule client dl ps (set_pool b ?p m) ?w (sent_count [q] c)
        = (Inr [], m', w', sent_count (nonempty ps) (sent_count [q] c))"
      "w_log w' = w_log ?w @ map (\<lambda>q. (strm, frame q)) (nonempty ps)" "w_open w' = w_open ?w"
      using fwd_packets_next [OF r k' d _ steady_set_pool [OF s], of client strm ps dl ?w "sent_count [q] c"] Cons.prems(2) by auto
    with x False show ?thesis by (simp add: sent_count_simps(2))
  qed
qed simp

end
