(* ===== verification/Socks5.thy ===== *)
theory Socks5
  imports Forward
begin

unbundle bit_operations_syntax

text \<open>
  \<^verbatim>\<open>internal/socks5\<close>: the handler the SOCKS5 server calls. The server itself, the decoding of
  requests and datagrams and the encoding of answers are the library \<^verbatim>\<open>github.com/txthinking/socks5\<close>:
  \<open>socks_lib\<close> stands for the functions the handler calls, and a request or datagram is what the
  handler reads of it.
\<close>

section \<open>The library\<close>

definition Ver :: byte where "Ver = 5"
definition RepSuccess :: byte where "RepSuccess = 0"
definition ATYPIPv4 :: byte where "ATYPIPv4 = 1"
definition ATYPDomain :: byte where "ATYPDomain = 3"
definition ATYPIPv6 :: byte where "ATYPIPv6 = 4"
definition CmdConnect :: byte where "CmdConnect = 1"
definition CmdUDP :: byte where "CmdUDP = 3"

text \<open>\<open>sl_ParseAddress\<close>: address type, address and port of a target; \<open>sl_Datagram\<close>: the bytes of a
  datagram made by \<^verbatim>\<open>NewDatagram\<close> from address type, address, port and data.\<close>

record socks_lib =
  sl_ParseAddress :: "string \<Rightarrow> (byte \<times> byte list \<times> byte list) res"
  sl_Datagram :: "byte \<Rightarrow> byte list \<Rightarrow> byte list \<Rightarrow> byte list \<Rightarrow> byte list"

record Request =
  rq_Cmd :: byte
  rq_Address :: string

record Datagram =
  dg_Address :: string
  dg_Data :: "byte list"

section \<open>CONNECT\<close>

definition connect_reply :: "ip \<Rightarrow> int \<Rightarrow> byte list" where
  "connect_reply lip lport =
     [Ver, RepSuccess, 0]
     @ (case to4 lip of
          Some ip4 \<Rightarrow> ATYPIPv4 # ip4
        | None \<Rightarrow> ATYPIPv6 # (case to16 lip of Some ip6 \<Rightarrow> ip6 | None \<Rightarrow> []))
     @ [word_of_int (drop_bit 8 lport), word_of_int (lport AND 0xff)]"

definition handleTCPConnect ::
  "env \<Rightarrow> RouteFn \<Rightarrow> handle \<Rightarrow> udp_addr \<Rightarrow> Request \<Rightarrow> splice_event list \<Rightarrow> Manager \<Rightarrow> world \<Rightarrow> Collector
     \<Rightarrow> tcp_end \<times> Manager \<times> world \<times> Collector" where
  "handleTCPConnect env route conn laddr r evs m w c =
     (case stream_write env conn w (connect_reply (ua_ip laddr) (ua_port laddr)) of
        (Some e, w1) \<Rightarrow> (NotOpened e, m, w1, c)
      | (None, w1) \<Rightarrow>
          (case route [] of
             None \<Rightarrow> (NoOpener, m, w1, c)
           | Some opn \<Rightarrow> carry env (op_OpenTCP env opn) tcp_accepted (inc_active (-1)) conn (rq_Address r) evs m w1 c))"

section \<open>UDP ASSOCIATE\<close>

text \<open>\<open>hd_assoc\<close>: the associations of the server, by client address; \<open>hd_pumps\<close>: the running pumps.\<close>

record handler =
  hd_assoc :: "string set"
  hd_pumps :: "64 word set"

text \<open>
  What \<^verbatim>\<open>listen\<close> serves for a rule: a server made by the library from address, host, user, password and the
  two time limits, with unassociated datagrams refused, and a fresh handler. \<open>resolve_tcp\<close> is
  \<^verbatim>\<open>net.ResolveTCPAddr\<close>, which may ask a name server.
\<close>

record 'srv socks_service =
  so_srv :: 'srv
  so_LimitUDP :: bool
  so_handler :: handler

definition socks_listen ::
  "(string \<Rightarrow> udp_addr res) \<Rightarrow> (string \<Rightarrow> string \<Rightarrow> string \<Rightarrow> string \<Rightarrow> nat \<Rightarrow> nat \<Rightarrow> 'srv res) \<Rightarrow> SOCKS5Rule \<Rightarrow> 'srv socks_service res" where
  "socks_listen resolve_tcp newClassicServer rule =
     (case resolve_tcp (s_Listen rule) of
        Inl e \<Rightarrow> Inl e
      | Inr addr \<Rightarrow>
          let user = (case s_Auth rule of None \<Rightarrow> [] | Some a \<Rightarrow> sa_User a);
              pass = (case s_Auth rule of None \<Rightarrow> [] | Some a \<Rightarrow> sa_Pass a)
          in (case newClassicServer (udp_addr_string addr) (ip_string (ua_ip addr)) user pass 0 60 of
                Inl e \<Rightarrow> Inl e
              | Inr srv \<Rightarrow> Inr \<lparr>so_srv = srv, so_LimitUDP = True, so_handler = \<lparr>hd_assoc = {}, hd_pumps = {}\<rparr>\<rparr>))"

text \<open>\<^verbatim>\<open>Start\<close>: one goroutine per rule, each on its own; it never fails itself.\<close>

definition socks_Start ::
  "(string \<Rightarrow> udp_addr res) \<Rightarrow> (string \<Rightarrow> string \<Rightarrow> string \<Rightarrow> string \<Rightarrow> nat \<Rightarrow> nat \<Rightarrow> 'srv res) \<Rightarrow> SOCKS5Rule list
     \<Rightarrow> 'srv socks_service res list \<times> error option" where
  "socks_Start resolve_tcp newClassicServer rules = (map (socks_listen resolve_tcp newClassicServer) rules, None)"

text \<open>\<open>associate\<close>: the client is associated for as long as its TCP connection stays open, and then no more;
  \<open>caddr\<close>: the client address the library gives.\<close>

definition associate_begin :: "udp_addr res \<Rightarrow> handler \<Rightarrow> error option \<times> handler" where
  "associate_begin caddr h =
     (case caddr of
        Inl e \<Rightarrow> (Some e, h)
      | Inr a \<Rightarrow> (None, h\<lparr>hd_assoc := insert (udp_addr_string a) (hd_assoc h)\<rparr>))"

definition associate_end :: "udp_addr \<Rightarrow> handler \<Rightarrow> handler" where
  "associate_end a h = h\<lparr>hd_assoc := hd_assoc h - {udp_addr_string a}\<rparr>"

datatype tcp_action = Associate | Connect | Ignore

definition TCPHandle :: "Request \<Rightarrow> tcp_action" where
  "TCPHandle r = (if rq_Cmd r = CmdUDP then Associate else if rq_Cmd r = CmdConnect then Connect else Ignore)"

definition startPump :: "64 word \<Rightarrow> handler \<Rightarrow> bool \<times> handler" where
  "startPump key h = (if key \<in> hd_pumps h then (False, h) else (True, h\<lparr>hd_pumps := insert key (hd_pumps h)\<rparr>))"

definition endPump :: "64 word \<Rightarrow> handler \<Rightarrow> handler" where
  "endPump key h = h\<lparr>hd_pumps := hd_pumps h - {key}\<rparr>"

text \<open>
  A datagram of a client: the panic, or the error returned and the pump to start (stream, key and
  target). \<open>d\<close> is the closure that delivers answers on the datagram path.
\<close>

definition UDPHandle ::
  "env \<Rightarrow> RouteFn \<Rightarrow> bool \<Rightarrow> udp_addr \<Rightarrow> Datagram \<Rightarrow> nat \<Rightarrow> handler \<Rightarrow> Manager \<Rightarrow> world \<Rightarrow> Collector
     \<Rightarrow> (error option \<times> (handle \<times> 64 word) option) res \<times> handler \<times> Manager \<times> world \<times> Collector" where
  "UDPHandle env route limit addr dg d h m w c =
     (let l = udp_addr_string addr; target = dg_Address dg; p = dg_Data dg
      in if limit \<and> l \<notin> hd_assoc h then (Inr (None, None), h, m, w, c)
         else case route [] of
           None \<Rightarrow> (Inr (None, None), h, m, w, c)
         | Some opn \<Rightarrow>
             (case op_SupportsDatagrams opn m w of
                (True, m1) \<Rightarrow>
                  (case send_dgram env opn l target d p m1 w of
                     (DgNotOpened e, m2, w2) \<Rightarrow> (if is_panic e then Inl e else Inr (Some e, None), h, m2, w2, c)
                   | (DgNotSent e, m2, w2) \<Rightarrow>
                       (Inr (Some e, None), h, m2, w2, c\<lparr>mt_UDPDgramDropped := mt_UDPDgramDropped c + 1\<rparr>)
                   | (DgSent, m2, w2) \<Rightarrow>
                       (Inr (None, None), h, m2, w2,
                        add_bytes True (length p) (c\<lparr>mt_UDPPackets := mt_UDPPackets c + 1, mt_UDPDgramOut := mt_UDPDgramOut c + 1\<rparr>)))
              | (False, m1) \<Rightarrow>
                  (case send_stream env opn l target p m1 w of
                     (_, Some e, m2, w2) \<Rightarrow> (Inl e, h, m2, w2, c)
                   | (UdpNotOpened e, None, m2, w2) \<Rightarrow> (Inr (Some e, None), h, m2, w2, c)
                   | (UdpNotWritten e, None, m2, w2) \<Rightarrow> (Inr (Some e, None), h, m2, w2, IncError c)
                   | (UdpSent strm isNew key, None, m2, w2) \<Rightarrow>
                       (let c1 = add_bytes True (length p) (c\<lparr>mt_UDPPackets := mt_UDPPackets c + 1\<rparr>)
                        in if \<not> isNew then (Inr (None, None), h, m2, w2, c1)
                           else (case startPump key h of
                                   (started, h1) \<Rightarrow> (Inr (None, if started then Some (strm, key) else None), h1, m2, w2, c1))))))"

text \<open>The header of the answers to a target: address type, address and port.\<close>

definition pump_header :: "socks_lib \<Rightarrow> string \<Rightarrow> (byte \<times> byte list \<times> byte list) res" where
  "pump_header lib target =
     (case sl_ParseAddress lib target of
        Inl e \<Rightarrow> Inl e
      | Inr (atyp, dst, port) \<Rightarrow> Inr (atyp, if atyp = ATYPDomain then tl dst else dst, port))"

definition socks_pump_round ::
  "socks_lib \<Rightarrow> env \<Rightarrow> handle \<Rightarrow> udp_addr \<Rightarrow> byte \<times> byte list \<times> byte list \<Rightarrow> byte list \<Rightarrow> world \<Rightarrow> Collector
     \<Rightarrow> (handle \<times> udp_addr \<times> byte list) list
     \<Rightarrow> bool \<times> byte list \<times> world \<times> Collector \<times> (handle \<times> udp_addr \<times> byte list) list" where
  "socks_pump_round lib env sock client hdr inp w c out =
     (case ReadDatagram inp udpBuf of
        (Inl e, rest) \<Rightarrow> (False, rest, w, c, out)
      | (Inr p, rest) \<Rightarrow>
          (case attempt env (SockWriteTo sock client) w of
             (Some e, w1) \<Rightarrow> (False, rest, w1, c, out)
           | (None, w1) \<Rightarrow>
               (True, rest, w1, add_bytes False (length p) c,
                out @ [(sock, client, sl_Datagram lib (fst hdr) (fst (snd hdr)) (snd (snd hdr)) p)])))"

fun socks_rounds ::
  "socks_lib \<Rightarrow> env \<Rightarrow> handle \<Rightarrow> udp_addr \<Rightarrow> byte \<times> byte list \<times> byte list \<Rightarrow> nat \<Rightarrow> byte list \<Rightarrow> world \<Rightarrow> Collector
     \<Rightarrow> (handle \<times> udp_addr \<times> byte list) list \<Rightarrow> world \<times> Collector \<times> (handle \<times> udp_addr \<times> byte list) list" where
  "socks_rounds lib env sock client hdr 0 inp w c out = (w, c, out)"
| "socks_rounds lib env sock client hdr (Suc k) inp w c out =
     (case socks_pump_round lib env sock client hdr inp w c out of
        (False, _, w1, c1, out1) \<Rightarrow> (w1, c1, out1)
      | (True, rest, w1, c1, out1) \<Rightarrow> socks_rounds lib env sock client hdr k rest w1 c1 out1)"

text \<open>The whole pump; the stream is given up before the pump is taken off the table.\<close>

definition socks_pumpUDP ::
  "socks_lib \<Rightarrow> env \<Rightarrow> opener \<Rightarrow> handle \<Rightarrow> udp_addr \<Rightarrow> string \<Rightarrow> 64 word \<Rightarrow> nat \<Rightarrow> byte list \<Rightarrow> handler \<Rightarrow> Manager \<Rightarrow> world
     \<Rightarrow> Collector \<Rightarrow> (handle \<times> udp_addr \<times> byte list) list
     \<Rightarrow> error option \<times> handler \<times> Manager \<times> world \<times> Collector \<times> (handle \<times> udp_addr \<times> byte list) list" where
  "socks_pumpUDP lib env opn sock client target key k inp h m w c out =
     (let finish = (\<lambda>(w1, c1, out1).
            (case op_CloseUDP opn m key w1 of (e, m1, w2) \<Rightarrow> (e, endPump key h, m1, w2, c1, out1)))
      in case pump_header lib target of
           Inl e \<Rightarrow> finish (w, c, out)
         | Inr hdr \<Rightarrow> finish (socks_rounds lib env sock client hdr k inp w c out))"

text \<open>The closure that delivers the answers of a datagram flow.\<close>

definition socks_deliver ::
  "socks_lib \<Rightarrow> env \<Rightarrow> handle \<Rightarrow> udp_addr \<Rightarrow> string \<Rightarrow> byte list \<Rightarrow> world \<Rightarrow> Collector \<Rightarrow> (handle \<times> udp_addr \<times> byte list) list
     \<Rightarrow> world \<times> Collector \<times> (handle \<times> udp_addr \<times> byte list) list" where
  "socks_deliver lib env sock client target p w c out =
     (case sl_ParseAddress lib target of
        Inl e \<Rightarrow> (w, c, out)
      | Inr (atyp, dst, port) \<Rightarrow>
          (let dst1 = (if atyp = ATYPIPv6 then tl dst else dst)
           in case attempt env (SockWriteTo sock client) w of
                (Some e, w1) \<Rightarrow> (w1, c, out)
              | (None, w1) \<Rightarrow> (w1, add_bytes False (length p) c, out @ [(sock, client, sl_Datagram lib atyp dst1 port p)])))"

text \<open>A fresh handler drops every datagram of a client that has not associated: the tunnel is not touched.\<close>

lemma fresh_drops:
  assumes "socks_listen rt nc rule = Inr srv"
  shows "UDPHandle env route (so_LimitUDP srv) addr dg d (so_handler srv) m w c = (Inr (None, None), so_handler srv, m, w, c)"
  using assms by (auto simp: socks_listen_def UDPHandle_def Let_def split: sum.splits)

end
