(* ===== verification/Firewall.thy ===== *)
theory Firewall
  imports Resolve "HOL-Library.AList"
begin

text \<open>
  \<^verbatim>\<open>internal/iptables\<close> (the rules that keep the kernel away from the tunnel's TCP port) and the rule
  management of \<^verbatim>\<open>internal/redirect\<close> (the chain that redirects port ranges). Both run the iptables
  binaries; \<open>netfilter\<close> stands for them: \<open>nf_look\<close> is \<^verbatim>\<open>exec.LookPath\<close>, \<open>nf_run\<close> runs a binary with
  arguments and gives its error and output. What the code relies on is stated in \<open>documented\<close> and
  \<open>documented_match\<close>, after the manual page of iptables.
\<close>

section \<open>The iptables binaries\<close>

record 'fw netfilter =
  nf_look :: "string \<Rightarrow> error option"
  nf_run :: "string \<Rightarrow> string list \<Rightarrow> 'fw \<Rightarrow> (error option \<times> string) \<times> 'fw"

type_synonym rule = "string list"

datatype ipt_cmd =
    NewChain string string
  | Flush string string
  | Append string string rule
  | Delete string string rule
  | Check string string rule
  | DropChain string string
  | ListRules string

fun ipt_args :: "ipt_cmd \<Rightarrow> string list" where
  "ipt_args (NewChain t c) = [''-t'', t, ''-N'', c]"
| "ipt_args (Flush t c) = [''-t'', t, ''-F'', c]"
| "ipt_args (Append t c r) = [''-t'', t, ''-A'', c] @ r"
| "ipt_args (Delete t c r) = [''-t'', t, ''-D'', c] @ r"
| "ipt_args (Check t c r) = [''-t'', t, ''-C'', c] @ r"
| "ipt_args (DropChain t c) = [''-t'', t, ''-X'', c]"
| "ipt_args (ListRules t) = [''-t'', t, ''-S'']"

section \<open>Rules of the tunnel port (iptables)\<close>

definition comment :: string where "comment = ''paqetpremium''"

definition ensureRule :: "'fw netfilter \<Rightarrow> string \<Rightarrow> string \<times> string \<times> rule \<Rightarrow> 'fw \<Rightarrow> error option \<times> 'fw" where
  "ensureRule nf bin tcr fw =
     (case tcr of (table, chain, rule) \<Rightarrow>
        (case nf_run nf bin (ipt_args (Check table chain rule)) fw of
           ((None, _), fw1) \<Rightarrow> (None, fw1)
         | ((Some _, _), fw1) \<Rightarrow>
             (case nf_run nf bin (ipt_args (Append table chain rule)) fw1 of
                ((Some e, out), fw2) \<Rightarrow> (Some (Wrapf ''%s: %s: %w'' [bin, trim_space out] e), fw2)
              | ((None, _), fw2) \<Rightarrow> (None, fw2))))"

definition family_rules :: "int \<Rightarrow> (string \<times> string \<times> rule) list" where
  "family_rules port =
     (let p = itoa port
      in [(''raw'', ''PREROUTING'', [''-p'', ''tcp'', ''--dport'', p, ''-m'', ''comment'', ''--comment'', comment, ''-j'', ''NOTRACK'']),
          (''raw'', ''OUTPUT'', [''-p'', ''tcp'', ''--sport'', p, ''-m'', ''comment'', ''--comment'', comment, ''-j'', ''NOTRACK'']),
          (''mangle'', ''OUTPUT'', [''-p'', ''tcp'', ''--sport'', p, ''--tcp-flags'', ''RST'', ''RST'', ''-m'', ''comment'',
             ''--comment'', comment, ''-j'', ''DROP''])])"

fun ensure_all :: "'fw netfilter \<Rightarrow> string \<Rightarrow> (string \<times> string \<times> rule) list \<Rightarrow> 'fw \<Rightarrow> error option \<times> 'fw" where
  "ensure_all nf bin [] fw = (None, fw)"
| "ensure_all nf bin (r # rs) fw =
     (case ensureRule nf bin r fw of
        (Some e, fw1) \<Rightarrow> (Some e, fw1)
      | (None, fw1) \<Rightarrow> ensure_all nf bin rs fw1)"

definition applyFamily :: "'fw netfilter \<Rightarrow> string \<Rightarrow> int \<Rightarrow> 'fw \<Rightarrow> error option \<times> 'fw" where
  "applyFamily nf bin port fw =
     (if port < 1 \<or> port > 65535 then (Some (Errorf ''invalid port %d'' [itoa port]), fw)
      else (case nf_look nf bin of
              Some e \<Rightarrow> (Some (Wrapf ''%s not found: %w'' [bin] e), fw)
            | None \<Rightarrow> ensure_all nf bin (family_rules port) fw))"

definition ipt_Apply :: "'fw netfilter \<Rightarrow> NetworkRuntime option \<Rightarrow> 'fw \<Rightarrow> error option \<times> 'fw" where
  "ipt_Apply nf net fw =
     (case net of
        None \<Rightarrow> (Some (Errorf ''network runtime missing'' []), fw)
      | Some rt \<Rightarrow>
          (case applyFamily nf ''iptables'' (nr_Port rt) fw of
             (Some e, fw1) \<Rightarrow> (Some e, fw1)
           | (None, fw1) \<Rightarrow>
               (case nr_IPv6 rt of
                  None \<Rightarrow> (None, fw1)
                | Some a \<Rightarrow> applyFamily nf ''ip6tables'' (if ua_port a = 0 then nr_Port rt else ua_port a) fw1)))"

definition ApplyTCPPort :: "'fw netfilter \<Rightarrow> int \<Rightarrow> 'fw \<Rightarrow> error option \<times> 'fw" where
  "ApplyTCPPort nf port fw = applyFamily nf ''iptables'' port fw"

text \<open>\<^verbatim>\<open>strings.Contains\<close> and \<^verbatim>\<open>strings.Fields\<close>.\<close>

fun contains :: "string \<Rightarrow> string \<Rightarrow> bool" where
  "contains s t = (has_prefix s t \<or> (case s of [] \<Rightarrow> False | c # s' \<Rightarrow> contains s' t))"

definition flush_field :: "string \<Rightarrow> string list" where
  "flush_field cur = (if cur = [] then [] else [rev cur])"

function fields_from :: "string \<Rightarrow> string \<Rightarrow> string list" where
  "fields_from cur s =
     (case s of
        [] \<Rightarrow> flush_field cur
      | c # rest \<Rightarrow>
          (case strip_one space_runes s of
             Some s' \<Rightarrow> flush_field cur @ fields_from [] s'
           | None \<Rightarrow> fields_from (c # cur) rest))"
  by pat_completeness auto
termination
  by (relation "measure (\<lambda>(cur, s). length s)") (auto dest: strip_one_shorter)

declare fields_from.simps [simp del]
declare contains.simps [simp del]

definition str_Fields :: "string \<Rightarrow> string list" where
  "str_Fields s = fields_from [] s"

definition newline :: char where "newline = CHR 0x0A"

text \<open>One line of the listing: delete the rule it shows, when it carries the comment.\<close>

definition remove_line :: "'fw netfilter \<Rightarrow> string \<Rightarrow> string \<Rightarrow> string \<Rightarrow> 'fw \<Rightarrow> 'fw" where
  "remove_line nf bin table line0 fw =
     (let line = trim_space line0
      in if \<not> has_prefix line ''-A '' \<or> \<not> contains line comment then fw
         else (let parts = str_Fields line
               in if length parts < 3 then fw
                  else snd (nf_run nf bin (ipt_args (Delete table (parts ! 1) (drop 2 parts))) fw)))"

definition remove_table :: "'fw netfilter \<Rightarrow> string \<Rightarrow> string \<Rightarrow> 'fw \<Rightarrow> 'fw" where
  "remove_table nf bin table fw =
     (case nf_run nf bin (ipt_args (ListRules table)) fw of
        ((Some _, _), fw1) \<Rightarrow> fw1
      | ((None, out), fw1) \<Rightarrow> fold (remove_line nf bin table) (split_on newline out) fw1)"

definition removeCommented :: "'fw netfilter \<Rightarrow> string \<Rightarrow> 'fw \<Rightarrow> 'fw" where
  "removeCommented nf bin fw = fold (remove_table nf bin) [''raw'', ''mangle''] fw"

definition ipt_Remove :: "'fw netfilter \<Rightarrow> 'fw \<Rightarrow> 'fw" where
  "ipt_Remove nf fw =
     fold (\<lambda>bin fw. if nf_look nf bin \<noteq> None then fw else removeCommented nf bin fw) [''iptables'', ''ip6tables''] fw"

section \<open>Rules of the range redirect\<close>

definition chainName :: string where "chainName = ''PAQET_REDIRECT''"

record RedirectConfig =
  rc_RedirectPort :: int
  rc_TargetHost :: string
  rc_PortRanges :: "(int \<times> int) list"
  rc_Exclude :: "int list"
  rc_BindUpstream :: string

record RedirectManager =
  rm_cfg :: RedirectConfig
  rm_applied :: bool

definition rd_run :: "'fw netfilter \<Rightarrow> ipt_cmd \<Rightarrow> 'fw \<Rightarrow> error option \<times> 'fw" where
  "rd_run nf cmd fw =
     (case nf_run nf ''iptables'' (ipt_args cmd) fw of
        ((Some e, out), fw1) \<Rightarrow> (Some (Wrapf ''%s %v: %v (%s)'' (''iptables'' # ipt_args cmd @ [out]) e), fw1)
      | ((None, _), fw1) \<Rightarrow> (None, fw1))"

text \<open>Commands in sequence, up to the first error.\<close>

fun rd_all :: "'fw netfilter \<Rightarrow> ipt_cmd list \<Rightarrow> 'fw \<Rightarrow> error option \<times> 'fw" where
  "rd_all nf [] fw = (None, fw)"
| "rd_all nf (cmd # cmds) fw =
     (case rd_run nf cmd fw of (Some e, fw1) \<Rightarrow> (Some e, fw1) | (None, fw1) \<Rightarrow> rd_all nf cmds fw1)"

definition exclude_rule :: "int \<Rightarrow> rule" where
  "exclude_rule p = [''-p'', ''tcp'', ''--dport'', itoa p, ''-j'', ''RETURN'']"

definition range_spec :: "int \<times> int \<Rightarrow> string" where
  "range_spec r = (case r of (lo, hi) \<Rightarrow> if hi \<noteq> lo then itoa lo @ '':'' @ itoa hi else itoa lo)"

definition range_rule :: "int \<Rightarrow> int \<times> int \<Rightarrow> rule" where
  "range_rule port r = [''-p'', ''tcp'', ''--dport'', range_spec r, ''-j'', ''REDIRECT'', ''--to-ports'', itoa port]"

definition hook_rule :: rule where
  "hook_rule = [''-p'', ''tcp'', ''-j'', chainName]"

definition chain_rules :: "RedirectConfig \<Rightarrow> rule list" where
  "chain_rules cfg =
     map exclude_rule (rc_Exclude cfg @ [rc_RedirectPort cfg]) @ map (range_rule (rc_RedirectPort cfg)) (rc_PortRanges cfg)"

definition applyRules :: "'fw netfilter \<Rightarrow> RedirectConfig \<Rightarrow> 'fw \<Rightarrow> error option \<times> 'fw" where
  "applyRules nf cfg fw =
     (let fw1 = snd (rd_run nf (NewChain ''nat'' chainName) fw)
      in case rd_run nf (Flush ''nat'' chainName) fw1 of
           (Some e, fw2) \<Rightarrow> (Some e, fw2)
         | (None, fw2) \<Rightarrow>
             (case rd_all nf (map (Append ''nat'' chainName) (chain_rules cfg)) fw2 of
                (Some e, fw3) \<Rightarrow> (Some e, fw3)
              | (None, fw3) \<Rightarrow>
                  rd_run nf (Append ''nat'' ''PREROUTING'' hook_rule)
                    (snd (rd_run nf (Delete ''nat'' ''PREROUTING'' hook_rule) fw3))))"

definition removeRules :: "'fw netfilter \<Rightarrow> RedirectManager \<Rightarrow> 'fw \<Rightarrow> RedirectManager \<times> 'fw" where
  "removeRules nf m fw =
     (if \<not> rm_applied m then (m, fw)
      else (m\<lparr>rm_applied := False\<rparr>,
            snd (rd_run nf (DropChain ''nat'' chainName)
              (snd (rd_run nf (Flush ''nat'' chainName)
                (snd (rd_run nf (Delete ''nat'' ''PREROUTING'' hook_rule) fw)))))))"

text \<open>\<open>listen\<close>: the error of listening on the redirect port, if any.\<close>

definition rd_Start ::
  "'fw netfilter \<Rightarrow> (int \<Rightarrow> error option) \<Rightarrow> RedirectManager \<Rightarrow> RedirectConfig \<Rightarrow> 'fw
     \<Rightarrow> error option \<times> RedirectManager \<times> 'fw" where
  "rd_Start nf listen m cfg fw =
     (let m1 = m\<lparr>rm_cfg := cfg\<rparr>
      in case applyRules nf cfg fw of
           (Some e, fw1) \<Rightarrow> (Some (Wrapf ''redirect iptables: %w'' [] e), removeRules nf m1 fw1)
         | (None, fw1) \<Rightarrow>
             (let m2 = m1\<lparr>rm_applied := True\<rparr>
              in case listen (rc_RedirectPort cfg) of
                   Some e \<Rightarrow> (Some (Wrapf ''redirect listen :%d: %w'' [itoa (rc_RedirectPort cfg)] e), removeRules nf m2 fw1)
                 | None \<Rightarrow> (None, m2, fw1)))"

section \<open>What iptables documents\<close>

text \<open>The rules of one binary, by table and chain, in the form the binary prints them.\<close>

type_synonym tables = "string \<Rightarrow> string \<rightharpoonup> rule list"

definition set_chain :: "string \<Rightarrow> string \<Rightarrow> rule list \<Rightarrow> tables \<Rightarrow> tables" where
  "set_chain t c rs T = T(t := (T t)(c \<mapsto> rs))"

text \<open>What a command does when it succeeds, \<open>None\<close> when it cannot; \<open>canon\<close> is the printed form of a rule.\<close>

fun ipt_effect :: "(rule \<Rightarrow> rule) \<Rightarrow> ipt_cmd \<Rightarrow> tables \<Rightarrow> tables option" where
  "ipt_effect canon (NewChain t c) T = (if T t c = None then Some (set_chain t c [] T) else None)"
| "ipt_effect canon (Flush t c) T = (case T t c of None \<Rightarrow> None | Some rs \<Rightarrow> Some (set_chain t c [] T))"
| "ipt_effect canon (Append t c r) T = (case T t c of None \<Rightarrow> None | Some rs \<Rightarrow> Some (set_chain t c (rs @ [canon r]) T))"
| "ipt_effect canon (Delete t c r) T =
     (case T t c of
        None \<Rightarrow> None
      | Some rs \<Rightarrow> if canon r \<in> set rs then Some (set_chain t c (remove1 (canon r) rs) T) else None)"
| "ipt_effect canon (Check t c r) T =
     (case T t c of None \<Rightarrow> None | Some rs \<Rightarrow> if canon r \<in> set rs then Some T else None)"
| "ipt_effect canon (DropChain t c) T =
     (case T t c of Some [] \<Rightarrow> Some (T(t := (T t)(c := None))) | _ \<Rightarrow> None)"
| "ipt_effect canon (ListRules t) T = Some T"

text \<open>
  A command fails without effect or has its effect; a check succeeds exactly when the rule is
  there. In a \<open>reliable\<close> system (enough privileges, no lock contention) a command that can succeed does.
\<close>

definition documented :: "'fw netfilter \<Rightarrow> ('fw \<Rightarrow> string \<Rightarrow> tables) \<Rightarrow> (rule \<Rightarrow> rule) \<Rightarrow> bool" where
  "documented nf view canon \<longleftrightarrow>
     (\<forall>r. canon (canon r) = canon r)
     \<and> (\<forall>fw bin t c rs r. view fw bin t c = Some rs \<longrightarrow> r \<in> set rs \<longrightarrow> canon r = r)
     \<and> (\<forall>bin cmd fw e out fw'. nf_run nf bin (ipt_args cmd) fw = ((e, out), fw') \<longrightarrow>
          (e \<noteq> None \<longrightarrow> view fw' = view fw)
          \<and> (e = None \<longrightarrow> (\<exists>T. ipt_effect canon cmd (view fw bin) = Some T \<and> view fw' = (view fw)(bin := T)))
          \<and> (\<forall>t c r. cmd = Check t c r \<longrightarrow> ipt_effect canon cmd (view fw bin) \<noteq> None \<longrightarrow> e = None))"

definition reliable :: "'fw netfilter \<Rightarrow> ('fw \<Rightarrow> string \<Rightarrow> tables) \<Rightarrow> (rule \<Rightarrow> rule) \<Rightarrow> bool" where
  "reliable nf view canon \<longleftrightarrow> documented nf view canon
     \<and> (\<forall>bin cmd fw e out fw'. nf_run nf bin (ipt_args cmd) fw = ((e, out), fw') \<longrightarrow>
          ipt_effect canon cmd (view fw bin) \<noteq> None \<longrightarrow> e = None)"

lemma run_ok:
  assumes "documented nf view canon" and "nf_run nf bin (ipt_args cmd) fw = ((None, out), fw')"
  obtains T where "ipt_effect canon cmd (view fw bin) = Some T" and "view fw' = (view fw)(bin := T)"
  using assms unfolding documented_def by blast

lemma run_fail:
  "documented nf view canon \<Longrightarrow> nf_run nf bin (ipt_args cmd) fw = ((Some e, out), fw') \<Longrightarrow> view fw' = view fw"
  unfolding documented_def by blast

lemma run_reliable:
  assumes "reliable nf view canon"
  shows "view (snd (nf_run nf bin (ipt_args cmd) fw)) =
    (case ipt_effect canon cmd (view fw bin) of None \<Rightarrow> view fw | Some T \<Rightarrow> (view fw)(bin := T))"
proof -
  obtain e out fw' where r: "nf_run nf bin (ipt_args cmd) fw = ((e, out), fw')" by (metis prod.exhaust)
  have d: "documented nf view canon" using assms by (simp add: reliable_def)
  show ?thesis
  proof (cases e)
    case None
    obtain T where "ipt_effect canon cmd (view fw bin) = Some T" "view fw' = (view fw)(bin := T)"
      by (rule run_ok [OF d r [unfolded None]])
    with r show ?thesis by (simp del: ipt_args.simps)
  next
    case (Some x)
    then have "ipt_effect canon cmd (view fw bin) = None" using assms r unfolding reliable_def by blast
    with run_fail [OF d r [unfolded Some]] r show ?thesis by (simp del: ipt_args.simps)
  qed
qed

section \<open>Ensuring rules\<close>

definition ensured :: "(rule \<Rightarrow> rule) \<Rightarrow> string \<times> string \<times> rule \<Rightarrow> tables \<Rightarrow> tables" where
  "ensured canon tcr T = (case tcr of (t, c, r) \<Rightarrow>
     (case T t c of None \<Rightarrow> T | Some rs \<Rightarrow> if canon r \<in> set rs then T else set_chain t c (rs @ [canon r]) T))"

definition present :: "(rule \<Rightarrow> rule) \<Rightarrow> string \<times> string \<times> rule \<Rightarrow> tables \<Rightarrow> bool" where
  "present canon tcr T = (case tcr of (t, c, r) \<Rightarrow> (\<exists>rs. T t c = Some rs \<and> canon r \<in> set rs))"

lemma ensureRule_ok:
  assumes d: "documented nf view canon" and e: "ensureRule nf bin tcr fw = (None, fw')"
  shows "view fw' = (view fw)(bin := ensured canon tcr (view fw bin))" and "present canon tcr (view fw' bin)"
proof -
  obtain t c r where tcr: "tcr = (t, c, r)" by (metis prod.exhaust)
  obtain e1 o1 fw1 where c1: "nf_run nf bin (ipt_args (Check t c r)) fw = ((e1, o1), fw1)" by (metis prod.exhaust)
  have "view fw' = (view fw)(bin := ensured canon tcr (view fw bin)) \<and> present canon tcr (view fw' bin)"
  proof (cases e1)
    case None
    then have fw': "fw' = fw1" using e c1 tcr by (simp add: ensureRule_def)
    obtain T where T: "ipt_effect canon (Check t c r) (view fw bin) = Some T" "view fw1 = (view fw)(bin := T)"
      using run_ok [OF d c1 [unfolded None]] by blast
    then show ?thesis using fw' by (auto simp: tcr ensured_def present_def split: option.splits if_splits)
  next
    case (Some x)
    obtain e2 o2 fw2 where c2: "nf_run nf bin (ipt_args (Append t c r)) fw1 = ((e2, o2), fw2)" by (metis prod.exhaust)
    have e2: "e2 = None" and fw': "fw' = fw2"
      using e c1 c2 Some tcr by (cases e2; simp add: ensureRule_def del: ipt_args.simps)+
    have v1: "view fw1 = view fw" by (rule run_fail [OF d c1 [unfolded Some]])
    obtain T where T: "ipt_effect canon (Append t c r) (view fw bin) = Some T" "view fw2 = (view fw)(bin := T)"
      using run_ok [OF d c2 [unfolded e2]] v1 by metis
    have "ipt_effect canon (Check t c r) (view fw bin) = None" using d c1 Some unfolding documented_def by blast
    then show ?thesis using T fw' by (auto simp: tcr ensured_def present_def set_chain_def split: option.splits if_splits)
  qed
  then show "view fw' = (view fw)(bin := ensured canon tcr (view fw bin))" "present canon tcr (view fw' bin)" by blast+
qed

lemma ensured_present: "present canon tcr T \<Longrightarrow> ensured canon tcr T = T"
  by (auto simp: present_def ensured_def split: prod.splits)

lemma present_ensured: "present canon x T \<Longrightarrow> present canon x (ensured canon y T)"
  by (auto simp: present_def ensured_def set_chain_def split: prod.splits option.splits)

lemma present_fold: "present canon x T \<Longrightarrow> present canon x (fold (ensured canon) ys T)"
  by (induction ys arbitrary: T) (simp_all add: present_ensured)

lemma fold_present: "\<forall>x \<in> set xs. present canon x T \<Longrightarrow> fold (ensured canon) xs T = T"
  by (induction xs) (simp_all add: ensured_present)

lemma ensure_all_ok:
  assumes d: "documented nf view canon" and "ensure_all nf bin xs fw = (None, fw')"
  shows "view fw' = (view fw)(bin := fold (ensured canon) xs (view fw bin)) \<and> (\<forall>x \<in> set xs. present canon x (view fw' bin))"
  using assms(2)
proof (induction xs arbitrary: fw)
  case (Cons x xs)
  obtain e fw1 where c: "ensureRule nf bin x fw = (e, fw1)" by fastforce
  with Cons.prems have e: "e = None" and r: "ensure_all nf bin xs fw1 = (None, fw')" by (cases e; simp)+
  note k = ensureRule_ok [OF d c [unfolded e]]
  have v: "view fw' = (view fw)(bin := fold (ensured canon) (x # xs) (view fw bin))"
    using Cons.IH [OF r] unfolding k(1) by (simp only: fun_upd_same fun_upd_upd fold_simps)
  have "present canon x (view fw' bin)"
    using present_fold [OF k(2), of xs] unfolding v k(1) by simp
  moreover have "\<forall>y \<in> set xs. present canon y (view fw' bin)" using Cons.IH [OF r] by blast
  ultimately have "\<forall>y \<in> set (x # xs). present canon y (view fw' bin)" by simp
  with v show ?case by (rule conjI)
qed simp

text \<open>Ensuring rules only appends, and only those rules.\<close>

definition extends_by :: "(string \<times> string \<times> rule) set \<Rightarrow> tables \<Rightarrow> tables \<Rightarrow> bool" where
  "extends_by R T T' \<longleftrightarrow> (\<forall>t c. T t c = None \<longrightarrow> T' t c = None)
     \<and> (\<forall>t c rs. T t c = Some rs \<longrightarrow> (\<exists>new. T' t c = Some (rs @ new) \<and> (\<forall>r \<in> set new. (t, c, r) \<in> R)))"

lemma extends_refl: "extends_by R T T"
  by (auto simp: extends_by_def)

lemma ensured_at:
  "ensured canon (t, c, r) T t' c' = (if t' = t \<and> c' = c
     then map_option (\<lambda>rs. if canon r \<in> set rs then rs else rs @ [canon r]) (T t c) else T t' c')"
  by (simp add: ensured_def set_chain_def split: option.split)

lemma extends_ensured:
  assumes "extends_by R T T'" and "(t, c, canon r) \<in> R"
  shows "extends_by R T (ensured canon (t, c, r) T')"
proof -
  have "\<exists>new. ensured canon (t, c, r) T' t' c' = Some (rs @ new) \<and> (\<forall>r \<in> set new. (t', c', r) \<in> R)"
    if T: "T t' c' = Some rs" for t' c' rs
  proof -
    obtain new where n: "T' t' c' = Some (rs @ new)" "\<forall>r \<in> set new. (t', c', r) \<in> R"
      using assms(1) T unfolding extends_by_def by blast
    show ?thesis
    proof (cases "t' = t \<and> c' = c \<and> canon r \<notin> set (rs @ new)")
      case True
      then show ?thesis using n assms(2) by (intro exI [of _ "new @ [canon r]"]) (simp add: ensured_at)
    next
      case False
      then show ?thesis using n by (intro exI [of _ new]) (auto simp: ensured_at)
    qed
  qed
  moreover have "ensured canon (t, c, r) T' t' c' = None" if "T t' c' = None" for t' c'
    using assms(1) that unfolding extends_by_def ensured_at by auto
  ultimately show ?thesis unfolding extends_by_def by blast
qed

lemma extends_fold:
  assumes "extends_by R T T'" and "\<forall>(t, c, r) \<in> set xs. (t, c, canon r) \<in> R"
  shows "extends_by R T (fold (ensured canon) xs T')"
  using assms
proof (induction xs arbitrary: T')
  case (Cons x xs)
  obtain t c r where x: "x = (t, c, r)" by (metis prod.exhaust)
  have "extends_by R T (ensured canon x T')" unfolding x by (rule extends_ensured [OF Cons.prems(1)]) (use Cons.prems(2) x in simp)
  from Cons.IH [OF this] Cons.prems(2) show ?case by simp
qed simp

lemma applyFamily_ok:
  assumes "documented nf view canon" and "applyFamily nf bin port fw = (None, fw')"
  shows "view fw' = (view fw)(bin := fold (ensured canon) (family_rules port) (view fw bin))"
    and "\<forall>x \<in> set (family_rules port). present canon x (view fw' bin)"
proof -
  have "ensure_all nf bin (family_rules port) fw = (None, fw')"
    using assms(2) by (simp add: applyFamily_def split: if_splits option.splits)
  from ensure_all_ok [OF assms(1) this]
  show "view fw' = (view fw)(bin := fold (ensured canon) (family_rules port) (view fw bin))"
    "\<forall>x \<in> set (family_rules port). present canon x (view fw' bin)" by blast+
qed

text \<open>The families \<^verbatim>\<open>Apply\<close> handles, with their ports.\<close>

definition families :: "NetworkRuntime \<Rightarrow> (string \<times> int) list" where
  "families rt = (''iptables'', nr_Port rt) #
     (case nr_IPv6 rt of None \<Rightarrow> [] | Some a \<Rightarrow> [(''ip6tables'', if ua_port a = 0 then nr_Port rt else ua_port a)])"

definition apply_view :: "(rule \<Rightarrow> rule) \<Rightarrow> string \<times> int \<Rightarrow> (string \<Rightarrow> tables) \<Rightarrow> string \<Rightarrow> tables" where
  "apply_view canon fam V = V(fst fam := fold (ensured canon) (family_rules (snd fam)) (V (fst fam)))"

lemma ipt_Apply_ok:
  assumes d: "documented nf view canon" and a: "ipt_Apply nf (Some rt) fw = (None, fw')"
  shows "view fw' = fold (apply_view canon) (families rt) (view fw)
    \<and> (\<forall>(bin, port) \<in> set (families rt). \<forall>x \<in> set (family_rules port). present canon x (view fw' bin))"
proof -
  obtain e fw1 where f4: "applyFamily nf ''iptables'' (nr_Port rt) fw = (e, fw1)" by fastforce
  with a have e: "e = None" by (cases e) (auto simp: ipt_Apply_def)
  note k4 = applyFamily_ok [OF d f4 [unfolded e]]
  show ?thesis
  proof (cases "nr_IPv6 rt")
    case None
    with a f4 e have "fw' = fw1" by (simp add: ipt_Apply_def)
    with k4 None show ?thesis by (simp add: families_def apply_view_def)
  next
    case (Some b)
    let ?p = "if ua_port b = 0 then nr_Port rt else ua_port b"
    have f6: "applyFamily nf ''ip6tables'' ?p fw1 = (None, fw')" using a f4 e Some by (simp add: ipt_Apply_def)
    note k6 = applyFamily_ok [OF d f6]
    have "view fw' ''iptables'' = view fw1 ''iptables''" unfolding k6(1) by simp
    moreover have "view fw' = fold (apply_view canon) (families rt) (view fw)"
      unfolding k6(1) k4(1) using Some by (simp add: families_def apply_view_def)
    ultimately show ?thesis using k4(2) k6(2) Some by (simp add: families_def)
  qed
qed

lemma apply_view_present:
  "\<forall>x \<in> set (family_rules (snd fam)). present canon x (V (fst fam)) \<Longrightarrow> apply_view canon fam V = V"
  by (simp add: apply_view_def fold_present)

lemma fold_apply_present:
  "\<forall>(bin, port) \<in> set fams. \<forall>x \<in> set (family_rules port). present canon x (V bin) \<Longrightarrow> fold (apply_view canon) fams V = V"
  by (induction fams) (auto simp: apply_view_present)

definition tunnel_rules :: "(rule \<Rightarrow> rule) \<Rightarrow> NetworkRuntime \<Rightarrow> (string \<times> string \<times> rule) set" where
  "tunnel_rules canon rt = {(t, c, canon r) | t c r. \<exists>(bin, port) \<in> set (families rt). (t, c, r) \<in> set (family_rules port)}"

lemma extends_apply:
  assumes "extends_by R T (V bin)" and "\<forall>(t, c, r) \<in> set (family_rules (snd fam)). (t, c, canon r) \<in> R"
  shows "extends_by R T (apply_view canon fam V bin)"
  using assms extends_fold [OF assms(1,2)] by (cases "bin = fst fam") (simp_all add: apply_view_def)

lemma extends_apply_all:
  assumes "extends_by R T (V bin)" and "\<forall>(b, port) \<in> set fams. \<forall>(t, c, r) \<in> set (family_rules port). (t, c, canon r) \<in> R"
  shows "extends_by R T (fold (apply_view canon) fams V bin)"
  using assms
proof (induction fams arbitrary: V)
  case (Cons fam fams)
  have "\<forall>(t, c, r) \<in> set (family_rules (snd fam)). (t, c, canon r) \<in> R" using Cons.prems(2) by (cases fam) simp
  then have "extends_by R T (apply_view canon fam V bin)" using extends_apply [where V = V] Cons.prems(1) by blast
  from Cons.IH [of "apply_view canon fam V", OF this] Cons.prems(2) show ?case by simp
qed simp

section \<open>Removing rules\<close>

text \<open>The listing: one line per rule, chain by chain; other lines (policies, chains) do not begin with \<^verbatim>\<open>-A\<close>.\<close>

definition rule_line :: "string \<Rightarrow> rule \<Rightarrow> string" where
  "rule_line c r = join_with (CHR '' '') (''-A'' # c # r)"

definition mentions :: "string \<Rightarrow> rule \<Rightarrow> bool" where
  "mentions c r = contains (rule_line c r) comment"

text \<open>
  The fields of the rules that carry the comment have no blanks, as those the code writes; every
  rule is printed on one line without surrounding blanks.
\<close>

definition plain_rule :: "string \<Rightarrow> rule \<Rightarrow> bool" where
  "plain_rule c r \<longleftrightarrow> r \<noteq> [] \<and> (\<forall>f \<in> set (c # r). f \<noteq> [] \<and> list_all graphic f)"

definition tidy_rule :: "string \<Rightarrow> rule \<Rightarrow> bool" where
  "tidy_rule c r \<longleftrightarrow> (mentions c r \<longrightarrow> plain_rule c r) \<and> newline \<notin> set (rule_line c r) \<and> trim_space (rule_line c r) = rule_line c r"

definition tidy :: "tables \<Rightarrow> bool" where
  "tidy T \<longleftrightarrow> (\<forall>t c rs r. T t c = Some rs \<longrightarrow> r \<in> set rs \<longrightarrow> tidy_rule c r)"

definition lists_rules :: "'fw netfilter \<Rightarrow> ('fw \<Rightarrow> string \<Rightarrow> tables) \<Rightarrow> bool" where
  "lists_rules nf view \<longleftrightarrow> (\<forall>bin t fw out fw'. nf_run nf bin (ipt_args (ListRules t)) fw = ((None, out), fw') \<longrightarrow>
     tidy (view fw bin) \<longrightarrow> (\<exists>cs. distinct cs \<and> set cs = dom (view fw bin t)
        \<and> filter (\<lambda>l. has_prefix l ''-A '') (map trim_space (split_on newline out))
            = concat (map (\<lambda>c. map (rule_line c) (the (view fw bin t c))) cs)))"

definition cleaned :: "string list \<Rightarrow> tables \<Rightarrow> tables" where
  "cleaned ts T = (\<lambda>t c. if t \<in> set ts then map_option (filter (\<lambda>r. \<not> mentions c r)) (T t c) else T t c)"

lemma strip_one_head: "graphic c \<Longrightarrow> strip_one space_runes (c # s) = None"
proof -
  assume g: "graphic c"
  have "strip_one ps (c # s) = None" if "list_all (\<lambda>p. p \<noteq> [] \<longrightarrow> hd p \<noteq> c) ps" for ps
    using that by (induction ps) (auto simp: take_Cons split: nat.splits)
  moreover have "list_all (\<lambda>p. p \<noteq> [] \<longrightarrow> hd p \<noteq> c) space_runes"
    using g by (auto simp: space_runes_def graphic_def)
  ultimately show ?thesis by blast
qed

lemma fields_from_graphic: "list_all graphic s \<Longrightarrow> fields_from cur (s @ t) = fields_from (rev s @ cur) t"
proof (induction s arbitrary: cur)
  case (Cons c s)
  then show ?case using strip_one_head [of c "s @ t"] by (subst fields_from.simps) simp
qed simp

lemma fields_join:
  assumes "ws \<noteq> []" and "\<forall>w \<in> set ws. w \<noteq> [] \<and> list_all graphic w"
  shows "str_Fields (join_with (CHR '' '') ws) = ws"
proof -
  have sp: "strip_one space_runes (CHR '' '' # s) = Some s" for s by (simp add: space_runes_def)
  have "fields_from [] (join_with (CHR '' '') ws) = ws"
    using assms
  proof (induction "CHR '' ''" ws rule: join_with.induct)
    case (2 w)
    then show ?case using fields_from_graphic [of w "[]" "[]"] by (simp add: fields_from.simps [of _ "[]"] flush_field_def)
  next
    case (3 w v ws)
    have "fields_from (rev w) (CHR '' '' # join_with (CHR '' '') (v # ws)) = w # fields_from [] (join_with (CHR '' '') (v # ws))"
      using 3(3) by (subst fields_from.simps) (simp add: sp flush_field_def)
    then show ?case using 3 fields_from_graphic [of w "[]" "CHR '' '' # join_with (CHR '' '') (v # ws)"] by simp
  qed simp
  then show ?thesis by (simp add: str_Fields_def)
qed

text \<open>A line of the listing after trimming.\<close>

definition remove_trimmed :: "'fw netfilter \<Rightarrow> string \<Rightarrow> string \<Rightarrow> string \<Rightarrow> 'fw \<Rightarrow> 'fw" where
  "remove_trimmed nf bin table line fw =
     (if \<not> contains line comment \<or> length (str_Fields line) < 3 then fw
      else snd (nf_run nf bin (ipt_args (Delete table (str_Fields line ! 1) (drop 2 (str_Fields line)))) fw))"

lemma remove_line_trimmed:
  "remove_line nf bin t l fw = (if has_prefix (trim_space l) ''-A '' then remove_trimmed nf bin t (trim_space l) fw else fw)"
  by (simp add: remove_line_def remove_trimmed_def Let_def)

lemma fold_remove_trimmed:
  "fold (remove_line nf bin t) ls fw
     = fold (remove_trimmed nf bin t) (filter (\<lambda>l. has_prefix l ''-A '') (map trim_space ls)) fw"
  by (induction ls arbitrary: fw) (simp_all add: remove_line_trimmed)

lemma set_chain_same: "T t c = Some rs \<Longrightarrow> set_chain t c rs T = T"
  by (simp add: set_chain_def fun_upd_idem)

lemma set_chain_again: "set_chain t c a (set_chain t c b T) = set_chain t c a T"
  by (simp add: set_chain_def)

lemma remove_rule:
  assumes R: "reliable nf view canon" and V: "view fw bin t c = Some (ns @ r # ys)" and "canon r = r"
    and ns: "\<forall>x \<in> set ns. \<not> mentions c x" and p: "mentions c r \<longrightarrow> plain_rule c r"
  shows "view (remove_trimmed nf bin t (rule_line c r) fw) bin t c
      = Some (if mentions c r then ns @ ys else (ns @ [r]) @ ys)"
    and "view (remove_trimmed nf bin t (rule_line c r) fw)
      = (view fw)(bin := set_chain t c (if mentions c r then ns @ ys else (ns @ [r]) @ ys) (view fw bin))"
proof -
  let ?x = "if mentions c r then ns @ ys else (ns @ [r]) @ ys"
  have "view (remove_trimmed nf bin t (rule_line c r) fw) = (view fw)(bin := set_chain t c ?x (view fw bin))"
  proof (cases "mentions c r")
    case False
    have "set_chain t c (ns @ r # ys) (view fw bin) = view fw bin" using set_chain_same [of "view fw bin"] V by blast
    with False show ?thesis by (simp add: remove_trimmed_def mentions_def)
  next
    case True
    have f: "str_Fields (rule_line c r) = ''-A'' # c # r"
      unfolding rule_line_def by (rule fields_join) (use p [rule_format, OF True] in \<open>auto simp: plain_rule_def graphic_def\<close>)
    have len: "\<not> length (str_Fields (rule_line c r)) < 3"
      using p [rule_format, OF True] unfolding f plain_rule_def by (cases r) simp_all
    have "r \<notin> set ns" using True ns by blast
    then have eff: "ipt_effect canon (Delete t c r) (view fw bin) = Some (set_chain t c (ns @ ys) (view fw bin))"
      using V \<open>canon r = r\<close> by (simp add: remove1_append)
    have rt: "remove_trimmed nf bin t (rule_line c r) fw = snd (nf_run nf bin (ipt_args (Delete t c r)) fw)"
      using True len by (simp add: remove_trimmed_def mentions_def f del: ipt_args.simps)
    show ?thesis unfolding rt run_reliable [OF R] eff using True by simp
  qed
  then show "view (remove_trimmed nf bin t (rule_line c r) fw) = (view fw)(bin := set_chain t c ?x (view fw bin))"
    "view (remove_trimmed nf bin t (rule_line c r) fw) bin t c = Some ?x"
    by (simp_all add: set_chain_def)
qed

lemma remove_chain:
  assumes R: "reliable nf view canon" and "view fw bin t c = Some (ns @ ys)" and "\<forall>x \<in> set ns. \<not> mentions c x"
    and "\<forall>r \<in> set ys. canon r = r \<and> (mentions c r \<longrightarrow> plain_rule c r)"
  shows "view (fold (remove_trimmed nf bin t) (map (rule_line c) ys) fw)
      = (view fw)(bin := set_chain t c (ns @ filter (\<lambda>r. \<not> mentions c r) ys) (view fw bin))"
  using assms(2-)
proof (induction ys arbitrary: ns fw)
  case Nil
  then show ?case by (simp add: set_chain_same)
next
  case (Cons r ys)
  let ?fw = "remove_trimmed nf bin t (rule_line c r) fw"
  have pr: "canon r = r" "mentions c r \<longrightarrow> plain_rule c r" using Cons.prems(3) by simp_all
  note rm = remove_rule [OF R Cons.prems(1) pr(1) Cons.prems(2) pr(2)]
  have ys: "\<forall>r \<in> set ys. canon r = r \<and> (mentions c r \<longrightarrow> plain_rule c r)" using Cons.prems(3) by simp
  have nsr: "\<not> mentions c r \<Longrightarrow> \<forall>x \<in> set (ns @ [r]). \<not> mentions c x" using Cons.prems(2) by simp
  let ?X = "ns @ filter (\<lambda>r. \<not> mentions c r) (r # ys)"
  have "view (fold (remove_trimmed nf bin t) (map (rule_line c) ys) ?fw) = (view ?fw)(bin := set_chain t c ?X (view ?fw bin))"
  proof (cases "mentions c r")
    case True
    have v1: "view ?fw bin t c = Some (ns @ ys)" using rm(1) True by simp
    have X: "?X = ns @ filter (\<lambda>r. \<not> mentions c r) ys" using True by simp
    from v1 show ?thesis unfolding X by (rule Cons.IH [OF _ Cons.prems(2) ys])
  next
    case False
    have v1: "view ?fw bin t c = Some ((ns @ [r]) @ ys)" using rm(1) False by simp
    have X: "?X = (ns @ [r]) @ filter (\<lambda>r. \<not> mentions c r) ys" using False by simp
    from v1 show ?thesis unfolding X by (rule Cons.IH [OF _ nsr [OF False] ys])
  qed
  also have "\<dots> = (view fw)(bin := set_chain t c ?X (view fw bin))"
    unfolding rm(2) fun_upd_same fun_upd_upd set_chain_again ..
  finally show ?case by simp
qed

lemma remove_chains:
  assumes R: "reliable nf view canon" and "distinct cs" and "set cs \<subseteq> dom (view fw bin t)"
    and "\<forall>c \<in> set cs. \<forall>r \<in> set (the (view fw bin t c)). canon r = r \<and> (mentions c r \<longrightarrow> plain_rule c r)"
  shows "view (fold (remove_trimmed nf bin t) (concat (map (\<lambda>c. map (rule_line c) (the (view fw bin t c))) cs)) fw)
    = (view fw)(bin := (view fw bin)(t := (\<lambda>c. if c \<in> set cs then map_option (filter (\<lambda>r. \<not> mentions c r)) (view fw bin t c)
         else view fw bin t c)))"
  using assms(2-)
proof (induction cs arbitrary: fw)
  case Nil
  then show ?case by simp
next
  case (Cons c cs)
  obtain rs where rs: "view fw bin t c = Some rs" using Cons.prems(2) by auto
  let ?fw = "fold (remove_trimmed nf bin t) (map (rule_line c) rs) fw"
  have v: "view ?fw = (view fw)(bin := set_chain t c (filter (\<lambda>r. \<not> mentions c r) rs) (view fw bin))"
    using remove_chain [OF R, of fw bin t c "[]" rs] rs Cons.prems(3) by simp
  have old: "view ?fw bin t d = view fw bin t d" if "d \<noteq> c" for d using that by (simp add: v set_chain_def)
  have ne: "d \<noteq> c" if "d \<in> set cs" for d using that Cons.prems(1) by auto
  have lines: "concat (map (\<lambda>c. map (rule_line c) (the (view fw bin t c))) cs)
      = concat (map (\<lambda>c. map (rule_line c) (the (view ?fw bin t c))) cs)"
    by (intro arg_cong [where f = concat] map_cong) (simp_all only: old [OF ne])
  have "set cs \<subseteq> dom (view ?fw bin t)" using Cons.prems(2) old [OF ne] by (auto simp: dom_def)
  moreover have "\<forall>d \<in> set cs. \<forall>r \<in> set (the (view ?fw bin t d)). canon r = r \<and> (mentions d r \<longrightarrow> plain_rule d r)"
    using Cons.prems(3) old [OF ne] by simp
  moreover have "distinct cs" using Cons.prems(1) by simp
  ultimately have IH: "view (fold (remove_trimmed nf bin t) (concat (map (\<lambda>c. map (rule_line c) (the (view ?fw bin t c))) cs)) ?fw)
    = (view ?fw)(bin := (view ?fw bin)(t := (\<lambda>c. if c \<in> set cs then map_option (filter (\<lambda>r. \<not> mentions c r)) (view ?fw bin t c)
         else view ?fw bin t c)))"
    by (intro Cons.IH)
  have "view (fold (remove_trimmed nf bin t) (concat (map (\<lambda>c. map (rule_line c) (the (view fw bin t c))) (c # cs))) fw)
      = view (fold (remove_trimmed nf bin t) (concat (map (\<lambda>c. map (rule_line c) (the (view ?fw bin t c))) cs)) ?fw)"
    using rs by (simp add: lines [symmetric])
  then show ?case
    unfolding IH using rs Cons.prems(1) by (auto simp: v set_chain_def fun_eq_iff)
qed

lemma remove_table_view:
  assumes R: "reliable nf view canon" and L: "lists_rules nf view" and T: "tidy (view fw bin)"
  shows "view (remove_table nf bin t fw) = (view fw)(bin := cleaned [t] (view fw bin))"
proof -
  have d: "documented nf view canon" using R by (simp add: reliable_def)
  obtain e out fw1 where r: "nf_run nf bin (ipt_args (ListRules t)) fw = ((e, out), fw1)" by (metis prod.exhaust)
  have e: "e = None" using R r unfolding reliable_def by fastforce
  have v: "view fw1 = view fw" using run_reliable [OF R, of bin "ListRules t" fw] r by simp
  obtain cs where cs: "distinct cs" "set cs = dom (view fw bin t)"
    "filter (\<lambda>l. has_prefix l ''-A '') (map trim_space (split_on newline out))
       = concat (map (\<lambda>c. map (rule_line c) (the (view fw bin t c))) cs)"
    using L r e T unfolding lists_rules_def by blast
  have ok: "\<forall>c \<in> set cs. \<forall>r \<in> set (the (view fw1 bin t c)). canon r = r \<and> (mentions c r \<longrightarrow> plain_rule c r)"
  proof (intro ballI)
    fix c r assume c: "c \<in> set cs" and r: "r \<in> set (the (view fw1 bin t c))"
    then obtain rs where rs: "view fw bin t c = Some rs" using cs(2) by auto
    then show "canon r = r \<and> (mentions c r \<longrightarrow> plain_rule c r)"
      using r v d T unfolding documented_def tidy_def tidy_rule_def by (metis option.sel)
  qed
  have rt: "remove_table nf bin t fw = fold (remove_trimmed nf bin t)
      (concat (map (\<lambda>c. map (rule_line c) (the (view fw bin t c))) cs)) fw1"
    using r e cs(3) by (simp add: remove_table_def fold_remove_trimmed)
  have sub: "set cs \<subseteq> dom (view fw1 bin t)" unfolding v using cs(2) by simp
  note rm = remove_chains [OF R cs(1) sub ok, unfolded v]
  have "(view fw bin)(t := (\<lambda>c. if c \<in> set cs then map_option (filter (\<lambda>r. \<not> mentions c r)) (view fw bin t c)
      else view fw bin t c)) = cleaned [t] (view fw bin)"
    using cs(2) by (auto simp: cleaned_def fun_eq_iff)
  with rm show ?thesis unfolding rt by (simp only:)
qed

lemma tidy_cleaned: "tidy T \<Longrightarrow> tidy (cleaned ts T)"
  by (auto simp: tidy_def cleaned_def split: if_splits)

lemma tidy_extends:
  assumes "extends_by R T T'" and "tidy T" and "\<forall>(t, c, r) \<in> R. tidy_rule c r"
  shows "tidy T'"
  unfolding tidy_def
proof (intro allI impI)
  fix t c rs r
  assume t': "T' t c = Some rs" "r \<in> set rs"
  then obtain rs0 where "T t c = Some rs0" using assms(1) by (cases "T t c") (auto simp: extends_by_def)
  moreover from this obtain new where "rs = rs0 @ new" "\<forall>r \<in> set new. (t, c, r) \<in> R"
    using assms(1) t'(1) unfolding extends_by_def by fastforce
  ultimately show "tidy_rule c r" using assms(2,3) t'(2) unfolding tidy_def by fastforce
qed

lemma cleaned_cleaned: "cleaned [a] (cleaned [b] T) = cleaned [b, a] T"
  by (auto simp: cleaned_def fun_eq_iff option.map_comp comp_def)

lemma removeCommented_view:
  assumes "reliable nf view canon" and "lists_rules nf view" and "tidy (view fw bin)"
  shows "view (removeCommented nf bin fw) = (view fw)(bin := cleaned [''raw'', ''mangle''] (view fw bin))"
proof -
  define raw mangle where "raw = ''raw''" and "mangle = ''mangle''"
  let ?fw = "remove_table nf bin raw fw"
  have v1: "view ?fw = (view fw)(bin := cleaned [raw] (view fw bin))" by (rule remove_table_view [OF assms])
  have b: "view ?fw bin = cleaned [raw] (view fw bin)" by (subst v1) (rule fun_upd_same)
  have t: "tidy (view ?fw bin)" by (subst b) (rule tidy_cleaned [OF assms(3)])
  have "view (remove_table nf bin mangle ?fw) = (view ?fw)(bin := cleaned [mangle] (view ?fw bin))"
    by (rule remove_table_view [OF assms(1,2) t])
  also have "\<dots> = (view fw)(bin := cleaned [raw, mangle] (view fw bin))"
    by (subst b) (simp only: v1 fun_upd_upd cleaned_cleaned)
  finally show ?thesis by (simp add: removeCommented_def raw_def mangle_def)
qed

lemma remove_two_views:
  assumes R: "reliable nf view canon" "lists_rules nf view" and t: "tidy (view fw a)" "tidy (view fw b)" and "a \<noteq> b"
  shows "view (removeCommented nf b (removeCommented nf a fw)) bin =
    (if bin = a \<or> bin = b then cleaned [''raw'', ''mangle''] (view fw bin) else view fw bin)"
proof -
  let ?fw = "removeCommented nf a fw"
  define cl where "cl = cleaned [''raw'', ''mangle'']"
  have v1: "view ?fw = (view fw)(a := cl (view fw a))" unfolding cl_def by (rule removeCommented_view [OF R t(1)])
  have b: "view ?fw b = view fw b" using \<open>a \<noteq> b\<close> by (subst v1) simp
  have t6: "tidy (view ?fw b)" by (subst b) (rule t(2))
  have "view (removeCommented nf b ?fw) = (view ?fw)(b := cl (view ?fw b))"
    unfolding cl_def by (rule removeCommented_view [OF R t6])
  also have "\<dots> = (view fw)(a := cl (view fw a), b := cl (view fw b))" by (subst b, subst v1) (rule refl)
  finally have "view (removeCommented nf b ?fw) bin = ((view fw)(a := cl (view fw a), b := cl (view fw b))) bin" by (rule fun_cong)
  also have "\<dots> = (if bin = a \<or> bin = b then cl (view fw bin) else view fw bin)" by simp
  finally show ?thesis unfolding cl_def .
qed

lemma ipt_Remove_view:
  assumes R: "reliable nf view canon" "lists_rules nf view"
    and t: "tidy (view fw ''iptables'')" "tidy (view fw ''ip6tables'')"
    and l: "nf_look nf ''iptables'' = None" "nf_look nf ''ip6tables'' = None"
  shows "view (ipt_Remove nf fw) bin =
    (if bin = ''iptables'' \<or> bin = ''ip6tables'' then cleaned [''raw'', ''mangle''] (view fw bin) else view fw bin)"
proof -
  have rm: "ipt_Remove nf fw = removeCommented nf ''ip6tables'' (removeCommented nf ''iptables'' fw)"
    using l by (simp add: ipt_Remove_def)
  have ne: "''iptables'' \<noteq> ''ip6tables''" by simp
  show ?thesis unfolding rm by (rule remove_two_views [where view = view and fw = fw and a = "''iptables''" and b = "''ip6tables''", OF R t ne])
qed

section \<open>The redirect chain\<close>

lemma rd_run_ok:
  assumes "documented nf view canon" and "rd_run nf cmd fw = (None, fw')"
  obtains T where "ipt_effect canon cmd (view fw ''iptables'') = Some T" and "view fw' = (view fw)(''iptables'' := T)"
proof -
  obtain out where "nf_run nf ''iptables'' (ipt_args cmd) fw = ((None, out), fw')"
    using assms(2) by (auto simp: rd_run_def split: prod.splits option.splits)
  from run_ok [OF assms(1) this] that show thesis by blast
qed

lemma rd_run_any:
  assumes d: "documented nf view canon"
  shows "view (snd (rd_run nf cmd fw)) = view fw
    \<or> (\<exists>T. ipt_effect canon cmd (view fw ''iptables'') = Some T \<and> view (snd (rd_run nf cmd fw)) = (view fw)(''iptables'' := T))"
proof -
  obtain e out fw' where r: "nf_run nf ''iptables'' (ipt_args cmd) fw = ((e, out), fw')" by (metis prod.exhaust)
  show ?thesis
  proof (cases e)
    case None
    then have k: "rd_run nf cmd fw = (None, fw')" using r by (simp add: rd_run_def del: ipt_args.simps)
    from rd_run_ok [OF d k] show ?thesis unfolding k snd_conv by blast
  next
    case (Some x)
    then have "snd (rd_run nf cmd fw) = fw'" using r by (simp add: rd_run_def del: ipt_args.simps)
    then show ?thesis using run_fail [OF d r [unfolded Some]] by simp
  qed
qed

lemma rd_run_reliable:
  assumes "reliable nf view canon"
  shows "view (snd (rd_run nf cmd fw)) = (case ipt_effect canon cmd (view fw ''iptables'') of
      None \<Rightarrow> view fw | Some T \<Rightarrow> (view fw)(''iptables'' := T))"
    and "fst (rd_run nf cmd fw) = None \<longleftrightarrow> ipt_effect canon cmd (view fw ''iptables'') \<noteq> None"
proof -
  obtain e out fw' where r: "nf_run nf ''iptables'' (ipt_args cmd) fw = ((e, out), fw')" by (metis prod.exhaust)
  have s: "snd (rd_run nf cmd fw) = fw'" "fst (rd_run nf cmd fw) = None \<longleftrightarrow> e = None"
    using r by (cases e; simp add: rd_run_def del: ipt_args.simps)+
  show "view (snd (rd_run nf cmd fw)) = (case ipt_effect canon cmd (view fw ''iptables'') of
      None \<Rightarrow> view fw | Some T \<Rightarrow> (view fw)(''iptables'' := T))"
    using run_reliable [OF assms, of "''iptables''" cmd fw] unfolding r s(1) snd_conv .
  show "fst (rd_run nf cmd fw) = None \<longleftrightarrow> ipt_effect canon cmd (view fw ''iptables'') \<noteq> None"
  proof
    assume "fst (rd_run nf cmd fw) = None"
    then have r0: "nf_run nf ''iptables'' (ipt_args cmd) fw = ((None, out), fw')" using r s(2) by simp
    have "documented nf view canon" using assms by (simp add: reliable_def)
    from run_ok [OF this r0] show "ipt_effect canon cmd (view fw ''iptables'') \<noteq> None" by blast
  next
    assume "ipt_effect canon cmd (view fw ''iptables'') \<noteq> None"
    then have "e = None" using assms r unfolding reliable_def by blast
    then show "fst (rd_run nf cmd fw) = None" using s(2) by simp
  qed
qed

lemma rd_append_all:
  assumes d: "documented nf view canon" and "rd_all nf (map (Append t c) rules) fw = (None, fw')"
    and "view fw ''iptables'' t c = Some rs"
  shows "view fw' = (view fw)(''iptables'' := set_chain t c (rs @ map canon rules) (view fw ''iptables''))"
  using assms(2,3)
proof (induction rules arbitrary: fw rs)
  case Nil
  then show ?case by (simp add: set_chain_same)
next
  case (Cons r rules)
  obtain e fw1 where a: "rd_run nf (Append t c r) fw = (e, fw1)" by fastforce
  with Cons.prems(1) have e: "e = None" and rest: "rd_all nf (map (Append t c) rules) fw1 = (None, fw')"
    by (cases e; simp)+
  have v1: "view fw1 = (view fw)(''iptables'' := set_chain t c (rs @ [canon r]) (view fw ''iptables''))"
  proof -
    obtain T where T: "ipt_effect canon (Append t c r) (view fw ''iptables'') = Some T" "view fw1 = (view fw)(''iptables'' := T)"
      by (rule rd_run_ok [OF d a [unfolded e]])
    have "T = set_chain t c (rs @ [canon r]) (view fw ''iptables'')" using T(1) Cons.prems(2) by simp
    then show ?thesis unfolding T(2) by (simp only:)
  qed
  have "view fw1 ''iptables'' t c = Some (rs @ [canon r])" unfolding v1 by (simp add: set_chain_def)
  note v2 = Cons.IH [OF rest this]
  show ?case unfolding v2 v1 fun_upd_same fun_upd_upd set_chain_again by simp
qed

text \<open>States that differ from \<open>fw\<close> in the IPv4 rules only.\<close>

definition differs :: "('fw \<Rightarrow> string \<Rightarrow> tables) \<Rightarrow> 'fw \<Rightarrow> tables \<Rightarrow> 'fw \<Rightarrow> bool" where
  "differs view fw T fw' \<longleftrightarrow> view fw' = (view fw)(''iptables'' := T)"

lemma differs_refl: "differs view fw (view fw ''iptables'') fw"
  by (simp add: differs_def)

lemma differs_at: "differs view fw T fw' \<Longrightarrow> view fw' ''iptables'' = T"
  by (simp add: differs_def)

lemma differs_step:
  "differs view fw T fw1 \<Longrightarrow> view fw2 = (view fw1)(''iptables'' := T') \<Longrightarrow> differs view fw T' fw2"
  by (simp add: differs_def)

lemma differs_run_ok:
  assumes "documented nf view canon" and "differs view fw T fw1" and "rd_run nf cmd fw1 = (None, fw2)"
  obtains T' where "ipt_effect canon cmd T = Some T'" and "differs view fw T' fw2"
proof -
  obtain T' where T': "ipt_effect canon cmd (view fw1 ''iptables'') = Some T'" "view fw2 = (view fw1)(''iptables'' := T')"
    by (rule rd_run_ok [OF assms(1,3)])
  have "ipt_effect canon cmd T = Some T'" using T'(1) differs_at [OF assms(2)] by simp
  with differs_step [OF assms(2) T'(2)] that show thesis by blast
qed

lemma differs_run_any:
  assumes "documented nf view canon" and "differs view fw T fw1"
  obtains T' where "T' = T \<or> ipt_effect canon cmd T = Some T'" and "differs view fw T' (snd (rd_run nf cmd fw1))"
  using rd_run_any [OF assms(1), of cmd fw1]
proof
  assume "view (snd (rd_run nf cmd fw1)) = view fw1"
  then have "differs view fw T (snd (rd_run nf cmd fw1))" using assms(2) by (simp add: differs_def)
  then show thesis using that by blast
next
  assume "\<exists>T'. ipt_effect canon cmd (view fw1 ''iptables'') = Some T' \<and> view (snd (rd_run nf cmd fw1)) = (view fw1)(''iptables'' := T')"
  then obtain T' where T': "ipt_effect canon cmd (view fw1 ''iptables'') = Some T'"
    "view (snd (rd_run nf cmd fw1)) = (view fw1)(''iptables'' := T')" by blast
  have "ipt_effect canon cmd T = Some T'" using T'(1) differs_at [OF assms(2)] by simp
  with differs_step [OF assms(2) T'(2)] that show thesis by blast
qed

lemma chain_not_prerouting: "chainName \<noteq> ''PREROUTING''"
  by (simp add: chainName_def)

definition redirected :: "(rule \<Rightarrow> rule) \<Rightarrow> RedirectConfig \<Rightarrow> rule list \<Rightarrow> tables \<Rightarrow> tables" where
  "redirected canon cfg pre T =
     set_chain ''nat'' ''PREROUTING'' (pre @ [canon hook_rule]) (set_chain ''nat'' chainName (map canon (chain_rules cfg)) T)"

lemma applyRules_ok:
  assumes d: "documented nf view canon" and a: "applyRules nf cfg fw = (None, fw')"
  obtains pre rs where "differs view fw (redirected canon cfg pre (view fw ''iptables'')) fw'"
    and "view fw ''iptables'' ''nat'' ''PREROUTING'' = Some rs" and "pre = rs \<or> pre = remove1 (canon hook_rule) rs"
proof -
  define nat where "nat = ''nat''"
  define prer where "prer = ''PREROUTING''"
  let ?T = "view fw ''iptables''"
  define fw1 where "fw1 = snd (rd_run nf (NewChain nat chainName) fw)"
  obtain T1 where T1: "T1 = ?T \<or> ipt_effect canon (NewChain nat chainName) ?T = Some T1" "differs view fw T1 fw1"
    unfolding fw1_def by (rule differs_run_any [OF d differs_refl [of view fw]])
  obtain e2 fw2 where f2: "rd_run nf (Flush nat chainName) fw1 = (e2, fw2)" by fastforce
  with a have e2: "e2 = None" by (cases e2) (auto simp: applyRules_def Let_def fw1_def nat_def)
  obtain T2 where T2: "ipt_effect canon (Flush nat chainName) T1 = Some T2" "differs view fw T2 fw2"
    by (rule differs_run_ok [OF d T1(2) f2 [unfolded e2]])
  have t2: "T2 = set_chain nat chainName [] ?T"
    using T1(1) T2(1) by (auto simp: set_chain_again split: option.splits if_splits)
  obtain e3 fw3 where f3: "rd_all nf (map (Append nat chainName) (chain_rules cfg)) fw2 = (e3, fw3)" by fastforce
  with a f2 e2 have e3: "e3 = None" by (cases e3) (auto simp: applyRules_def Let_def fw1_def nat_def)
  have c2: "view fw2 ''iptables'' nat chainName = Some []" using differs_at [OF T2(2)] t2 by (simp add: set_chain_def)
  define T3 where "T3 = set_chain nat chainName (map canon (chain_rules cfg)) ?T"
  have T3: "differs view fw T3 fw3"
    by (rule differs_step [OF T2(2)])
      (use rd_append_all [where view = view and fw = fw2, OF d f3 [unfolded e3] c2] differs_at [OF T2(2)] t2 in \<open>simp add: T3_def set_chain_again\<close>)
  define fw4 where "fw4 = snd (rd_run nf (Delete nat prer hook_rule) fw3)"
  obtain T4 where T4: "T4 = T3 \<or> ipt_effect canon (Delete nat prer hook_rule) T3 = Some T4" "differs view fw T4 fw4"
    unfolding fw4_def by (rule differs_run_any [OF d T3])
  have f5: "rd_run nf (Append nat prer hook_rule) fw4 = (None, fw')"
    using a f2 e2 f3 e3 by (simp add: applyRules_def Let_def fw1_def fw4_def nat_def prer_def)
  obtain T5 where T5: "ipt_effect canon (Append nat prer hook_rule) T4 = Some T5" "differs view fw T5 fw'"
    by (rule differs_run_ok [OF d T4(2) f5])
  have p3: "T3 nat prer = ?T nat prer" using chain_not_prerouting by (simp add: T3_def set_chain_def prer_def)
  obtain rs where rs: "?T nat prer = Some rs" using T4(1) T5(1) p3 by (auto split: option.splits if_splits)
  obtain pre where pre: "pre = rs \<or> pre = remove1 (canon hook_rule) rs" "T5 = set_chain nat prer (pre @ [canon hook_rule]) T3"
  proof -
    have "T5 = set_chain nat prer (rs @ [canon hook_rule]) T3
        \<or> T5 = set_chain nat prer (remove1 (canon hook_rule) rs @ [canon hook_rule]) T3"
      using T4(1) T5(1) p3 rs by (auto simp: set_chain_def split: option.splits if_splits)
    then show ?thesis using that by blast
  qed
  show thesis
    by (rule that [of pre rs]) (use T5(2) pre rs in \<open>simp_all add: redirected_def T3_def nat_def prer_def\<close>)
qed

section \<open>Matching\<close>

text \<open>
  What a rule matches and where it jumps, in the printed form; \<open>documented_match\<close> says what the manual
  says about \<^verbatim>\<open>-p tcp --dport port[:port] -j target\<close>. A chain acts by its first matching rule.
\<close>

record ipt_sem =
  sm_match :: "rule \<Rightarrow> int \<Rightarrow> bool"
  sm_jump :: "rule \<Rightarrow> string list"

definition port_match :: "string \<Rightarrow> int \<Rightarrow> bool" where
  "port_match spec p =
     (case map atoi (split_on (CHR '':'') spec) of
        [Some a] \<Rightarrow> p = a
      | [Some lo, Some hi] \<Rightarrow> lo \<le> p \<and> p \<le> hi
      | _ \<Rightarrow> False)"

definition documented_match :: "(rule \<Rightarrow> rule) \<Rightarrow> ipt_sem \<Rightarrow> bool" where
  "documented_match canon sm \<longleftrightarrow> (\<forall>spec j p.
     sm_match sm (canon ([''-p'', ''tcp'', ''--dport'', spec, ''-j''] @ j)) p = port_match spec p
     \<and> sm_jump sm (canon ([''-p'', ''tcp'', ''--dport'', spec, ''-j''] @ j)) = j)"

fun chain_verdict :: "ipt_sem \<Rightarrow> rule list \<Rightarrow> int \<Rightarrow> string list option" where
  "chain_verdict sm [] p = None"
| "chain_verdict sm (r # rs) p =
     (if sm_match sm r p then (if sm_jump sm r = [''RETURN''] then None else Some (sm_jump sm r))
      else chain_verdict sm rs p)"

definition port_ok :: "int \<Rightarrow> bool" where
  "port_ok p \<longleftrightarrow> 1 \<le> p \<and> p \<le> 65535"

lemma port_match_itoa: "port_ok a \<Longrightarrow> port_match (itoa a) p \<longleftrightarrow> p = a"
  by (simp add: port_match_def split_on_free itoa_free is_digit_def port_ok_def int64_def)

lemma port_match_range:
  assumes "port_ok lo" and "port_ok hi"
  shows "port_match (range_spec (lo, hi)) p \<longleftrightarrow> lo \<le> p \<and> p \<le> hi"
proof (cases "hi = lo")
  case True
  then show ?thesis using port_match_itoa [OF assms(1), of p] by (auto simp: range_spec_def)
next
  case False
  have "split_on (CHR '':'') (itoa lo @ CHR '':'' # itoa hi) = [itoa lo, itoa hi]"
    by (subst split_on_append) (simp_all add: split_on_free itoa_free is_digit_def)
  with False assms show ?thesis by (simp add: range_spec_def port_match_def port_ok_def int64_def)
qed

lemma exclude_matches:
  assumes "documented_match canon sm" and "port_ok a"
  shows "sm_match sm (canon (exclude_rule a)) p \<longleftrightarrow> p = a" and "sm_jump sm (canon (exclude_rule a)) = [''RETURN'']"
  using assms(1) [unfolded documented_match_def, rule_format, of "itoa a" "[''RETURN'']" p] port_match_itoa [OF assms(2), of p]
  by (simp_all add: exclude_rule_def)

lemma range_matches:
  assumes "documented_match canon sm" and "port_ok lo" and "port_ok hi"
  shows "sm_match sm (canon (range_rule rp (lo, hi))) p \<longleftrightarrow> lo \<le> p \<and> p \<le> hi"
    and "sm_jump sm (canon (range_rule rp (lo, hi))) = [''REDIRECT'', ''--to-ports'', itoa rp]"
  using assms(1) [unfolded documented_match_def, rule_format, of "range_spec (lo, hi)" "[''REDIRECT'', ''--to-ports'', itoa rp]" p]
    port_match_range [OF assms(2,3), of p]
  by (simp_all add: range_rule_def)

lemma verdict_exclude:
  assumes "documented_match canon sm" and "\<forall>a \<in> set es. port_ok a"
  shows "chain_verdict sm (map canon (map exclude_rule es) @ rs) p = (if p \<in> set es then None else chain_verdict sm rs p)"
  using assms(2) by (induction es) (simp_all add: exclude_matches [OF assms(1)])

lemma verdict_ranges:
  assumes "documented_match canon sm" and "\<forall>(lo, hi) \<in> set rs. port_ok lo \<and> port_ok hi"
  shows "chain_verdict sm (map canon (map (range_rule rp) rs)) p =
    (if \<exists>(lo, hi) \<in> set rs. lo \<le> p \<and> p \<le> hi then Some [''REDIRECT'', ''--to-ports'', itoa rp] else None)"
  using assms(2)
proof (induction rs)
  case (Cons r rs)
  obtain lo hi where r: "r = (lo, hi)" by fastforce
  with Cons.prems have "port_ok lo" "port_ok hi" by simp_all
  from range_matches [OF assms(1) this] Cons r show ?case by simp
qed simp

lemma cleaned_extends:
  assumes x: "extends_by R T T'" and R: "\<forall>(t, c, r) \<in> R. t \<in> set ts \<and> mentions c r"
    and T: "\<forall>t \<in> set ts. \<forall>c rs. T t c = Some rs \<longrightarrow> (\<forall>r \<in> set rs. \<not> mentions c r)"
  shows "cleaned ts T' = T"
proof (intro ext)
  fix t c
  show "cleaned ts T' t c = T t c"
  proof (cases "T t c")
    case None
    then have "T' t c = None" using x by (simp add: extends_by_def)
    with None show ?thesis by (simp add: cleaned_def)
  next
    case (Some rs)
    then obtain new where n: "T' t c = Some (rs @ new)" "\<forall>r \<in> set new. (t, c, r) \<in> R"
      using x unfolding extends_by_def by blast
    show ?thesis
    proof (cases "t \<in> set ts")
      case True
      have "filter (\<lambda>r. \<not> mentions c r) new = []" using n(2) R by (fastforce simp: filter_empty_conv)
      moreover have "filter (\<lambda>r. \<not> mentions c r) rs = rs" using T True Some by (simp add: filter_id_conv)
      ultimately show ?thesis using True Some n(1) by (simp add: cleaned_def)
    next
      case False
      then have "new = []" using n(2) R by (cases new) auto
      then show ?thesis using False Some n(1) by (simp add: cleaned_def)
    qed
  qed
qed

lemma family_tables: "(t, c, r) \<in> set (family_rules port) \<Longrightarrow> t \<in> {''raw'', ''mangle''}"
  by (auto simp: family_rules_def Let_def)

section \<open>A rule table that behaves as documented\<close>

text \<open>Chains as association lists; rules are printed as they were given.\<close>

type_synonym toy_tables = "string \<Rightarrow> (string \<times> rule list) list"

definition toy_view :: "(string \<Rightarrow> toy_tables) \<Rightarrow> string \<Rightarrow> tables" where
  "toy_view fw = (\<lambda>bin t. map_of (fw bin t))"

fun toy_exec :: "ipt_cmd \<Rightarrow> toy_tables \<Rightarrow> toy_tables option" where
  "toy_exec (NewChain t c) A = (if map_of (A t) c = None then Some (A(t := AList.update c [] (A t))) else None)"
| "toy_exec (Flush t c) A = (case map_of (A t) c of None \<Rightarrow> None | Some rs \<Rightarrow> Some (A(t := AList.update c [] (A t))))"
| "toy_exec (Append t c r) A =
     (case map_of (A t) c of None \<Rightarrow> None | Some rs \<Rightarrow> Some (A(t := AList.update c (rs @ [r]) (A t))))"
| "toy_exec (Delete t c r) A =
     (case map_of (A t) c of None \<Rightarrow> None
      | Some rs \<Rightarrow> if r \<in> set rs then Some (A(t := AList.update c (remove1 r rs) (A t))) else None)"
| "toy_exec (Check t c r) A =
     (case map_of (A t) c of None \<Rightarrow> None | Some rs \<Rightarrow> if r \<in> set rs then Some A else None)"
| "toy_exec (DropChain t c) A =
     (case map_of (A t) c of Some [] \<Rightarrow> Some (A(t := AList.delete c (A t))) | _ \<Rightarrow> None)"
| "toy_exec (ListRules t) A = Some A"

definition toy_lines :: "toy_tables \<Rightarrow> string \<Rightarrow> string list" where
  "toy_lines A t = concat (map (\<lambda>c. map (rule_line c) (the (map_of (A t) c))) (remdups (map fst (A t))))"

definition toy_listing :: "toy_tables \<Rightarrow> string \<Rightarrow> string" where
  "toy_listing A t = (if toy_lines A t = [] then [] else join_with newline (toy_lines A t))"

definition toy_parse :: "string list \<Rightarrow> ipt_cmd option" where
  "toy_parse args =
     (if length args < 3 then None
      else (let t = args ! 1; op = args ! 2; c = args ! 3; r = drop 4 args
            in if op = ''-N'' then Some (NewChain t c) else if op = ''-F'' then Some (Flush t c)
               else if op = ''-A'' then Some (Append t c r) else if op = ''-D'' then Some (Delete t c r)
               else if op = ''-C'' then Some (Check t c r) else if op = ''-X'' then Some (DropChain t c)
               else if op = ''-S'' then Some (ListRules t) else None))"

definition toy_run :: "string \<Rightarrow> string list \<Rightarrow> (string \<Rightarrow> toy_tables) \<Rightarrow> (error option \<times> string) \<times> (string \<Rightarrow> toy_tables)" where
  "toy_run bin args fw =
     (case toy_parse args of
        None \<Rightarrow> ((Some (Ext ''usage''), []), fw)
      | Some cmd \<Rightarrow>
          (case toy_exec cmd (fw bin) of
             None \<Rightarrow> ((Some (Ext ''exit status 1''), []), fw)
           | Some A \<Rightarrow> ((None, case cmd of ListRules t \<Rightarrow> toy_listing A t | _ \<Rightarrow> []), fw(bin := A))))"

definition toy_nf :: "(string \<Rightarrow> toy_tables) netfilter" where
  "toy_nf = \<lparr>nf_look = (\<lambda>_. None), nf_run = toy_run\<rparr>"

lemma toy_parse_args: "toy_parse (ipt_args cmd) = Some cmd"
  by (cases cmd) (simp_all add: toy_parse_def)

lemma toy_exec_effect:
  "ipt_effect (\<lambda>r. r) cmd (\<lambda>t. map_of (A t)) = map_option (\<lambda>A t. map_of (A t)) (toy_exec cmd A)"
  by (cases cmd) (auto simp: set_chain_def update_conv' delete_conv' fun_eq_iff split: option.splits list.splits)

lemma toy_run_cmd:
  "toy_run bin (ipt_args cmd) fw = (case toy_exec cmd (fw bin) of
     None \<Rightarrow> ((Some (Ext ''exit status 1''), []), fw)
   | Some A \<Rightarrow> ((None, case cmd of ListRules t \<Rightarrow> toy_listing A t | _ \<Rightarrow> []), fw(bin := A)))"
  by (simp add: toy_run_def toy_parse_args del: ipt_args.simps)

lemma toy_reliable: "reliable toy_nf toy_view (\<lambda>r. r)"
proof -
  have run: "nf_run toy_nf = toy_run" by (simp add: toy_nf_def)
  have v: "toy_view fw bin = (\<lambda>t. map_of (fw bin t))" for fw bin by (simp add: toy_view_def)
  have up: "toy_view (fw(bin := A)) = (toy_view fw)(bin := (\<lambda>t. map_of (A t)))" for fw bin A
    by (auto simp: toy_view_def fun_eq_iff)
  have "(e \<noteq> None \<longrightarrow> toy_view fw' = toy_view fw)
      \<and> (e = None \<longrightarrow> (\<exists>T. ipt_effect (\<lambda>r. r) cmd (toy_view fw bin) = Some T \<and> toy_view fw' = (toy_view fw)(bin := T)))
      \<and> (ipt_effect (\<lambda>r. r) cmd (toy_view fw bin) \<noteq> None \<longrightarrow> e = None)"
    if r: "toy_run bin (ipt_args cmd) fw = ((e, out), fw')" for bin cmd fw e out fw'
  proof (cases "toy_exec cmd (fw bin)")
    case None
    with r have "e \<noteq> None" "fw' = fw" by (auto simp: toy_run_cmd simp del: ipt_args.simps)
    with None show ?thesis by (simp add: v toy_exec_effect)
  next
    case (Some A)
    with r have "e = None" "fw' = fw(bin := A)" by (auto simp: toy_run_cmd simp del: ipt_args.simps)
    with Some show ?thesis by (simp add: v toy_exec_effect up)
  qed
  then show ?thesis unfolding reliable_def documented_def run by blast
qed

lemma toy_lists: "lists_rules toy_nf toy_view"
  unfolding lists_rules_def
proof (intro allI impI)
  fix bin t fw out fw'
  assume r: "nf_run toy_nf bin (ipt_args (ListRules t)) fw = ((None, out), fw')" and T: "tidy (toy_view fw bin)"
  let ?cs = "remdups (map fst (fw bin t))" and ?ls = "toy_lines (fw bin) t"
  have out: "out = toy_listing (fw bin) t"
    using r toy_run_cmd [of bin "ListRules t" fw] by (simp add: toy_nf_def)
  have ok: "newline \<notin> set l \<and> trim_space l = l \<and> has_prefix l ''-A ''" if "l \<in> set ?ls" for l
  proof -
    obtain c r where l: "l = rule_line c r" "c \<in> fst ` set (fw bin t)" "r \<in> set (the (map_of (fw bin t) c))"
      using \<open>l \<in> set ?ls\<close> by (auto simp: toy_lines_def)
    have "c \<in> dom (map_of (fw bin t))" unfolding dom_map_of_conv_image_fst by (rule l(2))
    then obtain rs where "toy_view fw bin t c = Some rs" "r \<in> set rs" using l(3) by (auto simp: toy_view_def)
    then have "newline \<notin> set l \<and> trim_space l = l" using T l(1) unfolding tidy_def tidy_rule_def by blast
    moreover have "has_prefix l ''-A ''" unfolding l(1) rule_line_def by (simp add: has_prefix_def)
    ultimately show ?thesis by blast
  qed
  have "filter (\<lambda>l. has_prefix l ''-A '') (map trim_space (split_on newline out)) = ?ls"
  proof (cases "?ls = []")
    case True
    have "trim_space [] = []" by code_simp
    with True show ?thesis by (simp add: out toy_listing_def has_prefix_def)
  next
    case False
    then have "split_on newline out = ?ls" unfolding out toy_listing_def using ok by (simp add: split_on_join)
    moreover have "map trim_space ?ls = ?ls" using ok by (simp add: map_idI)
    moreover have "filter (\<lambda>l. has_prefix l ''-A '') ?ls = ?ls" using ok by (simp add: filter_id_conv)
    ultimately show ?thesis by simp
  qed
  moreover have "set ?cs = dom (toy_view fw bin t)" by (simp add: toy_view_def dom_map_of_conv_image_fst)
  ultimately show "\<exists>cs. distinct cs \<and> set cs = dom (toy_view fw bin t)
      \<and> filter (\<lambda>l. has_prefix l ''-A '') (map trim_space (split_on newline out))
          = concat (map (\<lambda>c. map (rule_line c) (the (toy_view fw bin t c))) cs)"
    by (intro exI [of _ ?cs]) (simp add: toy_lines_def toy_view_def)
qed

definition toy_sem :: ipt_sem where
  "toy_sem = \<lparr>sm_match = (\<lambda>r p. 3 < length r \<and> port_match (r ! 3) p), sm_jump = drop 5\<rparr>"

lemma toy_sem_documented: "documented_match (\<lambda>r. r) toy_sem"
  by (simp add: documented_match_def toy_sem_def)

definition toy_fw :: "string \<Rightarrow> toy_tables" where
  "toy_fw = (\<lambda>bin t. if t = ''nat'' then [(''PREROUTING'', [])]
     else [(''PREROUTING'', [[''-j'', ''ACCEPT'']]), (''OUTPUT'', [])])"

definition toy_redirect :: RedirectConfig where
  "toy_redirect = \<lparr>rc_RedirectPort = 999, rc_TargetHost = ''127.0.0.1'', rc_PortRanges = [(80, 80), (100, 200)],
     rc_Exclude = [22, 150], rc_BindUpstream = []\<rparr>"

definition toy_rt :: NetworkRuntime where
  "toy_rt = \<lparr>nr_Interface = \<lparr>if_Name = ''eth0'', if_HardwareAddr = []\<rparr>, nr_IPv4 = \<lparr>ua_ip = [10, 0, 0, 2], ua_port = 443\<rparr>,
     nr_RouterMAC = [], nr_IPv6 = None, nr_IPv6RouterMAC = [], nr_Port = 443, nr_LocalFlags = [], nr_RemoteFlags = [], nr_Sockbuf = 0\<rparr>"

section \<open>Starting and stopping the redirect\<close>

lemma differs_run_reliable:
  assumes "reliable nf view canon" and "differs view fw T fw1" and "ipt_effect canon cmd T = Some T'"
  shows "fst (rd_run nf cmd fw1) = None" and "differs view fw T' (snd (rd_run nf cmd fw1))"
proof -
  have e: "ipt_effect canon cmd (view fw1 ''iptables'') = Some T'" using differs_at [OF assms(2)] assms(3) by simp
  then show "fst (rd_run nf cmd fw1) = None" using rd_run_reliable(2) [OF assms(1), of cmd fw1] by simp
  have "view (snd (rd_run nf cmd fw1)) = (view fw1)(''iptables'' := T')"
    using rd_run_reliable(1) [OF assms(1), of cmd fw1] unfolding e by simp
  then show "differs view fw T' (snd (rd_run nf cmd fw1))" by (rule differs_step [OF assms(2)])
qed

lemma rd_append_all_succeeds:
  assumes R: "reliable nf view canon" and "differs view fw T fw1" and "T t c \<noteq> None"
  shows "fst (rd_all nf (map (Append t c) rules) fw1) = None"
  using assms(2,3)
proof (induction rules arbitrary: fw1 T)
  case (Cons r rules)
  obtain rs where rs: "T t c = Some rs" using Cons.prems(2) by blast
  then have "ipt_effect canon (Append t c r) T = Some (set_chain t c (rs @ [canon r]) T)" by simp
  note d = differs_run_reliable [OF R Cons.prems(1) this]
  obtain fw2 where run: "rd_run nf (Append t c r) fw1 = (None, fw2)" using d(1) by (metis prod.collapse)
  have "set_chain t c (rs @ [canon r]) T t c \<noteq> None" by (simp add: set_chain_def)
  from Cons.IH [of "set_chain t c (rs @ [canon r]) T" fw2, OF _ this] d(2) run show ?case by simp
qed simp

lemma applyRules_succeeds:
  assumes R: "reliable nf view canon" and new: "view fw ''iptables'' ''nat'' chainName = None"
    and pre: "view fw ''iptables'' ''nat'' ''PREROUTING'' = Some rs" and hook: "canon hook_rule \<notin> set rs"
  shows "\<exists>fw'. applyRules nf cfg fw = (None, fw') \<and> differs view fw (redirected canon cfg rs (view fw ''iptables'')) fw'"
proof -
  have d: "documented nf view canon" using R by (simp add: reliable_def)
  let ?T = "view fw ''iptables''"
  define fw1 where "fw1 = snd (rd_run nf (NewChain ''nat'' chainName) fw)"
  let ?T1 = "set_chain ''nat'' chainName [] ?T"
  have d1: "differs view fw ?T1 fw1"
    unfolding fw1_def by (rule differs_run_reliable(2) [OF R differs_refl [of view fw]]) (use new in simp)
  have e2: "ipt_effect canon (Flush ''nat'' chainName) ?T1 = Some ?T1" by (simp add: set_chain_def)
  note d2 = differs_run_reliable [OF R d1 e2]
  obtain fw2 where f2: "rd_run nf (Flush ''nat'' chainName) fw1 = (None, fw2)" using d2(1) by (metis prod.collapse)
  have d2': "differs view fw ?T1 fw2" using d2(2) f2 by simp
  have "?T1 ''nat'' chainName \<noteq> None" by (simp add: set_chain_def)
  from rd_append_all_succeeds [OF R d2' this, of "chain_rules cfg"]
  obtain fw3 where f3: "rd_all nf (map (Append ''nat'' chainName) (chain_rules cfg)) fw2 = (None, fw3)" by (metis prod.collapse)
  have c2: "view fw2 ''iptables'' ''nat'' chainName = Some []" using differs_at [OF d2'] by (simp add: set_chain_def)
  let ?T3 = "set_chain ''nat'' chainName (map canon (chain_rules cfg)) ?T"
  have d3: "differs view fw ?T3 fw3"
    by (rule differs_step [OF d2'])
      (use rd_append_all [where view = view and fw = fw2, OF d f3 c2] differs_at [OF d2'] in \<open>simp add: set_chain_again\<close>)
  have p3: "?T3 ''nat'' ''PREROUTING'' = Some rs" using pre chain_not_prerouting by (simp add: set_chain_def)
  define fw4 where "fw4 = snd (rd_run nf (Delete ''nat'' ''PREROUTING'' hook_rule) fw3)"
  have "ipt_effect canon (Delete ''nat'' ''PREROUTING'' hook_rule) ?T3 = None" using p3 hook by simp
  then have "view fw4 = view fw3"
    unfolding fw4_def using rd_run_reliable(1) [OF R, of "Delete ''nat'' ''PREROUTING'' hook_rule" fw3] differs_at [OF d3] by simp
  then have d4: "differs view fw ?T3 fw4" using d3 by (simp add: differs_def)
  have e5: "ipt_effect canon (Append ''nat'' ''PREROUTING'' hook_rule) ?T3 = Some (redirected canon cfg rs ?T)"
    using p3 by (simp add: redirected_def)
  note d5 = differs_run_reliable [OF R d4 e5]
  have "applyRules nf cfg fw = rd_run nf (Append ''nat'' ''PREROUTING'' hook_rule) fw4"
    using f2 f3 by (simp add: applyRules_def Let_def fw1_def fw4_def)
  with d5 show ?thesis by (metis prod.collapse)
qed

lemma set_chain_at: "set_chain t c rs T t' c' = (if t' = t \<and> c' = c then Some rs else T t' c')"
  by (simp add: set_chain_def)

lemma removeRules_undoes:
  assumes R: "reliable nf view canon" and d: "differs view fw (redirected canon cfg rs (view fw ''iptables'')) fw'"
    and new: "view fw ''iptables'' ''nat'' chainName = None"
    and pre: "view fw ''iptables'' ''nat'' ''PREROUTING'' = Some rs" and hook: "canon hook_rule \<notin> set rs" and "rm_applied m"
  shows "view (snd (removeRules nf m fw')) = view fw"
proof -
  let ?T = "view fw ''iptables''" and ?R = "redirected canon cfg rs (view fw ''iptables'')"
  let ?T1 = "set_chain ''nat'' ''PREROUTING'' rs ?R"
  let ?T2 = "set_chain ''nat'' chainName [] ?T1"
  have e1: "ipt_effect canon (Delete ''nat'' ''PREROUTING'' hook_rule) ?R = Some ?T1"
    using hook by (simp add: redirected_def set_chain_def remove1_append)
  note d1 = differs_run_reliable(2) [OF R d e1]
  have e2: "ipt_effect canon (Flush ''nat'' chainName) ?T1 = Some ?T2"
    using chain_not_prerouting by (simp add: redirected_def set_chain_def)
  note d2 = differs_run_reliable(2) [OF R d1 e2]
  have e3: "ipt_effect canon (DropChain ''nat'' chainName) ?T2 = Some ?T"
  proof -
    have "(?T2(''nat'' := (?T2 ''nat'')(chainName := None))) t c = ?T t c" for t c
      using new pre chain_not_prerouting
      by (auto simp: redirected_def set_chain_at)
    then have "?T2(''nat'' := (?T2 ''nat'')(chainName := None)) = ?T" by (intro ext)
    then show ?thesis by (simp add: set_chain_def)
  qed
  note d3 = differs_run_reliable(2) [OF R d2 e3]
  then show ?thesis using \<open>rm_applied m\<close> by (simp add: removeRules_def differs_def)
qed

lemma tunnel_rules_mem:
  "\<forall>(b, port) \<in> set (families rt). \<forall>(t, c, r) \<in> set (family_rules port). (t, c, canon r) \<in> tunnel_rules canon rt"
  by (fastforce simp: tunnel_rules_def)

text \<open>
  What any number of installations, complete or cut short by an error, does to the rules \<open>V0\<close>: the
  two binaries' rules are extended by rules of \<open>R\<close> only, and nothing else changes.
\<close>

definition grown :: "(string \<times> string \<times> rule) set \<Rightarrow> (string \<Rightarrow> tables) \<Rightarrow> (string \<Rightarrow> tables) \<Rightarrow> bool" where
  "grown R V0 V \<longleftrightarrow> (\<forall>bin. if bin \<in> {''iptables'', ''ip6tables''} then extends_by R (V0 bin) (V bin) else V bin = V0 bin)"

lemma grown_refl: "grown R V V"
  by (simp add: grown_def extends_refl)

lemma extends_by_mono: "extends_by R T T' \<Longrightarrow> R \<subseteq> R' \<Longrightarrow> extends_by R' T T'"
  unfolding extends_by_def by (meson subset_iff)

lemma grown_mono: "grown R V0 V \<Longrightarrow> R \<subseteq> R' \<Longrightarrow> grown R' V0 V"
  unfolding grown_def by (metis extends_by_mono)

lemma ensureRule_fail:
  assumes d: "documented nf view canon" and e: "ensureRule nf bin tcr fw = (Some er, fw')"
  shows "view fw' = view fw"
proof -
  obtain t c r where tcr: "tcr = (t, c, r)" by (metis prod.exhaust)
  obtain e1 o1 fw1 where c1: "nf_run nf bin (ipt_args (Check t c r)) fw = ((e1, o1), fw1)" by (metis prod.exhaust)
  obtain e2 o2 fw2 where c2: "nf_run nf bin (ipt_args (Append t c r)) fw1 = ((e2, o2), fw2)" by (metis prod.exhaust)
  obtain x1 x2 where x: "e1 = Some x1" "e2 = Some x2" and "fw' = fw2"
    using e c1 c2 tcr by (cases e1; cases e2) (simp_all add: ensureRule_def del: ipt_args.simps)
  with run_fail [OF d c1 [unfolded x]] run_fail [OF d c2 [unfolded x]] show ?thesis by simp
qed

lemma ensureRule_grown:
  assumes d: "documented nf view canon" and e: "ensureRule nf bin (t, c, r) fw = (er, fw')"
    and R: "(t, c, canon r) \<in> R" and bin: "bin \<in> {''iptables'', ''ip6tables''}" and g: "grown R V0 (view fw)"
  shows "grown R V0 (view fw')"
proof (cases er)
  case None
  have x: "extends_by R (V0 bin) (ensured canon (t, c, r) (view fw bin))"
    
    by (rule extends_ensured) (use g bin R in \<open>simp_all add: grown_def\<close>)
  show ?thesis unfolding ensureRule_ok(1) [OF d e [unfolded None]] using x g bin by (auto simp: grown_def)
qed (use ensureRule_fail [OF d] e g in metis)

lemma ensure_all_grown:
  assumes d: "documented nf view canon" and "ensure_all nf bin xs fw = (er, fw')"
    and "\<forall>(t, c, r) \<in> set xs. (t, c, canon r) \<in> R" and bin: "bin \<in> {''iptables'', ''ip6tables''}" and "grown R V0 (view fw)"
  shows "grown R V0 (view fw')"
  using assms(2,3,5)
proof (induction xs arbitrary: fw)
  case (Cons x xs)
  obtain t c r where x: "x = (t, c, r)" by (metis prod.exhaust)
  obtain e fw1 where c: "ensureRule nf bin (t, c, r) fw = (e, fw1)" by fastforce
  have "(t, c, canon r) \<in> R" using Cons.prems(2) x by simp
  from ensureRule_grown [OF d c this bin Cons.prems(3)] have "grown R V0 (view fw1)" .
  with Cons.IH [of fw1] Cons.prems(1,2) x c show ?case by (cases e) auto
qed simp

lemma applyFamily_grown:
  assumes "documented nf view canon" and "applyFamily nf bin port fw = (er, fw')"
    and "\<forall>(t, c, r) \<in> set (family_rules port). (t, c, canon r) \<in> R" and "bin \<in> {''iptables'', ''ip6tables''}" and "grown R V0 (view fw)"
  shows "grown R V0 (view fw')"
  using assms(2,5) ensure_all_grown [OF assms(1) _ assms(3,4)]
  by (auto simp: applyFamily_def split: if_splits option.splits)

lemma ipt_Apply_grown:
  assumes d: "documented nf view canon" and a: "ipt_Apply nf (Some rt) fw = (er, fw')"
    and R: "tunnel_rules canon rt \<subseteq> R" and g: "grown R V0 (view fw)"
  shows "grown R V0 (view fw')"
proof -
  have mem: "\<forall>(t, c, r) \<in> set (family_rules port). (t, c, canon r) \<in> R" if "(bin, port) \<in> set (families rt)" for bin port
    using tunnel_rules_mem [of rt canon] that R by blast
  obtain e fw1 where f4: "applyFamily nf ''iptables'' (nr_Port rt) fw = (e, fw1)" by fastforce
  have g1: "grown R V0 (view fw1)" by (rule applyFamily_grown [OF d f4 mem _ g]) (auto simp: families_def)
  show ?thesis
  proof (cases "e = None \<and> nr_IPv6 rt \<noteq> None")
    case True
    then obtain ad where ad: "nr_IPv6 rt = Some ad" by blast
    let ?port = "if ua_port ad = 0 then nr_Port rt else ua_port ad"
    have "applyFamily nf ''ip6tables'' ?port fw1 = (er, fw')" using a f4 True ad by (simp add: ipt_Apply_def)
    then show ?thesis by (rule applyFamily_grown [OF d _ mem [of "''ip6tables''"] _ g1]) (use ad in \<open>simp_all add: families_def\<close>)
  next
    case False
    then have "fw' = fw1" using a f4 by (auto simp: ipt_Apply_def split: option.splits)
    with g1 show ?thesis by simp
  qed
qed

text \<open>Removing the rules then gives back exactly the rules there were.\<close>

lemma remove_grown:
  assumes iptables: "reliable nf view canon" "lists_rules nf view"
    and found: "nf_look nf ''iptables'' = None" "nf_look nf ''ip6tables'' = None"
    and g: "grown R V0 (view fw1)"
    and R: "\<forall>(t, c, r) \<in> R. t \<in> {''raw'', ''mangle''} \<and> mentions c r \<and> tidy_rule c r"
    and clean: "\<forall>bin. \<forall>t \<in> {''raw'', ''mangle''}. \<forall>c rs. V0 bin t c = Some rs \<longrightarrow> (\<forall>r \<in> set rs. \<not> mentions c r)"
    and tidy: "tidy (V0 ''iptables'')" "tidy (V0 ''ip6tables'')"
  shows "view (ipt_Remove nf fw1) = V0"
proof
  fix bin
  have x: "extends_by R (V0 b) (view fw1 b)" if "b \<in> {''iptables'', ''ip6tables''}" for b using g that by (simp add: grown_def)
  have tr: "\<forall>(t, c, r) \<in> R. tidy_rule c r" using R by blast
  have td: "tidy (view fw1 ''iptables'')" "tidy (view fw1 ''ip6tables'')"
    by (rule tidy_extends [OF x tidy(1) tr], simp, rule tidy_extends [OF x tidy(2) tr], simp)
  note rv = ipt_Remove_view [where view = view and fw = fw1 and bin = bin, OF iptables td found]
  show "view (ipt_Remove nf fw1) bin = V0 bin"
  proof (cases "bin \<in> {''iptables'', ''ip6tables''}")
    case True
    have "\<forall>(t, c, r) \<in> R. t \<in> set [''raw'', ''mangle''] \<and> mentions c r" using R by auto
    moreover have "\<forall>t \<in> set [''raw'', ''mangle'']. \<forall>c rs. V0 bin t c = Some rs \<longrightarrow> (\<forall>r \<in> set rs. \<not> mentions c r)"
      using clean by simp
    ultimately have "cleaned [''raw'', ''mangle''] (view fw1 bin) = V0 bin" by (rule cleaned_extends [OF x [OF True]])
    with rv True show ?thesis by auto
  next
    case False
    with rv g show ?thesis by (auto simp: grown_def)
  qed
qed

lemma tunnel_rules_tables: "\<forall>(t, c, r) \<in> tunnel_rules canon rt. t \<in> {''raw'', ''mangle''}"
  using family_tables by (fastforce simp: tunnel_rules_def)

lemma toy_documented: "documented toy_nf toy_view (\<lambda>r. r)"
  using toy_reliable by (simp add: reliable_def)

definition toy_fw1 :: "string \<Rightarrow> toy_tables" where
  "toy_fw1 = snd (ipt_Apply toy_nf (Some toy_rt) toy_fw)"

lemma toy_applies:
  "ipt_Apply toy_nf (Some toy_rt) toy_fw = (None, toy_fw1)"
  "ipt_Apply toy_nf (Some toy_rt) toy_fw1 = (None, snd (ipt_Apply toy_nf (Some toy_rt) toy_fw1))"
proof -
  have "fst (ipt_Apply toy_nf (Some toy_rt) toy_fw) = None" "fst (ipt_Apply toy_nf (Some toy_rt) toy_fw1) = None"
    by code_simp+
  then show "ipt_Apply toy_nf (Some toy_rt) toy_fw = (None, toy_fw1)"
    "ipt_Apply toy_nf (Some toy_rt) toy_fw1 = (None, snd (ipt_Apply toy_nf (Some toy_rt) toy_fw1))"
    by (metis prod.collapse toy_fw1_def)+
qed

lemma toy_rules: "\<forall>(t, c, r) \<in> tunnel_rules (\<lambda>r. r) toy_rt. mentions c r \<and> tidy_rule c r"
proof -
  have "list_all (\<lambda>(t, c, r). mentions c r \<and> tidy_rule c r) (family_rules 443)" by code_simp
  moreover have "families toy_rt = [(''iptables'', 443)]" by (simp add: families_def toy_rt_def)
  ultimately show ?thesis by (auto simp: tunnel_rules_def list_all_iff)
qed

lemma toy_clean: "toy_view toy_fw bin t c = Some rs \<Longrightarrow> r \<in> set rs \<Longrightarrow> \<not> mentions c r \<and> tidy_rule c r"
proof -
  assume "toy_view toy_fw bin t c = Some rs" and "r \<in> set rs"
  then have "c = ''PREROUTING''" "r = [''-j'', ''ACCEPT'']" by (auto simp: toy_view_def toy_fw_def split: if_splits)
  moreover have "\<not> mentions ''PREROUTING'' [''-j'', ''ACCEPT'']" "tidy_rule ''PREROUTING'' [''-j'', ''ACCEPT'']" by code_simp+
  ultimately show ?thesis by simp
qed

section \<open>Properties\<close>

text \<open>C29. Setting up the tunnel port is exact and idempotent: when \<^verbatim>\<open>Apply\<close> succeeds, every rule for the
  IPv4 port and, if there is one, the IPv6 port is in its chain; nothing was removed or reordered
  and nothing but those rules was appended; and a second successful \<^verbatim>\<open>Apply\<close> changes nothing.\<close>

theorem apply_idempotent:
  assumes iptables: "documented nf view canon"
    and "ipt_Apply nf (Some rt) fw = (None, fw1)" and "ipt_Apply nf (Some rt) fw1 = (None, fw2)"
  shows "(\<forall>(bin, port) \<in> set (families rt). \<forall>x \<in> set (family_rules port). present canon x (view fw1 bin))
    \<and> (\<forall>bin. extends_by (tunnel_rules canon rt) (view fw bin) (view fw1 bin)) \<and> view fw2 = view fw1"
proof (intro conjI allI)
  note a = ipt_Apply_ok [OF iptables assms(2)]
  then show p: "\<forall>(bin, port) \<in> set (families rt). \<forall>x \<in> set (family_rules port). present canon x (view fw1 bin)" by blast
  show "extends_by (tunnel_rules canon rt) (view fw bin) (view fw1 bin)" for bin
  proof -
    from extends_apply_all [where V = "view fw" and bin = bin, OF extends_refl tunnel_rules_mem] show ?thesis using a by simp
  qed
  show "view fw2 = view fw1" using ipt_Apply_ok [OF iptables assms(3)] fold_apply_present [OF p] by simp
qed

theorem apply_idempotent_witness:
  "toy_view (snd (ipt_Apply toy_nf (Some toy_rt) toy_fw1)) = toy_view toy_fw1"
  using apply_idempotent [OF toy_documented toy_applies(1)] toy_applies(2) by blast

text \<open>The tunnel port leaves no trace: on a system where commands that can succeed do, and whose
  tables carried no rule of ours before, \<^verbatim>\<open>Remove\<close> after a successful \<^verbatim>\<open>Apply\<close> gives back exactly the
  rules there were, of both families and in the same order.\<close>

lemma apply_remove_roundtrip:
  assumes iptables: "reliable nf view canon" "lists_rules nf view"
    and found: "nf_look nf ''iptables'' = None" "nf_look nf ''ip6tables'' = None"
    and "ipt_Apply nf (Some rt) fw = (None, fw1)"
    and printed: "\<forall>(t, c, r) \<in> tunnel_rules canon rt. mentions c r \<and> tidy_rule c r"
    and clean: "\<forall>bin. \<forall>t \<in> {''raw'', ''mangle''}. \<forall>c rs. view fw bin t c = Some rs \<longrightarrow> (\<forall>r \<in> set rs. \<not> mentions c r)"
    and tidy: "tidy (view fw ''iptables'')" "tidy (view fw ''ip6tables'')"
  shows "view (ipt_Remove nf fw1) = view fw"
proof (rule remove_grown [OF iptables found _ _ clean tidy])
  have d: "documented nf view canon" using iptables(1) by (simp add: reliable_def)
  show "grown (tunnel_rules canon rt) (view fw) (view fw1)"
    by (rule ipt_Apply_grown [OF d assms(5) subset_refl grown_refl])
  show "\<forall>(t, c, r) \<in> tunnel_rules canon rt. t \<in> {''raw'', ''mangle''} \<and> mentions c r \<and> tidy_rule c r"
    using printed tunnel_rules_tables by blast
qed

text \<open>C28. The range redirect redirects exactly what it should: when the rules were applied, a TCP
  connection that reaches the redirect chain is sent to the redirect port if and only if its
  destination port lies in a configured range and is neither excluded nor the redirect port itself
  (so there is no redirection loop and no lock-out); the chain is hooked in at the end of
  \<^verbatim>\<open>PREROUTING\<close>, and no other chain and no other binary's rules change.\<close>

theorem redirect_exact:
  assumes iptables: "documented nf view canon" "documented_match canon sm"
    and "applyRules nf cfg fw = (None, fw')"
    and "\<forall>(lo, hi) \<in> set (rc_PortRanges cfg). port_ok lo \<and> port_ok hi"
    and "\<forall>p \<in> set (rc_Exclude cfg @ [rc_RedirectPort cfg]). port_ok p"
  shows "\<exists>rules pre. view fw' ''iptables'' ''nat'' chainName = Some rules
    \<and> view fw' ''iptables'' ''nat'' ''PREROUTING'' = Some (pre @ [canon hook_rule])
    \<and> (\<forall>p. chain_verdict sm rules p =
        (if p \<notin> set (rc_Exclude cfg) \<and> p \<noteq> rc_RedirectPort cfg \<and> (\<exists>(lo, hi) \<in> set (rc_PortRanges cfg). lo \<le> p \<and> p \<le> hi)
         then Some [''REDIRECT'', ''--to-ports'', itoa (rc_RedirectPort cfg)] else None))
    \<and> (\<forall>bin t c. bin \<noteq> ''iptables'' \<or> t \<noteq> ''nat'' \<or> c \<noteq> chainName \<and> c \<noteq> ''PREROUTING'' \<longrightarrow> view fw' bin t c = view fw bin t c)"
proof -
  obtain pre rs where pr: "differs view fw (redirected canon cfg pre (view fw ''iptables'')) fw'"
    by (rule applyRules_ok [OF iptables(1) assms(3)])
  let ?rules = "map canon (chain_rules cfg)"
  note at = pr [unfolded differs_def]
  have "view fw' ''iptables'' ''nat'' chainName = Some ?rules"
    unfolding at using chain_not_prerouting by (simp add: redirected_def set_chain_def)
  moreover have "view fw' ''iptables'' ''nat'' ''PREROUTING'' = Some (pre @ [canon hook_rule])"
    unfolding at by (simp add: redirected_def set_chain_def)
  moreover have "chain_verdict sm ?rules p =
      (if p \<notin> set (rc_Exclude cfg) \<and> p \<noteq> rc_RedirectPort cfg \<and> (\<exists>(lo, hi) \<in> set (rc_PortRanges cfg). lo \<le> p \<and> p \<le> hi)
       then Some [''REDIRECT'', ''--to-ports'', itoa (rc_RedirectPort cfg)] else None)" for p
    using verdict_exclude [OF iptables(2) assms(5), of "map canon (map (range_rule (rc_RedirectPort cfg)) (rc_PortRanges cfg))" p]
      verdict_ranges [OF iptables(2) assms(4), of "rc_RedirectPort cfg" p]
    by (simp add: chain_rules_def)
  moreover have "view fw' bin t c = view fw bin t c"
    if "bin \<noteq> ''iptables'' \<or> t \<noteq> ''nat'' \<or> c \<noteq> chainName \<and> c \<noteq> ''PREROUTING''" for bin t c
    unfolding at using that by (auto simp: redirected_def set_chain_def)
  ultimately show ?thesis by blast
qed

theorem redirect_exact_witness:
  "\<exists>fw' rules. applyRules toy_nf toy_redirect toy_fw = (None, fw') \<and> toy_view fw' ''iptables'' ''nat'' chainName = Some rules
    \<and> chain_verdict toy_sem rules 123 = Some [''REDIRECT'', ''--to-ports'', ''999''] \<and> chain_verdict toy_sem rules 150 = None"
proof -
  have "fst (applyRules toy_nf toy_redirect toy_fw) = None" by code_simp
  then obtain fw' where a: "applyRules toy_nf toy_redirect toy_fw = (None, fw')" by (metis prod.collapse)
  have "itoa 999 = ''999''" by code_simp
  moreover have "\<forall>(lo, hi) \<in> set (rc_PortRanges toy_redirect). port_ok lo \<and> port_ok hi"
    "\<forall>p \<in> set (rc_Exclude toy_redirect @ [rc_RedirectPort toy_redirect]). port_ok p"
    by (simp_all add: toy_redirect_def port_ok_def)
  note redirect_exact [where view = toy_view and fw' = fw', OF toy_documented toy_sem_documented a this]
  then obtain rules where "toy_view fw' ''iptables'' ''nat'' chainName = Some rules" and v: "\<And>p. chain_verdict toy_sem rules p =
        (if p \<notin> set (rc_Exclude toy_redirect) \<and> p \<noteq> rc_RedirectPort toy_redirect
            \<and> (\<exists>(lo, hi) \<in> set (rc_PortRanges toy_redirect). lo \<le> p \<and> p \<le> hi)
         then Some [''REDIRECT'', ''--to-ports'', itoa (rc_RedirectPort toy_redirect)] else None)" by blast
  ultimately show ?thesis using a v [of 123] v [of 150] by (simp add: toy_redirect_def)
qed

lemma rd_Start_undone:
  assumes iptables: "reliable nf view canon" and "view fw ''iptables'' ''nat'' chainName = None"
    and "view fw ''iptables'' ''nat'' ''PREROUTING'' = Some rs" and "canon hook_rule \<notin> set rs"
  shows "case rd_Start nf listen m cfg fw of (e, m', fw') \<Rightarrow>
     (if listen (rc_RedirectPort cfg) = None
      then e = None \<and> rm_applied m' \<and> rm_cfg m' = cfg \<and> view (snd (removeRules nf m' fw')) = view fw
      else e \<noteq> None \<and> \<not> rm_applied m' \<and> view fw' = view fw)"
proof -
  obtain fw' where a: "applyRules nf cfg fw = (None, fw')" "differs view fw (redirected canon cfg rs (view fw ''iptables'')) fw'"
    using applyRules_succeeds [where view = view and fw = fw, OF assms] by blast
  have u: "view (snd (removeRules nf m' fw')) = view fw" if "rm_applied m'" for m'
    by (rule removeRules_undoes [where view = view and fw = fw, OF assms(1) a(2) assms(2-4) that])
  show ?thesis
  proof (cases "listen (rc_RedirectPort cfg)")
    case None
    then show ?thesis using a(1) u by (simp add: rd_Start_def Let_def)
  next
    case (Some x)
    let ?m = "m\<lparr>rm_cfg := cfg, rm_applied := True\<rparr>"
    obtain m2 fw2 where r: "removeRules nf ?m fw' = (m2, fw2)" by (cases "removeRules nf ?m fw'")
    then have "\<not> rm_applied m2" by (auto simp: removeRules_def)
    moreover have "view fw2 = view fw" using u [of ?m] r by simp
    ultimately show ?thesis using a(1) Some r by (simp add: rd_Start_def Let_def)
  qed
qed

text \<open>The range redirect cleans up: on a system where commands that can succeed do, and where neither
  the chain nor the hook existed before, starting succeeds unless listening fails; stopping a
  started redirect gives back exactly the rules there were, and when listening fails they are
  given back at once.\<close>

lemma redirect_cleanup:
  assumes iptables: "reliable nf view canon" and "view fw ''iptables'' ''nat'' chainName = None"
    and "view fw ''iptables'' ''nat'' ''PREROUTING'' = Some rs" and "canon hook_rule \<notin> set rs"
  shows "case rd_Start nf listen m cfg fw of (e, m', fw') \<Rightarrow>
     (if listen (rc_RedirectPort cfg) = None
      then e = None \<and> rm_applied m' \<and> rm_cfg m' = cfg \<and> view (snd (removeRules nf m' fw')) = view fw
      else e \<noteq> None \<and> \<not> rm_applied m' \<and> view fw' = view fw)"
  by (rule rd_Start_undone [where view = view and fw = fw, OF assms])

end
