(* ===== verification/Redirect.thy ===== *)
theory Redirect
  imports Forward Firewall
begin

text \<open>
  The connections of \<^verbatim>\<open>internal/redirect\<close>: a connection the kernel redirected is carried to the
  configured host and the port it was meant for, which \<^verbatim>\<open>SO_ORIGINAL_DST\<close> tells. The rules are in
  \<open>Firewall\<close>.
\<close>

unbundle bit_operations_syntax

text \<open>
  \<open>raw\<close>, \<open>ctl\<close>: the errors of \<^verbatim>\<open>SyscallConn\<close> and \<^verbatim>\<open>Control\<close>; \<open>gs\<close>: what \<^verbatim>\<open>getsockopt\<close> gives, the sixteen
  bytes of \<^verbatim>\<open>Multiaddr\<close>, which hold a \<^verbatim>\<open>sockaddr_in\<close>.
\<close>

definition originalDst :: "error option \<Rightarrow> error option \<Rightarrow> byte list res \<Rightarrow> (ip \<times> int) res" where
  "originalDst raw ctl gs =
     (case raw of
        Some e \<Rightarrow> Inl e
      | None \<Rightarrow>
          (case ctl of
             Some e \<Rightarrow> Inl e
           | None \<Rightarrow>
               (case gs of
                  Inl e \<Rightarrow> Inl e
                | Inr a \<Rightarrow>
                    Inr (v4_prefix @ [a ! 4, a ! 5, a ! 6, a ! 7],
                         push_bit 8 (uint (a ! 2)) OR uint (a ! 3)))))"

definition rd_handle ::
  "env \<Rightarrow> RouteFn \<Rightarrow> RedirectConfig \<Rightarrow> handle \<Rightarrow> (ip \<times> int) res \<Rightarrow> splice_event list \<Rightarrow> Manager \<Rightarrow> world \<Rightarrow> Collector
     \<Rightarrow> tcp_end \<times> Manager \<times> world \<times> Collector" where
  "rd_handle env route cfg conn dst evs m w c =
     (case dst of
        Inl e \<Rightarrow> (NotOpened e, m, w, c)
      | Inr (_, port) \<Rightarrow>
          let target = join_host_port (rc_TargetHost cfg) (itoa port)
          in case route (rc_BindUpstream cfg) of
               None \<Rightarrow> (NoOpener, m, w, c)
             | Some opn \<Rightarrow> carry env (op_OpenTCP env opn) id id conn target evs m w c)"

text \<open>The goroutine of an accepted connection.\<close>

definition rd_conn ::
  "env \<Rightarrow> RouteFn \<Rightarrow> RedirectConfig \<Rightarrow> handle \<Rightarrow> (ip \<times> int) res \<Rightarrow> splice_event list \<Rightarrow> Manager \<Rightarrow> world \<Rightarrow> Collector
     \<Rightarrow> tcp_end \<times> Manager \<times> world \<times> Collector" where
  "rd_conn env route cfg conn dst evs m w c =
     (case rd_handle env route cfg conn dst evs m w c of
        (r, m1, w1, c1) \<Rightarrow> if r = StillOpen then (r, m1, w1, c1) else (r, m1, close_handle conn w1, c1))"

end
