(* ===== verification/Exit.thy ===== *)
theory Exit
  imports Relay Tunnelpool
begin

text \<open>
  A tunnel session on the exit: \<^verbatim>\<open>internal/tunnel/dgram.go\<close> (the hub that maps flow identifiers to UDP
  sockets) and the stream dispatch of \<^verbatim>\<open>internal/tunnel/server.go\<close>. One session runs many
  goroutines: the acceptor of streams, a handler per stream, the receive loop of the hub and a
  reader per flow; the step relation below lets each of them take its next step. The hub's lock
  makes each access to the flow table one step. A relay of one stream touches its own stream and
  socket only, so it is run to its end within the step of its handler.
\<close>

section \<open>The datagram hub\<close>

record dgramHub =
  hb_sess :: Session
  hb_flows :: "64 word \<rightharpoonup> handle"
  hb_nextID :: "64 word"

definition newDgramHub :: "Session \<Rightarrow> dgramHub" where
  "newDgramHub sess = \<lparr>hb_sess = sess, hb_flows = Map.empty, hb_nextID = 0\<rparr>"

text \<open>One datagram of \<^verbatim>\<open>recvLoop\<close>; the loop ends with the first receive error.\<close>

definition hub_dispatch :: "env \<Rightarrow> dgramHub \<Rightarrow> byte list \<Rightarrow> world \<Rightarrow> Collector \<Rightarrow> world \<times> Collector" where
  "hub_dispatch env h b w c =
     (case DecodeDatagram b of
        None \<Rightarrow> (w, c)
      | Some (flowID, payload) \<Rightarrow>
          (case hb_flows h flowID of
             None \<Rightarrow> (w, c)
           | Some conn \<Rightarrow>
               (case stream_write env conn w payload of
                  (None, w1) \<Rightarrow>
                    (w1, c\<lparr>mt_UDPDgramIn := mt_UDPDgramIn c + 1,
                           mt_BytesOut := mt_BytesOut c + of_nat (length payload)\<rparr>)
                | (Some e, w1) \<Rightarrow> (w1, c))))"

fun recvLoop :: "env \<Rightarrow> dgramHub \<Rightarrow> byte list res list \<Rightarrow> world \<Rightarrow> Collector \<Rightarrow> world \<times> Collector" where
  "recvLoop env h [] w c = (w, c)"
| "recvLoop env h (Inl e # rs) w c = (w, c)"
| "recvLoop env h (Inr b # rs) w c =
     (case hub_dispatch env h b w c of (w1, c1) \<Rightarrow> recvLoop env h rs w1 c1)"

definition openFlow ::
  "env \<Rightarrow> dgramHub \<Rightarrow> string \<Rightarrow> world \<Rightarrow> Collector \<Rightarrow> (64 word \<times> handle) res \<times> dgramHub \<times> world \<times> Collector" where
  "openFlow env h target w c =
     (case acquire env (NetDial ''udp'' target) None w of
        (Inl e, w1) \<Rightarrow> (Inl e, h, w1, IncError c)
      | (Inr conn, w1) \<Rightarrow>
          (let c1 = c\<lparr>mt_RelayUDP := mt_RelayUDP c + 1, mt_UDPDgramFlows := mt_UDPDgramFlows c + 1\<rparr>;
               flowID = hb_nextID h + 1
           in (Inr (flowID, conn), h\<lparr>hb_nextID := flowID, hb_flows := (hb_flows h)(flowID \<mapsto> conn)\<rparr>, w1, c1)))"

definition closeFlow :: "dgramHub \<Rightarrow> 64 word \<Rightarrow> world \<Rightarrow> dgramHub \<times> world" where
  "closeFlow h flowID w =
     (h\<lparr>hb_flows := (hb_flows h)(flowID := None)\<rparr>, close_opt (hb_flows h flowID) w)"

text \<open>One round of \<^verbatim>\<open>flowReadTargetToClient\<close>: \<open>True\<close> when the loop goes on.\<close>

definition flow_round ::
  "env \<Rightarrow> dgramHub \<Rightarrow> 64 word \<Rightarrow> byte list res \<Rightarrow> world \<Rightarrow> Collector \<Rightarrow> bool \<times> dgramHub \<times> world \<times> Collector" where
  "flow_round env h flowID r w c =
     (case r of
        Inl e \<Rightarrow> (case closeFlow h flowID w of (h1, w1) \<Rightarrow> (False, h1, w1, c))
      | Inr b \<Rightarrow>
          (let p = take udpBuf b; drop_it = c\<lparr>mt_UDPDgramDropped := mt_UDPDgramDropped c + 1\<rparr>
           in if length p > MaxDatagramPayload (hb_sess h) then (True, h, w, drop_it)
              else (case SendDatagram env (hb_sess h) (EncodeDatagram flowID p) w of
                      (Some e, w1) \<Rightarrow> (True, h, w1, drop_it)
                    | (None, w1) \<Rightarrow>
                        (True, h, w1, c\<lparr>mt_UDPDgramOut := mt_UDPDgramOut c + 1,
                                        mt_BytesIn := mt_BytesIn c + of_nat (length p)\<rparr>))))"

section \<open>Streams\<close>

text \<open>
  How a handler leaves the code modelled here: it has returned, its relay is still running, or it
  serves a datagram flow and waits for the end of its control stream.
\<close>

datatype handled = Returned | StillRelaying | FlowOpen "64 word" handle

definition finish :: "handle \<Rightarrow> 'a option \<times> world \<times> Collector \<Rightarrow> handled \<times> world \<times> Collector" where
  "finish strm r =
     (case r of
        (None, w, c) \<Rightarrow> (StillRelaying, w, c)
      | (Some _, w, c) \<Rightarrow> (Returned, close_handle strm w, c))"

definition handle_dgram ::
  "env \<Rightarrow> dgramHub option \<Rightarrow> handle \<Rightarrow> Addr option \<Rightarrow> world \<Rightarrow> Collector
     \<Rightarrow> handled \<times> dgramHub option \<times> world \<times> Collector" where
  "handle_dgram env hub strm addr w c =
     (case (hub, addr) of
        (Some h, Some a) \<Rightarrow>
          (case openFlow env h (addr_String a) w c of
             (Inl e, h1, w1, c1) \<Rightarrow> (Returned, Some h1, close_handle strm w1, c1)
           | (Inr (flowID, conn), h1, w1, c1) \<Rightarrow>
               (case stream_write env strm w1 (put_uint64 flowID) of
                  (Some e, w2) \<Rightarrow>
                    (case closeFlow h1 flowID w2 of (h2, w3) \<Rightarrow> (Returned, Some h2, close_handle strm w3, c1))
                | (None, w2) \<Rightarrow> (FlowOpen flowID conn, Some h1, w2, c1)))
      | _ \<Rightarrow> (Returned, hub, close_handle strm w, c))"

definition handleStream ::
  "env \<Rightarrow> Conn option \<Rightarrow> net_addr \<Rightarrow> dgramHub option \<Rightarrow> handle \<Rightarrow> splice_event list \<Rightarrow> udp_event list
     \<Rightarrow> world \<Rightarrow> Collector \<Rightarrow> handled \<times> Conn option \<times> dgramHub option \<times> world \<times> Collector" where
  "handleStream env pconn remote hub strm sevs uevs w c =
     (case e_dec env (e_input env strm w) of
        (Inl e, _) \<Rightarrow> (Returned, pconn, hub, close_handle strm w, c)
      | (Inr msg, rest) \<Rightarrow>
          if Type msg = Ping then
            (case msg_Write (e_enc env) (stream_write env strm) w (message Pong) of
               (_, w1) \<Rightarrow> (Returned, pconn, hub, close_handle strm w1, c))
          else if Type msg = TCPF then
            (Returned,
             (case pconn of
                Some p \<Rightarrow> Some (if MTCPF msg \<noteq> [] then SetRemoteTCPFlags p remote (MTCPF msg) else p)
              | None \<Rightarrow> None),
             hub, close_handle strm w, c)
          else if Type msg = TCP then
            (case MAddr msg of
               None \<Rightarrow> (Returned, pconn, hub, close_handle strm w, c)
             | Some a \<Rightarrow>
                 (case finish strm (relayTCP env strm (addr_String a) sevs w c) of
                    (r, w1, c1) \<Rightarrow> (r, pconn, hub, w1, c1)))
          else if Type msg = UDP then
            (case MAddr msg of
               None \<Rightarrow> (Returned, pconn, hub, close_handle strm w, c)
             | Some a \<Rightarrow>
                 (case finish strm (relayUDP env strm (addr_String a) rest uevs w c) of
                    (r, w1, c1) \<Rightarrow> (r, pconn, hub, w1, c1)))
          else if Type msg = UDPDGRAM then
            (case handle_dgram env hub strm (MAddr msg) w c of
               (r, hub1, w1, c1) \<Rightarrow> (r, pconn, hub1, w1, c1))
          else (Returned, pconn, hub, close_handle strm w, c))"

section \<open>A session as a transition system\<close>

text \<open>
  \<open>xs_handlers\<close>: the handlers waiting on the control stream of a flow, as stream, flow and socket;
  \<open>xs_readers\<close>: the flows whose reader runs.
\<close>

record exit_sys =
  xs_hub :: "dgramHub option"
  xs_pconn :: "Conn option"
  xs_handlers :: "(handle \<times> 64 word \<times> handle) list"
  xs_readers :: "64 word list"
  xs_w :: world
  xs_c :: Collector

definition remote_addr :: "env \<Rightarrow> Session \<Rightarrow> net_addr" where
  "remote_addr env sess = (case RemoteAddr env sess of None \<Rightarrow> OtherAddr | Some a \<Rightarrow> UDPAddr a)"

definition session_start :: "Session \<Rightarrow> Conn option \<Rightarrow> world \<Rightarrow> Collector \<Rightarrow> exit_sys" where
  "session_start sess pconn w c =
     \<lparr>xs_hub = (if DatagramsOK sess then Some (newDgramHub sess) else None), xs_pconn = pconn,
      xs_handlers = [], xs_readers = [], xs_w = w, xs_c = c\<rparr>"

inductive exit_step :: "env \<Rightarrow> Session \<Rightarrow> exit_sys \<Rightarrow> exit_sys \<Rightarrow> bool" for env sess where
  serve: "ss_Smux sess = Some sm \<Longrightarrow> acquire env (SmuxAcceptStream sm) (Some sm) (xs_w s) = (Inr strm, w1) \<Longrightarrow>
     handleStream env (xs_pconn s) (remote_addr env sess) (xs_hub s) strm sevs uevs w1 (xs_c s)
       = (Returned, pc, hub, w2, c) \<Longrightarrow>
     exit_step env sess s (s\<lparr>xs_pconn := pc, xs_hub := hub, xs_w := w2, xs_c := c\<rparr>)"
| serve_flow: "ss_Smux sess = Some sm \<Longrightarrow> acquire env (SmuxAcceptStream sm) (Some sm) (xs_w s) = (Inr strm, w1) \<Longrightarrow>
     handleStream env (xs_pconn s) (remote_addr env sess) (xs_hub s) strm sevs uevs w1 (xs_c s)
       = (FlowOpen f conn, pc, hub, w2, c) \<Longrightarrow>
     exit_step env sess s (s\<lparr>xs_pconn := pc, xs_hub := hub, xs_handlers := (strm, f, conn) # xs_handlers s,
                             xs_readers := f # xs_readers s, xs_w := w2, xs_c := c\<rparr>)"
| receive: "xs_hub s = Some h \<Longrightarrow> ReceiveDatagram env sess (xs_w s) = (Inr b, w1) \<Longrightarrow>
     hub_dispatch env h b w1 (xs_c s) = (w2, c) \<Longrightarrow> exit_step env sess s (s\<lparr>xs_w := w2, xs_c := c\<rparr>)"
| read: "xs_hub s = Some h \<Longrightarrow> f \<in> set (xs_readers s) \<Longrightarrow> flow_round env h f r (xs_w s) (xs_c s) = (go, h1, w1, c) \<Longrightarrow>
     exit_step env sess s (s\<lparr>xs_hub := Some h1, xs_readers := (if go then xs_readers s else remove1 f (xs_readers s)),
                             xs_w := w1, xs_c := c\<rparr>)"
| control_end: "xs_hub s = Some h \<Longrightarrow> (strm, f, conn) \<in> set (xs_handlers s) \<Longrightarrow> closeFlow h f (xs_w s) = (h1, w1) \<Longrightarrow>
     exit_step env sess s (s\<lparr>xs_hub := Some h1, xs_handlers := filter (\<lambda>x. x \<noteq> (strm, f, conn)) (xs_handlers s),
                             xs_w := close_handle strm w1\<rparr>)"

section \<open>Ledgers\<close>

text \<open>
  The open objects of a world, split at a handle \<open>n\<close>: the older ones are \<open>B\<close> and the handles of the
  newer ones \<open>F\<close>. Objects are owned by older ones only.
\<close>

definition ledger :: "handle \<Rightarrow> world \<Rightarrow> (handle \<times> handle option) list \<Rightarrow> handle set \<Rightarrow> bool" where
  "ledger n w B F \<longleftrightarrow> world_ok w \<and> n \<le> w_next w \<and> filter (\<lambda>x. fst x < n) (w_open w) = B
     \<and> fst ` set (w_open w) \<inter> {n..} = F \<and> (\<forall>x \<in> set (w_open w). \<forall>q. snd x = Some q \<longrightarrow> q < n)"

lemma ledger_ok: "ledger n w B F \<Longrightarrow> world_ok w" "ledger n w B F \<Longrightarrow> h \<in> F \<Longrightarrow> h < w_next w \<and> n \<le> h"
  by (auto simp: ledger_def world_ok_def)

lemma ledger_start: "world_ok w \<Longrightarrow> ledger (w_next w) w (w_open w) {}"
  by (force simp: ledger_def world_ok_def filter_id_conv)

lemma ledger_unchanged: "ledger n w B F \<Longrightarrow> unchanged w w' \<Longrightarrow> ledger n w' B F"
  by (auto simp: ledger_def unchanged_def)

lemma ledger_close:
  assumes "ledger n w B F" and "n \<le> h"
  shows "ledger n (close_handle h w) B (F - {h})"
proof -
  have own: "live {h} x \<longleftrightarrow> fst x \<noteq> h" if "x \<in> set (w_open w)" for x
    using assms that by (cases x) (force simp: ledger_def live_def)
  then have o: "w_open (close_handle h w) = filter (\<lambda>x. fst x \<noteq> h) (w_open w)"
    by (auto simp: close_handle_open intro: filter_cong)
  have "filter (\<lambda>x. fst x < n) (w_open (close_handle h w)) = filter (\<lambda>x. fst x < n) (w_open w)"
    unfolding o filter_filter by (rule filter_cong) (use assms(2) in auto)
  with assms(1) show ?thesis by (auto simp: ledger_def o)
qed

lemma ledger_acquire:
  assumes "ledger n w B F" and "acquire env c p w = (Inr h, w')" and "\<And>q. p = Some q \<Longrightarrow> q < n"
  shows "ledger n w' B (insert h F)" and "h \<notin> F" and "n \<le> h" and "h < w_next w'"
proof -
  note a = acquire_ok [OF assms(2)]
  have "\<And>q. p = Some q \<Longrightarrow> q < w_next w" using assms(1,3) by (fastforce simp: ledger_def)
  then have "world_ok w'" by (intro acquire_world_ok [OF _ assms(2)]) (use assms(1) in \<open>simp_all add: ledger_def\<close>)
  with assms(1,3) a show "ledger n w' B (insert h F)" by (auto simp: ledger_def)
  show "h \<notin> F" using ledger_ok(2) [OF assms(1), of h] a by auto
  show "n \<le> h" "h < w_next w'" using assms(1) a by (simp_all add: ledger_def)
qed

lemma ledger_write: "ledger n w B F \<Longrightarrow> h < w_next w \<Longrightarrow> stream_write env h w p = (r, w') \<Longrightarrow> ledger n w' B F"
  using stream_write_unchanged ledger_ok(1) ledger_unchanged by blast

lemma ledger_close_opt:
  "ledger n w B F \<Longrightarrow> (\<And>x. h = Some x \<Longrightarrow> n \<le> x) \<Longrightarrow> ledger n (close_opt h w) B (F - set_option h)"
  by (cases h) (simp_all add: ledger_close)

section \<open>The hub in a running session\<close>

text \<open>
  The invariant of a session, after at most \<open>k\<close> flows: what is open besides the objects \<open>B\<close> of the
  start are exactly the control streams of the waiting handlers and the sockets of the flow table;
  every flow has its handler; handlers have different flows, streams and sockets.
\<close>

definition hub_flows :: "dgramHub option \<Rightarrow> 64 word \<rightharpoonup> handle" where
  "hub_flows hub = (case hub of None \<Rightarrow> Map.empty | Some h \<Rightarrow> hb_flows h)"

definition hub_next :: "dgramHub option \<Rightarrow> 64 word" where
  "hub_next hub = (case hub of None \<Rightarrow> 0 | Some h \<Rightarrow> hb_nextID h)"

lemma hub_simps [simp]:
  "hub_flows None = Map.empty" "hub_flows (Some h) = hb_flows h" "hub_next None = 0" "hub_next (Some h) = hb_nextID h"
  by (simp_all add: hub_flows_def hub_next_def)

definition strms :: "(handle \<times> 64 word \<times> handle) list \<Rightarrow> handle set" where
  "strms hs = (\<lambda>(s, f, x). s) ` set hs"

definition handlers_ok :: "(handle \<times> 64 word \<times> handle) list \<Rightarrow> 64 word \<Rightarrow> bool" where
  "handlers_ok hs nx \<longleftrightarrow> distinct (map (\<lambda>(s, f, x). f) hs) \<and> distinct (map (\<lambda>(s, f, x). s) hs)
     \<and> (\<forall>(s, f, x) \<in> set hs. unat f \<le> unat nx)"

definition flows_owned :: "(64 word \<rightharpoonup> handle) \<Rightarrow> (handle \<times> 64 word \<times> handle) list \<Rightarrow> bool" where
  "flows_owned m hs \<longleftrightarrow> (\<forall>f x. m f = Some x \<longrightarrow> (\<exists>s. (s, f, x) \<in> set hs)) \<and> inj_on m (dom m) \<and> ran m \<inter> strms hs = {}"

definition exit_ok :: "handle \<Rightarrow> (handle \<times> handle option) list \<Rightarrow> nat \<Rightarrow> exit_sys \<Rightarrow> bool" where
  "exit_ok n B k s \<longleftrightarrow>
     ledger n (xs_w s) B (strms (xs_handlers s) \<union> ran (hub_flows (xs_hub s)))
     \<and> handlers_ok (xs_handlers s) (hub_next (xs_hub s))
     \<and> flows_owned (hub_flows (xs_hub s)) (xs_handlers s) \<and> unat (hub_next (xs_hub s)) \<le> k"

lemma next_fresh:
  assumes "handlers_ok hs nx" and "unat nx < 2 ^ 64 - 1"
  shows "(s, nx + 1, x) \<notin> set hs" and "unat (nx + 1) = unat nx + 1"
proof -
  have "unat nx + 1 < 2 ^ LENGTH(64)" using assms(2) by simp
  then show u: "unat (nx + 1) = unat nx + 1" by (simp add: unat_word_ariths)
  show "(s, nx + 1, x) \<notin> set hs" using assms(1) u by (force simp: handlers_ok_def)
qed

lemma owned_socket:
  assumes "ledger n w B (strms hs \<union> ran m)" and "flows_owned m hs" and "m f = Some x"
  shows "n \<le> x \<and> x \<notin> strms hs \<and> (\<forall>g. m g = Some x \<longrightarrow> g = f)"
proof -
  have x: "x \<in> ran m" using assms(3) by (rule ranI)
  have inj: "inj_on m (dom m)" and "ran m \<inter> strms hs = {}" using assms(2) by (simp_all add: flows_owned_def)
  then have "x \<notin> strms hs" using x by blast
  moreover have "n \<le> x" using ledger_ok(2) [OF assms(1)] x by blast
  moreover have "g = f" if g: "m g = Some x" for g
    using inj_onD [OF inj, of g f] g assms(3) by (simp add: dom_def)
  ultimately show ?thesis by blast
qed

text \<open>Closing a flow takes exactly its socket off the books.\<close>

lemma ran_remove:
  assumes "m f = Some x" and "\<forall>g. m g = Some x \<longrightarrow> g = f"
  shows "ran (m(f := None)) = ran m - {x}"
proof (intro set_eqI iffI)
  fix y assume "y \<in> ran m - {x}"
  then obtain g where "m g = Some y" "y \<noteq> x" by (auto simp: ran_def)
  then show "y \<in> ran (m(f := None))" using assms(1) by (intro ranI [of _ g]) auto
next
  fix y assume "y \<in> ran (m(f := None))"
  then obtain g where "m g = Some y" "g \<noteq> f" by (auto simp: ran_def split: if_splits)
  then show "y \<in> ran m - {x}" using assms(2) ranI [of m g y] by blast
qed

lemma closeFlow_ledger:
  assumes l: "ledger n w B (S \<union> ran (hb_flows h))" and c: "closeFlow h f w = (h', w')"
    and inj: "\<And>x. hb_flows h f = Some x \<Longrightarrow> n \<le> x \<and> x \<notin> S \<and> (\<forall>g. hb_flows h g = Some x \<longrightarrow> g = f)"
  shows "ledger n w' B (S \<union> ran (hb_flows h'))" and "hb_flows h' = (hb_flows h)(f := None)"
    and "hb_nextID h' = hb_nextID h" and "hb_sess h' = hb_sess h" and "w_next w' = w_next w"
proof -
  have h': "h' = h\<lparr>hb_flows := (hb_flows h)(f := None)\<rparr>" and w': "w' = close_opt (hb_flows h f) w"
    using c [symmetric] unfolding closeFlow_def prod.inject by (rule conjunct1, rule conjunct2)
  show "hb_flows h' = (hb_flows h)(f := None)" "hb_nextID h' = hb_nextID h" "hb_sess h' = hb_sess h" "w_next w' = w_next w"
    unfolding h' w' by simp_all
  show "ledger n w' B (S \<union> ran (hb_flows h'))"
  proof (cases "hb_flows h f")
    case None
    with l show ?thesis unfolding w' h' by (simp add: fun_upd_idem)
  next
    case (Some x)
    note i = inj [OF Some, THEN conjunct1] inj [OF Some, THEN conjunct2, THEN conjunct1] inj [OF Some, THEN conjunct2, THEN conjunct2]
    have r: "ran (hb_flows h') = ran (hb_flows h) - {x}"
      unfolding h' by (subst ran_remove [OF Some i(3), symmetric]) simp
    have "S \<union> ran (hb_flows h') = S \<union> ran (hb_flows h) - {x}" unfolding r using i(2) by blast
    with ledger_close [OF l i(1)] show ?thesis unfolding w' Some by simp
  qed
qed

lemma ledger_finish: "ledger n w B (insert h F) \<Longrightarrow> h \<notin> F \<Longrightarrow> n \<le> h \<Longrightarrow> ledger n (close_handle h w) B F"
  using ledger_close [of n w B "insert h F" h] by simp

lemma openFlow_ok:
  assumes "openFlow env h target w c = (Inr (f, conn), h', w', c')"
  shows "acquire env (NetDial ''udp'' target) None w = (Inr conn, w')" and "f = hb_nextID h + 1"
    and "hb_flows h' = (hb_flows h)(f \<mapsto> conn)" and "hb_nextID h' = f" and "hb_sess h' = hb_sess h"
  using assms by (auto simp: openFlow_def Let_def split: prod.splits sum.splits)

lemma openFlow_fail:
  assumes "openFlow env h target w c = (Inl e, h', w', c')"
  shows "acquire env (NetDial ''udp'' target) None w = (Inl e, w')" and "h' = h"
  using assms by (auto simp: openFlow_def Let_def split: prod.splits sum.splits)

text \<open>A flow that is being opened: its socket is on the books next to the control stream.\<close>

lemma openFlow_ledger:
  assumes o: "openFlow env h target w c = (Inr (f, conn), h', w', c')"
    and l: "ledger n w B (S \<union> ran (hb_flows h))" and fr: "hb_flows h (hb_nextID h + 1) = None"
  shows "ledger n w' B (S \<union> ran (hb_flows h'))" and "conn \<notin> S \<union> ran (hb_flows h)" and "n \<le> conn" and "w_next w \<le> w_next w'"
proof -
  note a = openFlow_ok [OF o]
  note la = ledger_acquire [OF l a(1)]
  have "ran (hb_flows h') = insert conn (ran (hb_flows h))" unfolding a(3) using fr a(2) by (simp add: ran_map_upd)
  with la show "ledger n w' B (S \<union> ran (hb_flows h'))" by simp
  show "conn \<notin> S \<union> ran (hb_flows h)" "n \<le> conn" using la by simp_all
  show "w_next w \<le> w_next w'" using acquire_ok [OF a(1)] by simp
qed

text \<open>The flow is taken back when its identifier cannot be sent.\<close>

lemma dgram_taken_back:
  assumes d: "handle_dgram env (Some h) strm (Some a) w c = (Returned, hub', w', c')"
    and o: "openFlow env h (addr_String a) w c = (Inr (f, conn), h1, w1, c1)"
    and l: "ledger n w B (insert strm S \<union> ran (hb_flows h))" and s: "strm \<notin> S \<union> ran (hb_flows h)" "n \<le> strm" "strm < w_next w"
    and fr: "hb_flows h (hb_nextID h + 1) = None"
  obtains h2 w3 where "hub' = Some h2" and "w' = close_handle strm w3" and "hb_flows h2 = hb_flows h" and "hb_nextID h2 = hb_nextID h + 1"
    and "ledger n w3 B (insert strm S \<union> ran (hb_flows h))"
proof -
  note ok = openFlow_ok [OF o]
  have l1: "ledger n w1 B (insert strm S \<union> ran (hb_flows h1))" and cn: "conn \<notin> insert strm S \<union> ran (hb_flows h)" "n \<le> conn"
    and w1: "w_next w \<le> w_next w1"
    using openFlow_ledger [OF o _ fr, of n B "insert strm S"] l by simp_all
  obtain q w2 where wr: "stream_write env strm w1 (put_uint64 f) = (q, w2)" by fastforce
  then obtain e where q: "q = Some e" using d o by (cases q) (auto simp: handle_dgram_def split: prod.splits)
  obtain h2 w3 where cl: "closeFlow h1 f w2 = (h2, w3)" by fastforce
  have res: "hub' = Some h2" "w' = close_handle strm w3" using d o wr q cl by (auto simp: handle_dgram_def)
  have l2: "ledger n w2 B (insert strm S \<union> ran (hb_flows h1))" using ledger_write [OF l1 _ wr] s(3) w1 by simp
  have inj: "n \<le> x \<and> x \<notin> insert strm S \<and> (\<forall>g. hb_flows h1 g = Some x \<longrightarrow> g = f)" if "hb_flows h1 f = Some x" for x
    using that cn by (auto simp: ok(3) ran_def)
  note c3 = closeFlow_ledger [OF l2 cl inj]
  have fl: "hb_flows h2 = hb_flows h" using c3(2) ok(2,3) fr by (simp add: fun_upd_idem)
  show thesis using that [OF res fl] c3(1,3) fl ok(2,4) by simp
qed

lemma handle_dgram_returned:
  assumes d: "handle_dgram env hub strm addr w c = (Returned, hub', w', c')"
    and l: "ledger n w B (insert strm S \<union> ran (hub_flows hub))" and s: "strm \<notin> S \<union> ran (hub_flows hub)" "n \<le> strm" "strm < w_next w"
    and fr: "hub_flows hub (hub_next hub + 1) = None"
  shows "ledger n w' B (S \<union> ran (hub_flows hub'))" and "hub_flows hub' = hub_flows hub"
    and "hub_next hub' = hub_next hub \<or> hub_next hub' = hub_next hub + 1" and "hub' = None \<longleftrightarrow> hub = None"
proof -
  have fin: "ledger n (close_handle strm w2) B (S \<union> ran (hub_flows hub))"
    if "ledger n w2 B (insert strm S \<union> ran (hub_flows hub))" for w2
    using that s by (intro ledger_finish) simp_all
  have "ledger n w' B (S \<union> ran (hub_flows hub)) \<and> hub_flows hub' = hub_flows hub
    \<and> (hub_next hub' = hub_next hub \<or> hub_next hub' = hub_next hub + 1) \<and> (hub' = None \<longleftrightarrow> hub = None)"
  proof (cases "hub = None \<or> addr = None")
    case True
    with d have "hub' = hub" "w' = close_handle strm w"
      by (auto simp: handle_dgram_def split: option.splits)
    with fin [OF l] show ?thesis by simp
  next
    case False
    then obtain h a where ha: "hub = Some h" "addr = Some a" by auto
    obtain r h1 w1 c1 where o: "openFlow env h (addr_String a) w c = (r, h1, w1, c1)" by (metis prod.exhaust)
    show ?thesis
    proof (cases r)
      case (Inl e)
      note f = openFlow_fail [OF o [unfolded Inl]]
      have "ledger n w1 B (insert strm S \<union> ran (hub_flows hub))"
        by (rule ledger_unchanged [OF l acquire_unchanged [OF ledger_ok(1) [OF l] f(1)]])
      moreover have "hub' = Some h" "w' = close_handle strm w1" using d ha o Inl f(2) by (auto simp: handle_dgram_def)
      ultimately show ?thesis using fin ha by simp
    next
      case (Inr y)
      obtain f conn where y: "y = (f, conn)" by fastforce
      note o = o [unfolded Inr y]
      obtain h2 w3 where "hub' = Some h2" "w' = close_handle strm w3" "hb_flows h2 = hb_flows h" "hb_nextID h2 = hb_nextID h + 1"
        "ledger n w3 B (insert strm S \<union> ran (hb_flows h))"
        by (rule dgram_taken_back [OF d [unfolded ha] o, of n B S]) (use l s fr ha in simp_all)
      with fin [of w3] ha show ?thesis by simp
    qed
  qed
  then show "ledger n w' B (S \<union> ran (hub_flows hub'))" "hub_flows hub' = hub_flows hub"
    "hub_next hub' = hub_next hub \<or> hub_next hub' = hub_next hub + 1" "hub' = None \<longleftrightarrow> hub = None" by auto
qed

lemma handle_dgram_open:
  assumes d: "handle_dgram env hub strm addr w c = (FlowOpen f conn, hub', w', c')"
    and l: "ledger n w B (insert strm S \<union> ran (hub_flows hub))" and s: "strm < w_next w"
    and fr: "hub_flows hub (hub_next hub + 1) = None"
  shows "ledger n w' B (insert strm S \<union> ran (hub_flows hub'))" and "hub_flows hub' = (hub_flows hub)(f \<mapsto> conn)"
    and "hub_next hub' = f" and "f = hub_next hub + 1" and "conn \<notin> insert strm S \<union> ran (hub_flows hub)" and "n \<le> conn"
    and "hub \<noteq> None" and "hub' \<noteq> None"
proof -
  obtain h a where ha: "hub = Some h" "addr = Some a"
    using d by (auto simp: handle_dgram_def split: option.splits)
  obtain r h1 w1 c1 where o0: "openFlow env h (addr_String a) w c = (r, h1, w1, c1)" by (metis prod.exhaust)
  then obtain y where r: "r = Inr y" using d ha by (cases r) (auto simp: handle_dgram_def)
  obtain f' conn' where y: "y = (f', conn')" by fastforce
  note o = o0 [unfolded r y]
  obtain q w2 where wr: "stream_write env strm w1 (put_uint64 f') = (q, w2)" by fastforce
  have q: "q = None" "f' = f" "conn' = conn" "hub' = Some h1" "w' = w2"
    using d ha o wr by (cases q; auto simp: handle_dgram_def split: prod.splits)+
  note o = o [unfolded q]
  note ok = openFlow_ok [OF o]
  have fr': "hb_flows h (hb_nextID h + 1) = None" using fr ha by simp
  note ol = openFlow_ledger [OF o _ fr', of n B "insert strm S"]
  have l1: "ledger n w1 B (insert strm S \<union> ran (hb_flows h1))" using ol(1) l ha by simp
  show "ledger n w' B (insert strm S \<union> ran (hub_flows hub'))"
    using ledger_write [OF l1 _ wr] s ol(4) l ha q by simp
  show "hub_flows hub' = (hub_flows hub)(f \<mapsto> conn)" "hub_next hub' = f" "f = hub_next hub + 1" "hub \<noteq> None" "hub' \<noteq> None"
    using ok ha q by simp_all
  show "conn \<notin> insert strm S \<union> ran (hub_flows hub)" "n \<le> conn" using ol(2,3) l ha by simp_all
qed

lemma finish_returned:
  assumes "finish strm (r, w1, c1) = (Returned, w', c')"
  shows "\<exists>x. r = Some x" and "w' = close_handle strm w1"
  using assms by (auto simp: finish_def split: option.splits)

lemma finish_not_open: "finish strm r \<noteq> (FlowOpen f conn, w', c')"
  by (auto simp: finish_def split: prod.splits option.splits)

text \<open>A stream that asked for anything but a datagram flow leaves the hub and the books as they were.\<close>

text \<open>A relay that has returned leaves only its stream to close.\<close>

lemma finish_relay:
  assumes "finish strm rl = (Returned, w', c')" and "\<And>q w1 c1. rl = (Some q, w1, c1) \<Longrightarrow> unchanged w w1"
  obtains w1 where "unchanged w w1" and "w' = close_handle strm w1"
proof -
  obtain q w1 c1 where rl: "rl = (q, w1, c1)" by (cases rl)
  note fr = finish_returned [OF assms(1) [unfolded rl]]
  from fr(1) assms(2) rl have "unchanged w w1" by blast
  then show thesis using fr(2) by (rule that)
qed

lemma handleStream_plain:
  assumes h: "handleStream env pc remote hub strm sevs uevs w c = (Returned, pc', hub', w', c')"
    and ok: "world_ok w" "strm < w_next w"
  obtains (plain) w1 where "unchanged w w1" and "w' = close_handle strm w1" and "hub' = hub"
    | (dgram) addr where "handle_dgram env hub strm addr w c = (Returned, hub', w', c')"
proof -
  obtain r rest where d: "e_dec env (e_input env strm w) = (r, rest)" by fastforce
  have refl: "unchanged w w" using ok(1) by (simp add: unchanged_def)
  show thesis
  proof (cases r)
    case (Inl e)
    with h d show thesis by (intro plain [OF refl]) (simp_all add: handleStream_def)
  next
    case (Inr msg)
    consider (ping) "Type msg = Ping" | (tcp) a where "Type msg \<noteq> Ping" "Type msg \<noteq> TCPF" "Type msg = TCP" "MAddr msg = Some a"
      | (udp) a where "Type msg \<noteq> Ping" "Type msg \<noteq> TCPF" "Type msg \<noteq> TCP" "Type msg = UDP" "MAddr msg = Some a"
      | (dg) "Type msg \<noteq> Ping" "Type msg \<noteq> TCPF" "Type msg \<noteq> TCP" "Type msg \<noteq> UDP" "Type msg = UDPDGRAM"
      | (other) "Type msg \<noteq> Ping" "Type msg = TCP \<or> Type msg = UDP \<Longrightarrow> MAddr msg = None" "Type msg = UDPDGRAM \<Longrightarrow> False"
          "Type msg = TCPF \<or> Type msg \<noteq> TCPF"
      by (cases "MAddr msg") (auto simp: msg_type_defs)
    then show thesis
    proof cases
      case ping
      obtain q w1 where wr: "stream_write env strm w (e_enc env (message Pong)) = (q, w1)" by fastforce
      from h d Inr ping wr have "w' = close_handle strm w1" "hub' = hub" by (simp_all add: handleStream_def msg_Write_def)
      with stream_write_unchanged [OF ok wr] show thesis by (rule plain)
    next
      case tcp
      with h d Inr have "finish strm (relayTCP env strm (addr_String a) sevs w c) = (Returned, w', c')" "hub' = hub"
        by (auto simp: handleStream_def split: prod.splits)
      then show thesis using relayTCP_unchanged [OF ok] by (elim finish_relay) (auto intro: plain)
    next
      case udp
      with h d Inr have "finish strm (relayUDP env strm (addr_String a) rest uevs w c) = (Returned, w', c')" "hub' = hub"
        by (auto simp: handleStream_def split: prod.splits)
      then show thesis using relayUDP_unchanged [OF ok] by (elim finish_relay) (auto intro: plain)
    next
      case dg
      obtain x hub1 w1 c1 where dgm: "handle_dgram env hub strm (MAddr msg) w c = (x, hub1, w1, c1)" by (metis prod.exhaust)
      from h d Inr dg dgm have "x = Returned" "hub1 = hub'" "w1 = w'" "c1 = c'" by (simp_all add: handleStream_def)
      with dgm show thesis using dgram by simp
    next
      case other
      with h d Inr have "w' = close_handle strm w" "hub' = hub"
        by (auto simp: handleStream_def split: if_splits option.splits)
      then show thesis by (rule plain [OF refl])
    qed
  qed
qed

lemma handleStream_flow:
  assumes h: "handleStream env pc remote hub strm sevs uevs w c = (FlowOpen f conn, pc', hub', w', c')"
  obtains addr where "handle_dgram env hub strm addr w c = (FlowOpen f conn, hub', w', c')"
proof -
  obtain r rest where d: "e_dec env (e_input env strm w) = (r, rest)" by fastforce
  then obtain msg where r: "r = Inr msg" using h by (cases r) (auto simp: handleStream_def)
  have "Type msg = UDPDGRAM"
    using h d r by (auto simp: handleStream_def finish_not_open split: if_splits option.splits prod.splits)
  then have "handle_dgram env hub strm (MAddr msg) w c = (FlowOpen f conn, hub', w', c')"
    using h d r by (auto simp: handleStream_def msg_type_defs split: prod.splits)
  then show thesis by (rule that)
qed

lemma handlers_ok_mono: "handlers_ok hs nx \<Longrightarrow> unat nx \<le> unat ny \<Longrightarrow> handlers_ok hs ny"
  by (fastforce simp: handlers_ok_def)

lemma flow_free:
  assumes "handlers_ok hs nx" and "flows_owned m hs" and "unat nx < 2 ^ 64 - 1"
  shows "m (nx + 1) = None"
proof (rule ccontr)
  assume "m (nx + 1) \<noteq> None"
  then obtain s x where "(s, nx + 1, x) \<in> set hs" using assms(2) unfolding flows_owned_def by blast
  with next_fresh(1) [OF assms(1,3)] show False by blast
qed

lemma exit_serve:
  assumes I: "exit_ok n B k s" and sm: "sm < n" and k: "k < 2 ^ 64 - 1"
    and a: "acquire env (SmuxAcceptStream sm) (Some sm) (xs_w s) = (Inr strm, w1)"
    and h: "handleStream env pc0 rem (xs_hub s) strm sevs uevs w1 c0 = (Returned, pc, hub, w2, c)"
  shows "exit_ok n B (Suc k) (s\<lparr>xs_pconn := pc, xs_hub := hub, xs_w := w2, xs_c := c\<rparr>)"
proof -
  let ?m = "hub_flows (xs_hub s)" and ?nx = "hub_next (xs_hub s)" and ?S = "strms (xs_handlers s)"
  have I': "ledger n (xs_w s) B (?S \<union> ran ?m)" "handlers_ok (xs_handlers s) ?nx"
    "flows_owned ?m (xs_handlers s)" "unat ?nx \<le> k" using I by (simp_all add: exit_ok_def)
  have lt: "unat ?nx < 2 ^ 64 - 1" using I'(4) k by (rule le_less_trans)
  note la = ledger_acquire [OF I'(1) a]
  have l1: "ledger n w1 B (insert strm ?S \<union> ran ?m)" and st: "strm \<notin> ?S \<union> ran ?m" "n \<le> strm" "strm < w_next w1"
    using la sm by simp_all
  note fr = flow_free [OF I'(2,3) lt]
  have "ledger n w2 B (?S \<union> ran (hub_flows hub)) \<and> hub_flows hub = ?m \<and> (hub_next hub = ?nx \<or> hub_next hub = ?nx + 1)"
  proof (cases rule: handleStream_plain [OF h ledger_ok(1) [OF l1] st(3)])
    case (1 w3)
    have "ledger n w3 B (insert strm (?S \<union> ran ?m))" using ledger_unchanged [OF l1 1(1)] by simp
    from ledger_finish [OF this st(1,2)] 1 show ?thesis by simp
  next
    case (2 addr)
    from handle_dgram_returned [OF 2 l1 st fr] show ?thesis by blast
  qed
  moreover have "unat (?nx + 1) = unat ?nx + 1" by (rule next_fresh(2) [OF I'(2) lt])
  ultimately show ?thesis
    using I' handlers_ok_mono [OF I'(2), of "hub_next hub"] by (auto simp: exit_ok_def)
qed

lemma exit_serve_flow:
  assumes I: "exit_ok n B k s" and sm: "sm < n" and k: "k < 2 ^ 64 - 1"
    and a: "acquire env (SmuxAcceptStream sm) (Some sm) (xs_w s) = (Inr strm, w1)"
    and h: "handleStream env pc0 rem (xs_hub s) strm sevs uevs w1 c0 = (FlowOpen f conn, pc, hub, w2, c)"
  shows "exit_ok n B (Suc k) (s\<lparr>xs_pconn := pc, xs_hub := hub, xs_handlers := (strm, f, conn) # xs_handlers s,
     xs_readers := rs, xs_w := w2, xs_c := c\<rparr>)"
proof -
  let ?m = "hub_flows (xs_hub s)" and ?nx = "hub_next (xs_hub s)" and ?hs = "xs_handlers s"
  let ?S = "strms ?hs"
  have I': "ledger n (xs_w s) B (?S \<union> ran ?m)" "handlers_ok ?hs ?nx"
    "flows_owned ?m ?hs" "unat ?nx \<le> k" using I by (simp_all add: exit_ok_def)
  have lt: "unat ?nx < 2 ^ 64 - 1" using I'(4) k by (rule le_less_trans)
  note la = ledger_acquire [OF I'(1) a]
  have l1: "ledger n w1 B (insert strm ?S \<union> ran ?m)" and st: "strm \<notin> ?S \<union> ran ?m" "n \<le> strm" "strm < w_next w1"
    using la sm by simp_all
  obtain addr where d: "handle_dgram env (xs_hub s) strm addr w1 c0 = (FlowOpen f conn, hub, w2, c)"
    using handleStream_flow [OF h] by blast
  note o = handle_dgram_open [OF d l1 st(3) flow_free [OF I'(2,3) lt]]
  note nf = next_fresh [OF I'(2) lt]
  have "handlers_ok ((strm, f, conn) # ?hs) (hub_next hub)"
    using I'(2) st(1) nf o(3,4) by (force simp: handlers_ok_def strms_def)
  moreover have "flows_owned (hub_flows hub) ((strm, f, conn) # ?hs)"
  proof -
    have c: "conn \<notin> ran ?m" "conn \<notin> ?S" "conn \<noteq> strm" using o(5) by auto
    have inj: "inj_on ?m (dom ?m)" using I'(3) by (simp add: flows_owned_def)
    have nf: "f \<notin> dom ?m" using flow_free [OF I'(2,3) lt] o(4) by (simp add: dom_def)
    have "inj_on (hub_flows hub) (dom (hub_flows hub))"
      unfolding o(2) using inj nf c(1) by (auto simp: inj_on_def dom_def ran_def)
    moreover have "ran (hub_flows hub) = insert conn (ran ?m)" unfolding o(2) using nf by (simp add: ran_map_upd dom_def)
    ultimately show ?thesis
      using I'(3) c st(1) o(2) by (auto simp: flows_owned_def strms_def)
  qed
  moreover have "unat (hub_next hub) \<le> Suc k" using nf(2) o(3,4) I'(4) by simp
  moreover have "ledger n w2 B (strms ((strm, f, conn) # ?hs) \<union> ran (hub_flows hub))"
    using o(1) by (simp add: strms_def)
  ultimately show ?thesis by (simp add: exit_ok_def)
qed

lemma flows_owned_remove:
  assumes "flows_owned m hs"
  shows "flows_owned (m(f := None)) hs"
proof -
  have "m(f := None) \<subseteq>\<^sub>m m" by (simp add: map_le_def)
  then have sub: "\<And>g x. (m(f := None)) g = Some x \<Longrightarrow> m g = Some x" by (simp split: if_splits)
  have "inj_on (m(f := None)) (dom (m(f := None)))"
    using assms by (auto simp: flows_owned_def inj_on_def dom_def)
  moreover have "ran (m(f := None)) \<subseteq> ran m" using sub by (auto simp: ran_def)
  ultimately show ?thesis using assms sub unfolding flows_owned_def by blast
qed

lemma exit_close:
  assumes I: "exit_ok n B k s" and hb: "xs_hub s = Some h" and c: "closeFlow h f (xs_w s) = (h1, w1)"
  shows "exit_ok n B k (s\<lparr>xs_hub := Some h1, xs_readers := rs, xs_w := w1, xs_c := c\<rparr>)"
proof -
  let ?hs = "xs_handlers s"
  have I': "ledger n (xs_w s) B (strms ?hs \<union> ran (hb_flows h))" "handlers_ok ?hs (hb_nextID h)"
    "flows_owned (hb_flows h) ?hs" "unat (hb_nextID h) \<le> k" using I hb by (simp_all add: exit_ok_def)
  have inj: "n \<le> x \<and> x \<notin> strms ?hs \<and> (\<forall>g. hb_flows h g = Some x \<longrightarrow> g = f)" if "hb_flows h f = Some x" for x
    by (rule owned_socket [OF I'(1,3) that])
  have l1: "ledger n w1 B (strms ?hs \<union> ran (hb_flows h1))" by (rule closeFlow_ledger(1) [OF I'(1) c]) (rule inj)
  have fl: "hb_flows h1 = (hb_flows h)(f := None)" by (rule closeFlow_ledger(2) [OF I'(1) c]) (rule inj)
  have nx: "hb_nextID h1 = hb_nextID h" by (rule closeFlow_ledger(3) [OF I'(1) c]) (rule inj)
  have "flows_owned (hb_flows h1) ?hs" unfolding fl by (rule flows_owned_remove [OF I'(3)])
  then show ?thesis using l1 nx I'(2,4) unfolding exit_ok_def by simp
qed

text \<open>A handler ends: its flow, if it is still there, and its control stream go.\<close>

lemma exit_drop:
  assumes I: "exit_ok n B k s" and m: "(strm, f, conn) \<in> set (xs_handlers s)" and gone: "hub_flows (xs_hub s) f = None"
  shows "exit_ok n B k (s\<lparr>xs_handlers := filter (\<lambda>x. x \<noteq> (strm, f, conn)) (xs_handlers s),
     xs_w := close_handle strm (xs_w s)\<rparr>)"
proof -
  let ?m = "hub_flows (xs_hub s)" and ?hs = "xs_handlers s"
  let ?hs' = "filter (\<lambda>x. x \<noteq> (strm, f, conn)) ?hs"
  have I': "ledger n (xs_w s) B (strms ?hs \<union> ran ?m)" "handlers_ok ?hs (hub_next (xs_hub s))" "flows_owned ?m ?hs"
    using I by (simp_all add: exit_ok_def)
  have strm: "strm \<in> strms ?hs" using m by (force simp: strms_def)
  have inj: "inj_on (\<lambda>(s, f, x). s) (set ?hs)" using I'(2) by (simp add: handlers_ok_def distinct_map)
  have "strms ?hs' = strms ?hs - {strm}"
    unfolding strms_def using inj_on_image_set_diff [OF inj, of "set ?hs" "{(strm, f, conn)}"] m
    by (simp add: set_minus_filter_out)
  moreover have "ran ?m \<inter> strms ?hs = {}" using I'(3) by (simp add: flows_owned_def)
  ultimately have "strms ?hs' \<union> ran ?m = strms ?hs \<union> ran ?m - {strm}" using strm by blast
  then have "ledger n (close_handle strm (xs_w s)) B (strms ?hs' \<union> ran ?m)"
    using ledger_close [OF I'(1)] ledger_ok(2) [OF I'(1)] strm by simp
  moreover have "handlers_ok ?hs' (hub_next (xs_hub s))"
    using I'(2) by (auto simp: handlers_ok_def distinct_map_filter)
  moreover have "flows_owned ?m ?hs'"
  proof -
    have "\<exists>s'. (s', g, x) \<in> set ?hs'" if g: "?m g = Some x" for g x
    proof -
      obtain s' where s': "(s', g, x) \<in> set ?hs" using I'(3) g unfolding flows_owned_def by blast
      have "g \<noteq> f" using g gone by auto
      with s' show ?thesis by auto
    qed
    moreover have "strms ?hs' \<subseteq> strms ?hs" unfolding strms_def by (rule image_mono) auto
    ultimately show ?thesis using I'(3) unfolding flows_owned_def by blast
  qed
  ultimately show ?thesis using I unfolding exit_ok_def by simp
qed

lemma exit_world:
  assumes "exit_ok n B k s" and "unchanged (xs_w s) w'"
  shows "exit_ok n B k (s\<lparr>xs_w := w', xs_c := c\<rparr>)"
  using assms(1) ledger_unchanged [OF _ assms(2)] unfolding exit_ok_def by simp

lemma exit_ok_mono: "exit_ok n B k s \<Longrightarrow> k \<le> k' \<Longrightarrow> exit_ok n B k' s"
  by (auto simp: exit_ok_def)

lemma SendDatagram_unchanged:
  assumes "SendDatagram env sess b w = (r, w')" and "world_ok w" and "\<And>q. ss_quicConn sess = Some q \<Longrightarrow> q < w_next w"
  shows "unchanged w w'"
  using assms by (fastforce simp: SendDatagram_def unchanged_def world_ok_def tick_def split: option.splits)

lemma hub_dispatch_unchanged:
  assumes "hub_dispatch env h b w c = (w', c')" and "world_ok w" and "\<And>x. x \<in> ran (hb_flows h) \<Longrightarrow> x < w_next w"
  shows "unchanged w w'"
proof -
  have refl: "unchanged w w" using assms(2) by (simp add: unchanged_def)
  show ?thesis
  proof (cases "DecodeDatagram b")
    case None
    with assms(1) refl show ?thesis by (simp add: hub_dispatch_def)
  next
    case (Some y)
    obtain f p where y: "y = (f, p)" by fastforce
    show ?thesis
    proof (cases "hb_flows h f")
      case None
      with Some y assms(1) refl show ?thesis by (simp add: hub_dispatch_def)
    next
      case c: (Some conn)
      obtain r w1 where wr: "stream_write env conn w p = (r, w1)" by fastforce
      have "w' = w1" using assms(1) Some y c wr by (cases r) (simp_all add: hub_dispatch_def)
      with stream_write_unchanged [OF assms(2) assms(3) [OF ranI [of "hb_flows h" f]] wr] c show ?thesis by simp
    qed
  qed
qed

text \<open>
  What a session starts from: its own objects exist before the streams it accepts. The hub belongs
  to the session.
\<close>

definition hub_bound :: "Session \<Rightarrow> handle \<Rightarrow> exit_sys \<Rightarrow> bool" where
  "hub_bound sess n s \<longleftrightarrow> (\<forall>h. xs_hub s = Some h \<longrightarrow> hb_sess h = sess) \<and> (\<forall>q. ss_quicConn sess = Some q \<longrightarrow> q < n)
     \<and> (\<forall>q. ss_Smux sess = Some q \<longrightarrow> q < n)"

lemma handle_dgram_sess:
  "handle_dgram env hub strm addr w c = (r, hub', w', c') \<Longrightarrow> map_option hb_sess hub' = map_option hb_sess hub"
  by (auto simp: handle_dgram_def openFlow_def closeFlow_def Let_def split: option.splits prod.splits sum.splits)

lemma handleStream_sess:
  "handleStream env pc rem hub strm sevs uevs w c = (r, pc', hub', w', c') \<Longrightarrow> map_option hb_sess hub' = map_option hb_sess hub"
  by (auto simp: handleStream_def dest: handle_dgram_sess split: option.splits prod.splits sum.splits if_splits)

lemma flow_round_sess: "flow_round env h f r w c = (go, h', w', c') \<Longrightarrow> hb_sess h' = hb_sess h"
  by (auto simp: flow_round_def closeFlow_def Let_def split: sum.splits prod.splits option.splits if_splits)

lemma exit_step_bound: "exit_step env sess s s' \<Longrightarrow> hub_bound sess n s \<Longrightarrow> hub_bound sess n s'"
  by (induction rule: exit_step.induct)
    (auto simp: hub_bound_def closeFlow_def map_option_case dest!: handleStream_sess flow_round_sess split: option.splits)

lemma flow_round_cases:
  assumes "flow_round env h f r w c = (go, h', w', c')"
  obtains (closed) "closeFlow h f w = (h', w')"
    | (kept) "h' = h" "w' = w"
    | (sent) q where "h' = h" "SendDatagram env (hb_sess h) (EncodeDatagram f (take udpBuf (projr r))) w = (q, w')"
  using assms by (auto simp: flow_round_def Let_def split: sum.splits prod.splits option.splits if_splits)

lemma exit_receive:
  assumes I: "exit_ok n B k s" and h: "xs_hub s = Some h" and r: "ReceiveDatagram env sess (xs_w s) = (Inr b, w1)"
    and d: "hub_dispatch env h b w1 c0 = (w2, c)"
  shows "exit_ok n B k (s\<lparr>xs_w := w2, xs_c := c\<rparr>)"
proof -
  have l: "ledger n (xs_w s) B (strms (xs_handlers s) \<union> ran (hb_flows h))" using I h by (simp add: exit_ok_def)
  have "w1 = tick (xs_w s)" using r by (simp add: ReceiveDatagram_def split: option.splits)
  then have w1: "unchanged (xs_w s) w1" "w_next w1 = w_next (xs_w s)"
    using ledger_ok(1) [OF l] by (simp_all add: unchanged_def)
  have "unchanged w1 w2"
    by (rule hub_dispatch_unchanged [OF d unchanged_ok [OF w1(1)]]) (use ledger_ok(2) [OF l] w1(2) in simp)
  with exit_world [OF I] unchanged_trans [OF w1(1)] show ?thesis by blast
qed

lemma exit_read:
  assumes I: "exit_ok n B k s" and h: "xs_hub s = Some h" and b: "hub_bound sess n s"
    and f: "flow_round env h f r (xs_w s) c0 = (go, h1, w1, c)"
  shows "exit_ok n B k (s\<lparr>xs_hub := Some h1, xs_readers := rs, xs_w := w1, xs_c := c\<rparr>)"
proof (cases rule: flow_round_cases [OF f])
  case 1
  then show ?thesis by (rule exit_close [OF I h])
next
  case 2
  with I h show ?thesis by (simp add: exit_ok_def)
next
  case (3 q)
  have l: "ledger n (xs_w s) B (strms (xs_handlers s) \<union> ran (hb_flows h))" using I h by (simp add: exit_ok_def)
  have n: "n \<le> w_next (xs_w s)" using l by (simp add: ledger_def)
  have "unchanged (xs_w s) w1"
    by (rule SendDatagram_unchanged [OF 3(2) ledger_ok(1) [OF l]]) (use b h n in \<open>fastforce simp: hub_bound_def\<close>)
  from exit_world [OF I this] 3(1) h show ?thesis by (simp add: exit_ok_def)
qed

lemma exit_control_end:
  assumes I: "exit_ok n B k s" and h: "xs_hub s = Some h" and m: "(strm, f, conn) \<in> set (xs_handlers s)"
    and c: "closeFlow h f (xs_w s) = (h1, w1)"
  shows "exit_ok n B k (s\<lparr>xs_hub := Some h1, xs_handlers := filter (\<lambda>x. x \<noteq> (strm, f, conn)) (xs_handlers s),
     xs_w := close_handle strm w1\<rparr>)"
proof -
  let ?s1 = "s\<lparr>xs_hub := Some h1, xs_readers := xs_readers s, xs_w := w1, xs_c := xs_c s\<rparr>"
  have I1: "exit_ok n B k ?s1" by (rule exit_close [OF I h c])
  have "h1 = fst (closeFlow h f (xs_w s))" using c by simp
  then have "hub_flows (xs_hub ?s1) f = None" by (simp add: closeFlow_def)
  from exit_drop [OF I1 _ this, of strm conn] m show ?thesis by simp
qed

lemma exit_step_ok:
  assumes "exit_step env sess s s'" and "exit_ok n B k s" and "hub_bound sess n s" and "k < 2 ^ 64 - 1"
  shows "exit_ok n B (Suc k) s'"
  using assms(1)
proof cases
  case (serve sm strm w1 sevs uevs pc hub w2 c)
  have "sm < n" using serve(2) assms(3) by (simp add: hub_bound_def)
  from exit_serve [OF assms(2) this assms(4) serve(3,4)] show ?thesis unfolding serve(1) .
next
  case (serve_flow sm strm w1 sevs uevs f conn pc hub w2 c)
  have "sm < n" using serve_flow(2) assms(3) by (simp add: hub_bound_def)
  from exit_serve_flow [OF assms(2) this assms(4) serve_flow(3,4)] show ?thesis unfolding serve_flow(1) .
next
  case (receive h b w1 w2 c)
  from exit_receive [OF assms(2) receive(2,3,4)] show ?thesis unfolding receive(1) by (rule exit_ok_mono) simp
next
  case (read h f r go h1 w1 c)
  from exit_read [OF assms(2) read(2) assms(3) read(4)] show ?thesis unfolding read(1) by (rule exit_ok_mono) simp
next
  case (control_end h strm f conn h1 w1)
  from exit_control_end [OF assms(2) control_end(2,3,4)] show ?thesis unfolding control_end(1) by (rule exit_ok_mono) simp
qed

inductive exit_run :: "env \<Rightarrow> Session \<Rightarrow> exit_sys \<Rightarrow> nat \<Rightarrow> exit_sys \<Rightarrow> bool" for env sess s0 where
  start: "exit_run env sess s0 0 s0"
| step: "exit_run env sess s0 k s \<Longrightarrow> exit_step env sess s s' \<Longrightarrow> exit_run env sess s0 (Suc k) s'"

lemma exit_start_ok:
  assumes "world_ok w"
  shows "exit_ok (w_next w) (w_open w) 0 (session_start sess pc w c)"
  using ledger_start [OF assms]
  by (simp add: exit_ok_def session_start_def newDgramHub_def strms_def handlers_ok_def flows_owned_def)

lemma exit_run_ok:
  assumes "exit_run env sess s0 k s" and "exit_ok n B 0 s0" and "hub_bound sess n s0" and "k < 2 ^ 64"
  shows "exit_ok n B k s \<and> hub_bound sess n s"
  using assms
proof (induction rule: exit_run.induct)
  case (step k s s')
  then have IH: "exit_ok n B k s" "hub_bound sess n s" by simp_all
  have "k < 2 ^ 64 - 1" using step.prems(3) by simp
  with exit_step_ok [OF step.hyps(2) IH] exit_step_bound [OF step.hyps(2) IH(2)] show ?case by blast
qed simp

section \<open>The hub as a network address translator\<close>

text \<open>
  What the hub promises: a table from flows to targets. Opening a flow takes an unused identifier,
  and a datagram of a flow goes to the flow's target or is lost.
\<close>

record nat_table =
  nt_targets :: "64 word \<rightharpoonup> string"
  nt_sent :: "(string \<times> byte list) list"

datatype hub_op = HOpen string | HClose "64 word" | HRecv "64 word" "byte list"

inductive nat_step :: "hub_op \<Rightarrow> nat_table \<Rightarrow> nat_table \<Rightarrow> bool" where
  opened: "nt_targets t f = None \<Longrightarrow> nat_step (HOpen tgt) t (t\<lparr>nt_targets := (nt_targets t)(f \<mapsto> tgt)\<rparr>)"
| refused: "nat_step (HOpen tgt) t t"
| closed: "nat_step (HClose f) t (t\<lparr>nt_targets := (nt_targets t)(f := None)\<rparr>)"
| forwarded: "nt_targets t f = Some tgt \<Longrightarrow> nat_step (HRecv f p) t (t\<lparr>nt_sent := nt_sent t @ [(tgt, p)]\<rparr>)"
| lost: "nat_step (HRecv f p) t t"

text \<open>The hub's operations; a dial that succeeds is remembered with its target.\<close>

fun hub_exec :: "env \<Rightarrow> hub_op \<Rightarrow> dgramHub \<times> world \<times> Collector \<times> (handle \<rightharpoonup> string)
     \<Rightarrow> dgramHub \<times> world \<times> Collector \<times> (handle \<rightharpoonup> string)" where
  "hub_exec env (HOpen tgt) (h, w, c, D) =
     (case openFlow env h tgt w c of
        (Inl e, h1, w1, c1) \<Rightarrow> (h1, w1, c1, D)
      | (Inr (f, conn), h1, w1, c1) \<Rightarrow> (h1, w1, c1, D(conn \<mapsto> tgt)))"
| "hub_exec env (HClose f) (h, w, c, D) = (case closeFlow h f w of (h1, w1) \<Rightarrow> (h1, w1, c, D))"
| "hub_exec env (HRecv f p) (h, w, c, D) =
     (case hub_dispatch env h (EncodeDatagram f p) w c of (w1, c1) \<Rightarrow> (h, w1, c1, D))"

definition sent_to :: "(handle \<rightharpoonup> string) \<Rightarrow> world \<Rightarrow> (string \<times> byte list) list" where
  "sent_to D w = List.map_filter (\<lambda>(h, p). map_option (\<lambda>t. (t, p)) (D h)) (w_log w)"

definition hub_abs :: "dgramHub \<times> world \<times> Collector \<times> (handle \<rightharpoonup> string) \<Rightarrow> nat_table" where
  "hub_abs st = (case st of (h, w, c, D) \<Rightarrow>
     \<lparr>nt_targets = (\<lambda>f. Option.bind (hb_flows h f) D), nt_sent = sent_to D w\<rparr>)"

text \<open>Sockets of the table were dialled, written handles exist, and the identifier counter is ahead.\<close>

definition hub_inv :: "dgramHub \<times> world \<times> Collector \<times> (handle \<rightharpoonup> string) \<Rightarrow> bool" where
  "hub_inv st \<longleftrightarrow> (case st of (h, w, c, D) \<Rightarrow>
     world_ok w \<and> ran (hb_flows h) \<subseteq> dom D \<and> (\<forall>x \<in> dom D. x < w_next w)
     \<and> (\<forall>f \<in> dom (hb_flows h). unat f \<le> unat (hb_nextID h)))"

lemma map_filter_cong: "(\<And>x. x \<in> set xs \<Longrightarrow> f x = g x) \<Longrightarrow> List.map_filter f xs = List.map_filter g xs"
  by (induction xs) (auto split: option.splits)

lemma map_filter_append: "List.map_filter f (xs @ ys) = List.map_filter f xs @ List.map_filter f ys"
  by (induction xs) (auto split: option.splits)

lemma sent_to_fresh: "world_ok w \<Longrightarrow> w_next w \<le> x \<Longrightarrow> sent_to (D(x \<mapsto> t)) w = sent_to D w"
  unfolding sent_to_def by (rule map_filter_cong) (auto simp: world_ok_def)

lemma sent_to_same: "w_log w' = w_log w \<Longrightarrow> sent_to D w' = sent_to D w"
  by (simp add: sent_to_def)

text \<open>A flow just opened: its identifier is new, its socket too.\<close>

lemma hub_opened:
  assumes inv: "hub_inv (h, w, c, D)" and b: "unat (hb_nextID h) < 2 ^ 64 - 1"
    and o: "openFlow env h tgt w c = (Inr (f, conn), h1, w1, c1)"
  shows "hb_flows h f = None" and "unat f = unat (hb_nextID h) + 1" and "hb_flows h g = Some x \<Longrightarrow> x \<noteq> conn"
proof -
  have ok: "ran (hb_flows h) \<subseteq> dom D" "\<forall>x \<in> dom D. x < w_next w" "\<forall>f \<in> dom (hb_flows h). unat f \<le> unat (hb_nextID h)"
    using inv by (simp_all add: hub_inv_def)
  note k = openFlow_ok [OF o]
  show u: "unat f = unat (hb_nextID h) + 1" using b k(2) by (simp add: unat_word_ariths)
  show "hb_flows h f = None"
  proof (rule ccontr)
    assume "hb_flows h f \<noteq> None"
    then have "unat f \<le> unat (hb_nextID h)" using ok(3) by blast
    with u show False by simp
  qed
  show "x \<noteq> conn" if "hb_flows h g = Some x"
  proof -
    have "x \<in> dom D" using ranI [of "hb_flows h" g x] that ok(1) by blast
    with ok(2) acquire_ok [OF k(1)] show ?thesis by blast
  qed
qed

lemma hub_opened_inv:
  assumes inv: "hub_inv (h, w, c, D)" and b: "unat (hb_nextID h) < 2 ^ 64 - 1"
    and o: "openFlow env h tgt w c = (Inr (f, conn), h1, w1, c1)"
  shows "hub_inv (h1, w1, c1, D(conn \<mapsto> tgt))"
proof -
  have ok: "world_ok w" "ran (hb_flows h) \<subseteq> dom D" "\<forall>x \<in> dom D. x < w_next w"
    "\<forall>f \<in> dom (hb_flows h). unat f \<le> unat (hb_nextID h)" using inv by (simp_all add: hub_inv_def)
  note k = openFlow_ok [OF o] and new = hub_opened [OF assms]
  note a = acquire_ok [OF k(1)]
  have "world_ok w1" using acquire_world_ok [OF ok(1) k(1)] by simp
  moreover have "ran (hb_flows h1) \<subseteq> dom (D(conn \<mapsto> tgt))" unfolding k(3) using new(1) ok(2) by (auto simp: ran_map_upd)
  moreover have "x < w_next w1" if "x \<in> dom (D(conn \<mapsto> tgt))" for x
  proof -
    from that have "x = conn \<or> x < w_next w" using ok(3) by auto
    with a show ?thesis by auto
  qed
  moreover have "unat g \<le> unat (hb_nextID h1)" if "g \<in> dom (hb_flows h1)" for g
  proof -
    from that have "g = f \<or> unat g \<le> unat (hb_nextID h)" unfolding k(3) using ok(4) by auto
    with new(2) show ?thesis unfolding k(4) by auto
  qed
  ultimately show ?thesis unfolding hub_inv_def by simp
qed

lemma hub_open_refines:
  assumes inv: "hub_inv (h, w, c, D)" and b: "unat (hb_nextID h) < 2 ^ 64 - 1"
    and e: "hub_exec env (HOpen tgt) (h, w, c, D) = st'"
  shows "nat_step (HOpen tgt) (hub_abs (h, w, c, D)) (hub_abs st') \<and> hub_inv st'"
proof -
  have ok: "world_ok w" using inv by (simp add: hub_inv_def)
  obtain r h1 w1 c1 where o: "openFlow env h tgt w c = (r, h1, w1, c1)" by (metis prod.exhaust)
  show ?thesis
  proof (cases r)
    case (Inl x)
    note f = openFlow_fail [OF o [unfolded Inl]]
    note a = acquire_fail [OF f(1)]
    have st': "st' = (h, w1, c1, D)" using e o Inl f(2) by simp
    have "hub_abs st' = hub_abs (h, w, c, D)" unfolding st' using sent_to_same [of w1 w D] a by (simp add: hub_abs_def)
    moreover have "hub_inv st'" unfolding st' using inv a acquire_world_ok [OF ok f(1)] by (simp add: hub_inv_def)
    ultimately show ?thesis using nat_step.refused by simp
  next
    case (Inr y)
    obtain f conn where y: "y = (f, conn)" by fastforce
    note o = o [unfolded Inr y]
    note k = openFlow_ok [OF o] and new = hub_opened [OF inv b o]
    note a = acquire_ok [OF k(1)]
    have st': "st' = (h1, w1, c1, D(conn \<mapsto> tgt))" using e o by simp
    have "nt_targets (hub_abs st') g = ((nt_targets (hub_abs (h, w, c, D)))(f \<mapsto> tgt)) g" for g
      unfolding st' using new(3) [of g] by (cases "hb_flows h g") (auto simp: hub_abs_def k(3))
    moreover have "nt_sent (hub_abs st') = nt_sent (hub_abs (h, w, c, D))"
      unfolding st' using sent_to_fresh [OF ok, of conn D tgt] sent_to_same [of w1 w] a by (simp add: hub_abs_def)
    ultimately have "hub_abs st' = (hub_abs (h, w, c, D))\<lparr>nt_targets := (nt_targets (hub_abs (h, w, c, D)))(f \<mapsto> tgt)\<rparr>"
      by (simp add: fun_eq_iff)
    moreover have "nt_targets (hub_abs (h, w, c, D)) f = None" using new(1) by (simp add: hub_abs_def)
    moreover have "hub_inv st'" unfolding st' by (rule hub_opened_inv [OF inv b o])
    ultimately show ?thesis using nat_step.opened by simp
  qed
qed

lemma hub_close_refines:
  assumes inv: "hub_inv (h, w, c, D)" and e: "hub_exec env (HClose f) (h, w, c, D) = st'"
  shows "nat_step (HClose f) (hub_abs (h, w, c, D)) (hub_abs st') \<and> hub_inv st'"
proof -
  let ?h = "h\<lparr>hb_flows := (hb_flows h)(f := None)\<rparr>" and ?w = "close_opt (hb_flows h f) w"
  have st': "st' = (?h, ?w, c, D)" using e by (simp add: closeFlow_def)
  have "nt_targets (hub_abs st') = (nt_targets (hub_abs (h, w, c, D)))(f := None)"
    unfolding st' by (auto simp: hub_abs_def)
  moreover have "nt_sent (hub_abs st') = nt_sent (hub_abs (h, w, c, D))"
    unfolding st' using sent_to_same [of ?w w D] by (simp add: hub_abs_def)
  ultimately have "hub_abs st' = (hub_abs (h, w, c, D))\<lparr>nt_targets := (nt_targets (hub_abs (h, w, c, D)))(f := None)\<rparr>"
    by simp
  moreover have "ran ((hb_flows h)(f := None)) \<subseteq> ran (hb_flows h)" by (auto simp: ran_def)
  then have "hub_inv st'" unfolding st' using inv by (auto simp: hub_inv_def)
  ultimately show ?thesis using nat_step.closed by simp
qed

lemma hub_recv_refines:
  assumes inv: "hub_inv (h, w, c, D)" and e: "hub_exec env (HRecv f p) (h, w, c, D) = st'"
  shows "nat_step (HRecv f p) (hub_abs (h, w, c, D)) (hub_abs st') \<and> hub_inv st'"
proof -
  obtain w1 c1 where d: "hub_dispatch env h (EncodeDatagram f p) w c = (w1, c1)" by fastforce
  have st': "st' = (h, w1, c1, D)" using e d by simp
  have "unchanged w w1"
    by (rule hub_dispatch_unchanged [OF d]) (use inv in \<open>auto simp: hub_inv_def\<close>)
  then have "world_ok w1" "w_next w \<le> w_next w1" by (simp_all add: unchanged_def)
  moreover have "\<forall>x \<in> dom D. x < w_next w" using inv by (simp add: hub_inv_def)
  ultimately have I: "hub_inv st'" unfolding st' using inv unfolding hub_inv_def prod.case by (meson less_le_trans)
  show ?thesis
  proof (cases "hub_abs st' = hub_abs (h, w, c, D)")
    case True
    with I show ?thesis using nat_step.lost by simp
  next
    case False
    then obtain conn where conn: "hb_flows h f = Some conn"
      using d st' by (cases "hb_flows h f") (auto simp: hub_dispatch_def Decode_Encode hub_abs_def)
    then obtain tgt where t: "D conn = Some tgt"
      using inv ranI [of "hb_flows h" f conn] by (auto simp: hub_inv_def)
    obtain r w2 where wr: "stream_write env conn w p = (r, w2)" by fastforce
    have w1: "w1 = w2" using d conn wr by (cases r) (simp_all add: hub_dispatch_def Decode_Encode)
    have "r = None"
    proof (rule ccontr)
      assume "r \<noteq> None"
      then have "w_log w1 = w_log w" using wr w1 by (auto simp: stream_write_def split: option.splits)
      with False show False unfolding st' using sent_to_same [of w1 w D] by (simp add: hub_abs_def)
    qed
    then have "w_log w1 = w_log w @ [(conn, p)]" using stream_write_simps(3) [OF wr] w1 by simp
    then have "sent_to D w1 = sent_to D w @ [(tgt, p)]" using t by (simp add: sent_to_def map_filter_append)
    then have "hub_abs st' = (hub_abs (h, w, c, D))\<lparr>nt_sent := nt_sent (hub_abs (h, w, c, D)) @ [(tgt, p)]\<rparr>"
      unfolding st' by (simp add: hub_abs_def)
    moreover have "nt_targets (hub_abs (h, w, c, D)) f = Some tgt" using conn t by (simp add: hub_abs_def)
    ultimately show ?thesis using nat_step.forwarded I by simp
  qed
qed

section \<open>A sample session\<close>

definition flow_env :: env where
  "flow_env = calm_env\<lparr>e_dec := (\<lambda>b. (Inr (addr_message UDPDGRAM \<lparr>Host = ''h'', Port = 53\<rparr>), []))\<rparr>"

definition flow_session :: Session where
  "flow_session = \<lparr>ss_PacketConn = None, ss_remoteAddr = None, ss_KCP = None, ss_quicTr = None, ss_quicConn = Some 1,
     ss_quicStream = None, ss_Smux = Some 2\<rparr>"

definition flow_world :: world where
  "flow_world = \<lparr>w_clock = 0, w_next = 3, w_open = [(2, None), (1, None)], w_log = [], w_kcp = [], w_flags = []\<rparr>"

section \<open>Properties\<close>

text \<open>C22. A session on the exit leaks nothing, whatever its streams ask for and however its goroutines
  are scheduled: the objects that were open before are still open and unchanged, and everything
  else that is open is the control stream of a handler that still waits or the socket of a
  registered flow; different flows have different sockets; once no handler waits, the flow table is
  empty and exactly the objects of the start are open. (The flow counter has 64 bits, so this is
  stated for runs of fewer than \<open>2^64\<close> steps.)\<close>

theorem exit_leaks_nothing:
  assumes "exit_run env sess (session_start sess pconn w c) k s" and "k < 2 ^ 64" and "world_ok w"
    and "\<forall>q \<in> set_option (ss_quicConn sess) \<union> set_option (ss_Smux sess). q < w_next w"
  shows "filter (\<lambda>x. fst x < w_next w) (w_open (xs_w s)) = w_open w
    \<and> fst ` set (w_open (xs_w s)) \<inter> {w_next w..} = strms (xs_handlers s) \<union> ran (hub_flows (xs_hub s))
    \<and> inj_on (hub_flows (xs_hub s)) (dom (hub_flows (xs_hub s)))
    \<and> (xs_handlers s = [] \<longrightarrow> w_open (xs_w s) = w_open w \<and> hub_flows (xs_hub s) = Map.empty)"
proof -
  have "hub_bound sess (w_next w) (session_start sess pconn w c)"
    using assms(4) by (auto simp: hub_bound_def session_start_def newDgramHub_def)
  from exit_run_ok [OF assms(1) exit_start_ok [OF assms(3)] this assms(2)]
  have I: "exit_ok (w_next w) (w_open w) k s" by simp
  let ?m = "hub_flows (xs_hub s)"
  have l: "ledger (w_next w) (xs_w s) (w_open w) (strms (xs_handlers s) \<union> ran ?m)" and o: "flows_owned ?m (xs_handlers s)"
    using I by (simp_all add: exit_ok_def)
  have none: "w_open (xs_w s) = w_open w \<and> ?m = Map.empty" if h: "xs_handlers s = []"
  proof
    show m: "?m = Map.empty"
    proof
      fix f show "?m f = None" using o h by (cases "?m f") (auto simp: flows_owned_def)
    qed
    have "fst ` set (w_open (xs_w s)) \<inter> {w_next w..} = {}" using l h m by (simp add: ledger_def strms_def)
    then have "\<forall>x \<in> set (w_open (xs_w s)). fst x < w_next w" by force
    then have "filter (\<lambda>x. fst x < w_next w) (w_open (xs_w s)) = w_open (xs_w s)" by (simp add: filter_id_conv)
    then show "w_open (xs_w s) = w_open w" using l by (simp add: ledger_def)
  qed
  with l o show ?thesis by (simp add: ledger_def flows_owned_def)
qed

theorem exit_leaks_nothing_witness:
  "\<exists>s. exit_run flow_env flow_session (session_start flow_session None flow_world zero_Collector) 1 s
     \<and> length (xs_handlers s) = 1 \<and> filter (\<lambda>x. fst x < 3) (w_open (xs_w s)) = w_open flow_world"
proof -
  let ?s = "session_start flow_session None flow_world zero_Collector"
  obtain w1 where a: "acquire flow_env (SmuxAcceptStream 2) (Some 2) (xs_w ?s) = (Inr 3, w1)"
    by (simp add: acquire_def flow_env_def calm_env_def session_start_def flow_world_def)
  have w1: "w1 = snd (acquire flow_env (SmuxAcceptStream 2) (Some 2) (xs_w ?s))" using a by simp
  let ?r = "handleStream flow_env (xs_pconn ?s) (remote_addr flow_env flow_session) (xs_hub ?s) 3 [] [] w1 (xs_c ?s)"
  have "fst ?r = FlowOpen 1 4" unfolding w1 by code_simp
  then obtain pc hub w2 c where h: "?r = (FlowOpen 1 4, pc, hub, w2, c)" by (metis prod.collapse)
  have sm: "ss_Smux flow_session = Some 2" by (simp add: flow_session_def)
  note st = exit_step.serve_flow [OF sm a h]
  note run = exit_run.step [OF exit_run.start st]
  have "world_ok flow_world" by (simp add: world_ok_def flow_world_def)
  then have "filter (\<lambda>x. fst x < w_next flow_world) (w_open w2) = w_open flow_world"
    using exit_leaks_nothing [OF run] by (simp add: flow_session_def flow_world_def)
  with run show ?thesis
    by (intro exI) (auto simp: session_start_def flow_world_def)
qed

text \<open>C23. The hub implements a translator from flows to targets: every operation of the hub is a step of
  the abstract table, in which a flow opened for a target keeps it until it is closed, an
  identifier in use is never given out again, and a datagram goes to the target of its flow or is
  lost. (The identifier counter must not have wrapped.)\<close>

theorem hub_refines_nat:
  assumes "hub_inv st" and "unat (hb_nextID (fst st)) < 2 ^ 64 - 1"
  shows "nat_step op (hub_abs st) (hub_abs (hub_exec env op st)) \<and> hub_inv (hub_exec env op st)"
proof -
  obtain h w c D where st: "st = (h, w, c, D)" by (metis prod.exhaust)
  show ?thesis
  proof (cases op)
    case (HOpen tgt)
    with hub_open_refines [OF assms(1) [unfolded st]] assms(2) st show ?thesis by simp
  next
    case (HClose f)
    with hub_close_refines [OF assms(1) [unfolded st]] st show ?thesis by simp
  next
    case (HRecv f p)
    with hub_recv_refines [OF assms(1) [unfolded st]] st show ?thesis by simp
  qed
qed

theorem hub_refines_nat_witness:
  "nat_step (HOpen ''h:53'') (hub_abs (newDgramHub flow_session, flow_world, zero_Collector, Map.empty))
     (hub_abs (hub_exec calm_env (HOpen ''h:53'') (newDgramHub flow_session, flow_world, zero_Collector, Map.empty)))"
proof -
  let ?st = "(newDgramHub flow_session, flow_world, zero_Collector, Map.empty)"
  have "hub_inv ?st" by (simp add: hub_inv_def newDgramHub_def flow_world_def world_ok_def)
  moreover have "unat (hb_nextID (fst ?st)) < 2 ^ 64 - 1" by (simp add: newDgramHub_def)
  ultimately show ?thesis using hub_refines_nat by blast
qed

text \<open>C24. The datagram path, end to end: what the client's send function of a flow hands to QUIC is, at
  the exit, written unchanged and as one datagram to the flow's socket and to no other; what the
  exit reads from that socket (when it fits a datagram) comes back to the callback of exactly that
  client flow.\<close>

theorem datagram_path:
  assumes "ss_quicConn csess = Some q" and "flow_send cenv (csess, f) payload cw = (None, cw')"
    and "p_dgDeliver pool csess = Some m" and "m f = Some d"
    and "hb_flows h f = Some conn" and "ss_quicConn (hb_sess h) = Some q'" and "delivers env"
    and "e_fail env (QuicSendDatagram q') w2 = None" and "length answer \<le> MaxDatagramPayload (hb_sess h)"
  shows "\<exists>b. w_log cw' = w_log cw @ [(q, b)]
     \<and> (case hub_dispatch env h b w c of (w', c') \<Rightarrow>
          (\<forall>x. packets x w' = packets x w @ (if x = conn then [payload] else []))
          \<and> mt_BytesOut c' = mt_BytesOut c + of_nat (length payload))
     \<and> (case flow_round env h f (Inr answer) w2 c of (go, h', w', c') \<Rightarrow>
          go \<and> h' = h \<and> (\<exists>b'. w_log w' = w_log w2 @ [(q', b')] \<and> dgram_dispatch pool csess b' = Some (d, answer)))"
proof (intro exI conjI)
  let ?b = "EncodeDatagram f payload" and ?b' = "EncodeDatagram f answer"
  show "w_log cw' = w_log cw @ [(q, ?b)]"
    using assms(1,2) by (auto simp: flow_send_def SendDatagram_def split: option.splits)
  obtain r w' where wr: "stream_write env conn w payload = (r, w')" by fastforce
  have "r = None" by (rule stream_write_delivers [OF assms(7) wr])
  then show "case hub_dispatch env h ?b w c of (w', c') \<Rightarrow>
      (\<forall>x. packets x w' = packets x w @ (if x = conn then [payload] else []))
      \<and> mt_BytesOut c' = mt_BytesOut c + of_nat (length payload)"
    using wr assms(5) stream_write_packets [OF wr] by (simp add: hub_dispatch_def Decode_Encode)
  have t: "take udpBuf answer = answer"
    using assms(9) by (simp add: MaxDatagramPayload_def maxDatagramPayload_def udpBuf_def)
  have "dgram_dispatch pool csess ?b' = Some (d, answer)"
    using assms(3,4) by (simp add: dgram_dispatch_def Decode_Encode)
  then show "case flow_round env h f (Inr answer) w2 c of (go, h', w', c') \<Rightarrow>
      go \<and> h' = h \<and> (\<exists>b'. w_log w' = w_log w2 @ [(q', b')] \<and> dgram_dispatch pool csess b' = Some (d, answer))"
    using assms(6,8,9) by (simp add: flow_round_def t SendDatagram_def)
qed

theorem datagram_path_witness:
  "\<exists>cw' b. flow_send calm_env (flow_session, 1) [7, 8] flow_world = (None, cw') \<and> w_log cw' = [(1, b)]
     \<and> (case hub_dispatch calm_env ((newDgramHub flow_session)\<lparr>hb_flows := [1 \<mapsto> 2]\<rparr>) b flow_world zero_Collector of
          (w', c') \<Rightarrow> packets 2 w' = [[7, 8]])"
proof -
  let ?h = "(newDgramHub flow_session)\<lparr>hb_flows := [1 \<mapsto> 2]\<rparr>"
  let ?pool = "empty_pool\<lparr>p_dgDeliver := [flow_session \<mapsto> [1 \<mapsto> 5]]\<rparr>"
  obtain cw' where s: "flow_send calm_env (flow_session, 1) [7, 8] flow_world = (None, cw')"
    by (simp add: flow_send_def SendDatagram_def flow_session_def calm_env_def)
  have q: "ss_quicConn flow_session = Some 1" by (simp add: flow_session_def)
  have dl: "delivers calm_env" "e_fail calm_env (QuicSendDatagram 1) flow_world = None" by (simp_all add: delivers_def calm_env_def)
  have h: "hb_flows ?h 1 = Some 2" "ss_quicConn (hb_sess ?h) = Some 1" "length [] \<le> MaxDatagramPayload (hb_sess ?h)"
    by (simp_all add: newDgramHub_def flow_session_def)
  have p: "p_dgDeliver ?pool flow_session = Some [1 \<mapsto> 5]" by simp
  from datagram_path [OF q s p _ h(1,2) dl h(3), of 5 flow_world zero_Collector]
  obtain b where b: "w_log cw' = w_log flow_world @ [(1, b)]"
    "case hub_dispatch calm_env ?h b flow_world zero_Collector of (w', c') \<Rightarrow>
       (\<forall>x. packets x w' = packets x flow_world @ (if x = 2 then [[7, 8]] else []))
       \<and> mt_BytesOut c' = mt_BytesOut zero_Collector + of_nat (length [7, 8 :: byte])" by auto
  obtain w' c' where d: "hub_dispatch calm_env ?h b flow_world zero_Collector = (w', c')" by fastforce
  have "packets 2 w' = [[7, 8]]" using b(2) unfolding d by (simp add: flow_world_def packets_def)
  with s b(1) d show ?thesis
    by (intro exI [of _ cw'] exI [of _ b]) (simp add: flow_world_def)
qed

end
