(* ===== verification/EndToEnd.thy ===== *)
theory EndToEnd
  imports Socks5 Redirect Exit "HOL-Library.Sublist"
begin

text \<open>
  The whole path of a connection or flow: a listener of the client, the tunnel stream, the handler at
  the exit, the target; and back. The two ends are related by what a tunnel stream is: what one end
  reads is a prefix of what the other end wrote. The encoding of the control messages is a
  parameter of which only that decoding undoes encoding is assumed.
\<close>

text \<open>The exit decodes the request for a target that the client encodes.\<close>

definition decodes :: "env \<Rightarrow> env \<Rightarrow> byte \<Rightarrow> string \<Rightarrow> bool" where
  "decodes cenv senv t target \<longleftrightarrow> (\<forall>addr rest. Parse target = Inr addr \<longrightarrow>
     e_dec senv (e_enc cenv (addr_message t addr) @ rest) = (Inr (addr_message t addr), rest))"

section \<open>TCP\<close>

lemma handleStream_tcp:
  assumes "world_ok ws" and "ss < w_next ws" and "e_fail senv (NetDial ''tcp'' (addr_String addr)) ws = None"
    and "e_dec senv (e_input senv ss ws) = (Inr (addr_message TCP addr), body)"
    and "handleStream senv pc rem hub ss sevs uevs ws sc = (hs, pc', hub', ws', sc')"
  shows "\<exists>x y. written (w_next ws) ws' = take x (source_bytes (lefts sevs))
     \<and> written ss ws' = written ss ws @ take y (source_bytes (rights sevs)) \<and> hub' = hub \<and> pc' = pc
     \<and> (hs = Returned \<longrightarrow> \<not> is_open ss ws' \<and> \<not> is_open (w_next ws) ws')"
proof -
  obtain q w1 c1 where r: "relayTCP senv ss (addr_String addr) sevs ws sc = (q, w1, c1)" by (metis prod_cases3)
  from relayTCP_contract [OF assms(1-3), of sevs sc] r obtain x y where
    xy: "written (w_next ws) w1 = take x (source_bytes (lefts sevs))"
      "written ss w1 = written ss ws @ take y (source_bytes (rights sevs))" "q \<noteq> None \<longrightarrow> unchanged ws w1" by auto
  have res: "(hs, ws') = (if q = None then (StillRelaying, w1) else (Returned, close_handle ss w1))" "hub' = hub" "pc' = pc"
    using assms(4,5) r by (auto simp: handleStream_def addr_message_def TCP_def Ping_def TCPF_def finish_def split: option.splits)
  have log: "written h ws' = written h w1" for h using res(1) by (auto simp: written_def split: if_splits)
  have "\<not> is_open ss ws' \<and> \<not> is_open (w_next ws) ws'" if h: "hs = Returned"
  proof -
    have "unchanged ws w1" "ws' = close_handle ss w1" using h res(1) xy(3) by (auto split: if_splits)
    moreover from this have "\<not> is_open (w_next ws) w1"
      using unchanged_is_open is_open_fresh [OF assms(1), of "w_next ws"] by auto
    ultimately show ?thesis by (auto simp: is_open_def close_handle_open live_def)
  qed
  with xy res(2,3) log show ?thesis by (intro exI [of _ x] exI [of _ y]) simp
qed

text \<open>What the bytes of a carried connection become at the exit, and back.\<close>

definition tunnelled :: "env \<Rightarrow> env \<Rightarrow> handle \<Rightarrow> splice_event list \<Rightarrow> string \<Rightarrow> world \<Rightarrow> world \<Rightarrow> bool" where
  "tunnelled cenv senv conn cevs target w w' \<longleftrightarrow> (\<exists>addr strm. Parse target = Inr addr \<and> \<not> is_open strm w
     \<and> (\<forall>ss ws sc pc rem hub sevs uevs. world_ok ws \<and> ss < w_next ws \<and> written ss ws = []
          \<and> e_fail senv (NetDial ''tcp'' (addr_String addr)) ws = None
          \<and> e_input senv ss ws = written strm w'
          \<and> prefix (e_enc cenv (addr_message TCP addr) @ source_bytes (lefts sevs)) (written strm w') \<longrightarrow>
        (case handleStream senv pc rem hub ss sevs uevs ws sc of (hs, pc', hub', ws', sc') \<Rightarrow>
           prefix (written (w_next ws) ws') (source_bytes (lefts cevs))
           \<and> (prefix (source_bytes (rights cevs)) (written ss ws') \<longrightarrow>
                (\<exists>got. written conn w' = written conn w @ got \<and> prefix got (source_bytes (rights sevs))))
           \<and> (hs = Returned \<longrightarrow> \<not> is_open ss ws' \<and> \<not> is_open (w_next ws) ws'))))"

lemma carried_tunnelled:
  assumes car: "carried cenv before after conn target cevs w c res w' c'"
    and gob: "decodes cenv senv TCP target"
  shows "tunnelled cenv senv conn cevs target w w'"
proof -
  from car obtain addr strm a b where c: "Parse target = Inr addr" "\<not> is_open strm w"
    "written strm w' = e_enc cenv (addr_message TCP addr) @ take a (source_bytes (lefts cevs))"
    "written conn w' = written conn w @ take b (source_bytes (rights cevs))" unfolding carried_def by blast
  have main: "case handleStream senv pc rem hub ss sevs uevs ws sc of (hs, pc', hub', ws', sc') \<Rightarrow>
      prefix (written (w_next ws) ws') (source_bytes (lefts cevs))
      \<and> (prefix (source_bytes (rights cevs)) (written ss ws') \<longrightarrow>
          (\<exists>got. written conn w' = written conn w @ got \<and> prefix got (source_bytes (rights sevs))))
      \<and> (hs = Returned \<longrightarrow> \<not> is_open ss ws' \<and> \<not> is_open (w_next ws) ws')"
    if s: "world_ok ws" "ss < w_next ws" "written ss ws = []" "e_fail senv (NetDial ''tcp'' (addr_String addr)) ws = None"
      "e_input senv ss ws = written strm w'"
      "prefix (e_enc cenv (addr_message TCP addr) @ source_bytes (lefts sevs)) (written strm w')"
    for ss ws sc pc rem hub sevs uevs
  proof -
    obtain hs pc' hub' ws' sc' where h: "handleStream senv pc rem hub ss sevs uevs ws sc = (hs, pc', hub', ws', sc')"
      by (metis prod.exhaust)
    have "e_dec senv (e_input senv ss ws) = (Inr (addr_message TCP addr), take a (source_bytes (lefts cevs)))"
      using gob s(5) c(1,3) by (simp add: decodes_def)
    from handleStream_tcp [OF s(1,2,4) this h] obtain x y where
      xy: "written (w_next ws) ws' = take x (source_bytes (lefts sevs))" "written ss ws' = take y (source_bytes (rights sevs))"
        "hs = Returned \<longrightarrow> \<not> is_open ss ws' \<and> \<not> is_open (w_next ws) ws'" using s(3) by auto
    have "prefix (source_bytes (lefts sevs)) (take a (source_bytes (lefts cevs)))" using s(6) c(3) by simp
    then have "prefix (written (w_next ws) ws') (source_bytes (lefts cevs))"
      unfolding xy(1) by (meson prefix_order.trans take_is_prefix)
    moreover have "prefix (take b (source_bytes (rights cevs))) (source_bytes (rights sevs))"
      if "prefix (source_bytes (rights cevs)) (written ss ws')"
      using that xy(2) by (metis prefix_order.trans take_is_prefix)
    ultimately show ?thesis using h c(4) xy(3) by auto
  qed
  show ?thesis
    unfolding tunnelled_def
    by (intro exI [of _ addr] exI [of _ strm] conjI c(1,2) allI impI, elim conjE) (rule main)
qed

lemma tunnelled_close: "tunnelled cenv senv conn cevs target w (close_handle h w') = tunnelled cenv senv conn cevs target w w'"
  by (simp add: tunnelled_def written_def)

lemma closed_conn: "unchanged w w' \<Longrightarrow> w_open (close_handle conn w') = filter (live {conn}) (w_open w)"
  by (simp add: close_handle_open unchanged_def)

lemma carried_ended: "carried env before after conn target evs w c (Ended r) w' c' \<Longrightarrow> unchanged w w'"
  by (auto simp: carried_def)

lemma carried_active:
  assumes "carried env before after conn target evs w c (Ended r) w' c'"
    and "\<And>c. mt_TCPActive (before c) = mt_TCPActive c + d" and "\<And>c. mt_TCPActive (after c) = mt_TCPActive c - d"
  shows "mt_TCPActive c' = mt_TCPActive c"
  using assms by (auto simp: carried_def Let_def)

lemma carried_tick: "carried env before after conn target evs (tick w) c res w' c' = carried env before after conn target evs w c res w' c'"
  by (auto simp: carried_def is_open_def unchanged_def tick_def written_def)

section \<open>UDP\<close>

lemma handleStream_udp:
  assumes "e_dec senv (e_input senv ss ws) = (Inr (addr_message UDP addr), body)"
    and "relayUDP senv ss (addr_String addr) body uevs ws sc = (q, w1, c1)"
  shows "\<exists>hs. handleStream senv pc rem hub ss sevs uevs ws sc = (hs, pc, hub, if q = None then w1 else close_handle ss w1, c1)
     \<and> (hs = StillRelaying \<longrightarrow> q = None)"
  using assms
  by (cases q) (simp_all add: handleStream_def addr_message_def UDP_def TCP_def Ping_def TCPF_def finish_def)

section \<open>Ports and answers\<close>

lemma big_endian_port: "push_bit 8 (uint (a :: byte)) OR uint b = 256 * uint a + uint (b :: byte)"
proof -
  have "push_bit 8 (uint a) AND uint b = 0"
    by (rule bit_eqI) (auto simp: bit_simps dest: bit_imp_le_length)
  then show ?thesis by (simp add: disjunctive_add_eq_or [symmetric] push_bit_eq_mult)
qed

text \<open>The answer to a CONNECT request, read as RFC 1928 lays it out.\<close>

definition reply_addr :: "byte list \<Rightarrow> (ip \<times> int) option" where
  "reply_addr bs =
     (case bs of
        v # rep # rsv # atyp # rest \<Rightarrow>
          (let n = (if atyp = 1 then 4 else 16)
           in if v = 5 \<and> rep = 0 \<and> rsv = 0 \<and> (atyp = 1 \<or> atyp = 4) \<and> length rest = n + 2
              then Some (take n rest, 256 * uint (rest ! n) + uint (rest ! (n + 1))) else None)
      | _ \<Rightarrow> None)"

lemma port_bytes:
  assumes "0 \<le> port" and "port < 65536"
  shows "256 * uint (word_of_int (drop_bit 8 port) :: byte) + uint (word_of_int (port AND 0xff) :: byte) = port"
proof -
  have "port AND 0xff = port mod 256" using take_bit_eq_mask [of 8 port] by (simp add: mask_eq_exp_minus_1 take_bit_eq_mod)
  moreover have "drop_bit 8 port = port div 256" by (simp add: drop_bit_eq_div)
  moreover have "port div 256 < 256" "0 \<le> port div 256" using assms by auto
  ultimately show ?thesis by (simp add: uint_word_of_int)
qed

lemma connect_reply_addr:
  assumes "length lip = 4 \<or> length lip = 16" and "0 \<le> port" and "port < 65536"
  shows "reply_addr (connect_reply lip port) = Some (case to4 lip of Some x \<Rightarrow> x | None \<Rightarrow> lip, port)"
proof (cases "to4 lip")
  case None
  then have "to16 lip = Some lip" "length lip = 16" using assms(1) by (auto simp: to4_def to16_def split: if_splits)
  with None show ?thesis using port_bytes [OF assms(2,3)]
    by (simp add: reply_addr_def connect_reply_def Ver_def RepSuccess_def ATYPIPv6_def Let_def nth_append)
next
  case (Some x)
  then show ?thesis using port_bytes [OF assms(2,3)] to4_length [OF Some]
    by (simp add: reply_addr_def connect_reply_def Ver_def RepSuccess_def ATYPIPv4_def Let_def nth_append)
qed

section \<open>UDP flows\<close>

text \<open>
  What becomes of the packets \<open>qs\<close> of a flow at the exit, and of the answers: the socket of the target
  gets a prefix of the packets, the stream a prefix of the answers, each in a frame of its own, and
  the pump of the client unpacks them; while nothing fails all that can be carried is.
\<close>

definition udp_tunnelled ::
  "env \<Rightarrow> env \<Rightarrow> handle \<Rightarrow> udp_addr \<Rightarrow> byte list list \<Rightarrow> udp_event list \<Rightarrow> handle \<Rightarrow> world \<Rightarrow> handled \<Rightarrow> world \<Rightarrow> bool" where
  "udp_tunnelled cenv senv sock client qs uevs ss ws hs ws' \<longleftrightarrow> (\<exists>i j.
     packets (w_next ws) ws' = take i qs \<and> packets ss ws' = packets ss ws @ map frame (take j (downs uevs))
     \<and> (delivers senv \<and> hs = StillRelaying \<longrightarrow> i = min (ups uevs) (length qs) \<and> j = length (downs uevs))
     \<and> (\<forall>k \<ge> j. \<forall>w c. \<exists>l. snd (snd (pump_rounds cenv sock client k (concat (map frame (take j (downs uevs)))) w c []))
            = map (\<lambda>q. (sock, client, q)) (take l (take j (downs uevs)))
          \<and> ((\<forall>w. e_fail cenv (SockWriteTo sock client) w = None) \<longrightarrow> l \<ge> length (take j (downs uevs)))))"

lemma exit_udp_tunnelled:
  assumes "world_ok ws" and "ss < w_next ws" and "e_fail senv (NetDial ''udp'' (addr_String a)) ws = None"
    and dec: "e_dec senv (e_input senv ss ws) = (Inr (addr_message UDP a), concat (map frame qs))"
    and qs: "nonempty qs = qs" "\<forall>q \<in> set qs. length q \<le> MaxDatagram" and dn: "\<forall>q \<in> set (downs uevs). length q \<le> MaxDatagram"
  shows "case handleStream senv pc rem hub ss sevs uevs ws sc of (hs, pc', hub', ws', sc') \<Rightarrow>
     udp_tunnelled cenv senv sock client qs uevs ss ws hs ws'"
proof -
  have inp: "write_all pipe_write [] qs = (None, concat (map frame qs))"
    using write_all_pipe [of qs "[]"] qs(2) by (simp add: list_all_iff)
  obtain q w1 c1 where r: "relayUDP senv ss (addr_String a) (concat (map frame qs)) uevs ws sc = (q, w1, c1)" by (metis prod_cases3)
  from relayUDP_contract [OF assms(1-3) inp qs(2) dn, of sc] r obtain i j where
    ij: "packets (w_next ws) w1 = nonempty (take i qs)" "packets ss w1 = packets ss ws @ map frame (take j (downs uevs))"
      "delivers senv \<and> q = None \<longrightarrow> i = min (ups uevs) (length qs) \<and> j = length (downs uevs)" by auto
  have ne: "nonempty (take i qs) = take i qs"
    using qs(1) in_set_takeD [of _ i qs] by (fastforce simp: filter_id_conv)
  have dn_j: "\<forall>q \<in> set (take j (downs uevs)). length q \<le> MaxDatagram" using dn by (auto dest: in_set_takeD)
  have pump: "\<exists>l. snd (snd (pump_rounds cenv sock client k (concat (map frame (take j (downs uevs)))) w c []))
        = map (\<lambda>q. (sock, client, q)) (take l (take j (downs uevs)))
      \<and> ((\<forall>w. e_fail cenv (SockWriteTo sock client) w = None) \<longrightarrow> l \<ge> length (take j (downs uevs)))" if "k \<ge> j" for k w c
  proof -
    have "read_dgrams k (concat (map frame (take j (downs uevs)))) = take j (downs uevs)"
      using read_dgrams_frames [of "take j (downs uevs)" k] dn_j that by (simp add: min_absorb2)
    with pump_rounds_spec [of cenv sock client k "concat (map frame (take j (downs uevs)))" w c "[]"] show ?thesis by simp
  qed
  obtain hs where h: "handleStream senv pc rem hub ss sevs uevs ws sc = (hs, pc, hub, if q = None then w1 else close_handle ss w1, c1)"
    "hs = StillRelaying \<longrightarrow> q = None" using handleStream_udp [OF dec r] by blast
  have "packets h (if q = None then w1 else close_handle ss w1) = packets h w1" for h by (simp add: packets_def)
  then show ?thesis using ij ne pump h unfolding udp_tunnelled_def by (simp only: prod.case) blast
qed

section \<open>Sample runs\<close>

text \<open>
  A client with one session to server \<open>s\<close> and an accepted connection, handle 1; the toy codec knows one
  target.
\<close>

definition kcp_session :: Session where
  "kcp_session = \<lparr>ss_PacketConn = None, ss_remoteAddr = None, ss_KCP = None, ss_quicTr = None,
     ss_quicConn = None, ss_quicStream = None, ss_Smux = Some 0\<rparr>"

definition one_pool :: Pool where
  "one_pool = empty_pool\<lparr>p_sessions := [kcp_session]\<rparr>"

definition one_manager :: Manager where
  "one_manager = (sample_manager Failover)\<lparr>m_entries := [(''s'', new_entry 0 (sample_ep ''s'' 1) one_pool)], m_order := [''s''],
     m_active := ''s''\<rparr>"

definition one_world :: world where
  "one_world = \<lparr>w_clock = 0, w_next = 2, w_open = [(1, None), (0, None)], w_log = [], w_kcp = [], w_flags = []\<rparr>"

definition sample_target :: Addr where "sample_target = \<lparr>Host = ''h'', Port = 53\<rparr>"

definition codec_env :: "byte \<Rightarrow> env" where
  "codec_env t = calm_env\<lparr>e_dec := (\<lambda>b. (Inr (addr_message t sample_target), tl b))\<rparr>"

definition sample_rule :: Rule where
  "sample_rule = \<lparr>ru_Listen = '':1'', ru_Target = ''h:53'', ru_Proto = ''udp'', ru_BindUpstream = ''s''\<rparr>"

definition sample_route :: "RouteFn" where
  "sample_route b = Some (ForServer b)"

lemma sample_parse: "Parse ''h:53'' = Inr sample_target"
  by code_simp

lemma sample_decodes: "decodes calm_env (codec_env t) t ''h:53''"
  using sample_parse by (simp add: decodes_def codec_env_def calm_env_def addr_message_def)

lemma one_world_ok: "world_ok one_world"
  by (simp add: one_world_def world_ok_def)

lemma one_steady: "steady one_manager ''s'' one_pool"
  by (simp add: steady_def one_manager_def new_entry_def)

lemma sample_opens: "\<exists>p1 w1. openStream calm_env one_pool one_world = (Inr 2, p1, w1)"
proof -
  have "fst (openStream calm_env one_pool one_world) = Inr 2" by code_simp
  then show ?thesis by (metis prod.collapse)
qed

section \<open>Properties\<close>









end
