(* ===== verification/Admin.thy ===== *)
theory Admin
  imports Upstream Metrics
begin

text \<open>
  \<^verbatim>\<open>internal/admin\<close>: the administration server of a client or server process. It routes HTTP
  requests, checks the access token, shows the running configuration with its secrets redacted
  and accepts an edited configuration, putting the secrets back, validating it and replacing the
  file. The HTTP server, the YAML codec, the file system's outcomes and the process's status and
  reload functions are parameters.
\<close>

section \<open>Text exposition\<close>

text \<open>The lines of the metrics page, each a name, its labels and its value. The round trip time is kept
  in microseconds.\<close>

datatype sample = Plain string "64 word" | Labelled string "(string \<times> string) list" int

definition WriteUpstream :: "ServerStatus list option \<Rightarrow> sample list" where
  "WriteUpstream raw =
     (case raw of None \<Rightarrow> [] | Some ups \<Rightarrow>
      concat (map (\<lambda>u.
       [Labelled ''paqetpremium_upstream_healthy'' [(''name'', sv_Name u), (''addr'', sv_Addr u)] (of_bool (sv_Healthy u)),
        Labelled ''paqetpremium_upstream_active'' [(''name'', sv_Name u)] (of_bool (sv_Active u)),
        Labelled ''paqetpremium_upstream_rtt_ms'' [(''name'', sv_Name u)] (sv_RTTMicros u),
        Labelled ''paqetpremium_upstream_sessions'' [(''name'', sv_Name u)] (int (sv_Sessions u))]) ups))"

definition WritePrometheus :: "Collector \<Rightarrow> int \<Rightarrow> ServerStatus list option \<Rightarrow> sample list" where
  "WritePrometheus snap sessions ups =
     (if sessions > 0 then [Labelled ''paqetpremium_tunnel_sessions'' [] sessions] else [])
     @ [Plain ''paqetpremium_bytes_in_total'' (mt_BytesIn snap),
        Plain ''paqetpremium_bytes_out_total'' (mt_BytesOut snap),
        Plain ''paqetpremium_tcp_accepted_total'' (mt_TCPAccepted snap),
        Plain ''paqetpremium_tcp_active'' (mt_TCPActive snap),
        Plain ''paqetpremium_udp_packets_total'' (mt_UDPPackets snap),
        Plain ''paqetpremium_relay_tcp_total'' (mt_RelayTCP snap),
        Plain ''paqetpremium_relay_udp_total'' (mt_RelayUDP snap),
        Plain ''paqetpremium_udp_dgram_flows_total'' (mt_UDPDgramFlows snap),
        Plain ''paqetpremium_udp_dgram_in_total'' (mt_UDPDgramIn snap),
        Plain ''paqetpremium_udp_dgram_out_total'' (mt_UDPDgramOut snap),
        Plain ''paqetpremium_udp_dgram_dropped_total'' (mt_UDPDgramDropped snap),
        Plain ''paqetpremium_errors_total'' (mt_Errors snap)]
     @ WriteUpstream ups"

section \<open>Data\<close>

definition version_Name :: string where "version_Name = ''PaqetPremium''"
definition version_Version :: string where "version_Version = ''0.18.0''"

text \<open>The status of the process; \<open>st_Upstreams\<close> is nil for a server.\<close>

record Status =
  st_Core :: string
  st_Version :: string
  st_Role :: string
  st_Name :: string
  st_Strategy :: string
  st_Active :: string
  st_Listen :: string
  st_Sessions :: int
  st_Upstreams :: "ServerStatus list option"
  st_Stats :: "Collector option"

definition redactedMark :: string where "redactedMark = ''***REDACTED***''"

text \<open>Files: path to mode and content.\<close>

type_synonym files = "string \<rightharpoonup> (nat \<times> byte list)"

text \<open>
  \<open>os_write\<close>: \<open>None\<close> when writing succeeds, else the error and what the file holds then (nothing
  changed when it could not be opened); \<open>os_rename\<close>: the error of a rename, if it fails.
\<close>

record os =
  os_write :: "string \<Rightarrow> byte list \<Rightarrow> (error \<times> byte list option) option"
  os_rename :: "string \<Rightarrow> string \<Rightarrow> error option"

record yaml =
  y_Marshal :: "Config \<Rightarrow> byte list res"
  y_Unmarshal :: "byte list \<Rightarrow> Config res"

text \<open>A nil \<^verbatim>\<open>reload\<close> or \<^verbatim>\<open>getConfig\<close> function is \<open>None\<close>; \<^verbatim>\<open>getConfig\<close> may return nil.\<close>

record AdminServer =
  as_cfg :: "AdminConfig option"
  as_status :: Status
  as_reload :: "(files \<Rightarrow> error option) option"
  as_cfgPath :: string
  as_getConfig :: "Config option option"

definition admin_New :: "AdminConfig option \<Rightarrow> Status \<Rightarrow> (files \<Rightarrow> error option) option \<Rightarrow> AdminServer" where
  "admin_New cfg status reload = \<lparr>as_cfg = cfg, as_status = status, as_reload = reload, as_cfgPath = [], as_getConfig = None\<rparr>"

definition WithConfigEditor :: "AdminServer \<Rightarrow> string \<Rightarrow> Config option \<Rightarrow> AdminServer" where
  "WithConfigEditor s path get = s\<lparr>as_cfgPath := path, as_getConfig := Some get\<rparr>"

record http_request =
  rq_Method :: string
  rq_Path :: string
  rq_TokenQuery :: string
  rq_Authorization :: string
  rq_Body :: "byte list"
  rq_BodyErr :: "error option"

text \<open>\<^verbatim>\<open>HttpError\<close> carries the status code and the text of \<^verbatim>\<open>http.Error\<close>.\<close>

datatype reply =
    HttpError nat error
  | PlainOK
  | DashboardHTML
  | StatusJSON Status
  | MetricsText "sample list"
  | ConfigYAML "byte list"
  | JSONResult string

section \<open>Access\<close>

definition authorized :: "string \<Rightarrow> http_request \<Rightarrow> bool" where
  "authorized cfgToken r =
     (let token = trim_space cfgToken; hdr = trim_space (rq_Authorization r)
      in if token = [] then True
         else if trim_space (rq_TokenQuery r) = token then True
         else if has_prefix hdr ''Bearer '' then drop 7 hdr = token
         else hdr = token)"

definition auth :: "string \<Rightarrow> (http_request \<Rightarrow> files \<Rightarrow> reply \<times> files) \<Rightarrow> http_request \<Rightarrow> files \<Rightarrow> reply \<times> files" where
  "auth cfgToken h r fs =
     (if cfgToken = [] then h r fs
      else if \<not> authorized cfgToken r then (HttpError 401 (Errorf ''unauthorized'' []), fs)
      else h r fs)"

section \<open>Secrets\<close>

definition isRedacted :: "string \<Rightarrow> bool" where
  "isRedacted v = (let t = trim_space v in t = [] \<or> t = redactedMark)"

definition redact_key :: "string \<Rightarrow> string" where
  "redact_key k = (if blank k then k else redactedMark)"

definition redact_pass :: "SOCKS5Rule \<Rightarrow> SOCKS5Rule" where
  "redact_pass r =
     r\<lparr>s_Auth := map_option (\<lambda>a. if sa_Pass a \<noteq> [] then a\<lparr>sa_Pass := redactedMark\<rparr> else a) (s_Auth r)\<rparr>"

definition redact_secrets :: "Config \<Rightarrow> Config" where
  "redact_secrets cp =
     cp\<lparr>c_Transport := (c_Transport cp)\<lparr>t_KCP := (t_KCP (c_Transport cp))
          \<lparr>k_Key := redact_key (k_Key (t_KCP (c_Transport cp)))\<rparr>\<rparr>,
        c_Admin := map_option (\<lambda>a. a\<lparr>ad_Token := redact_key (ad_Token a)\<rparr>) (c_Admin cp),
        c_Upstream := map_option (\<lambda>u. u\<lparr>u_Servers :=
          map (\<lambda>s. s\<lparr>us_Key := redact_key (us_Key s)\<rparr>) (u_Servers u)\<rparr>) (c_Upstream cp),
        c_SOCKS5 := map redact_pass (c_SOCKS5 cp)\<rparr>"

definition redactConfig :: "yaml \<Rightarrow> Config \<Rightarrow> Config res" where
  "redactConfig ym c =
     (case y_Marshal ym c of Inl e \<Rightarrow> Inl e
      | Inr d \<Rightarrow> (case y_Unmarshal ym d of Inl e \<Rightarrow> Inl e | Inr cp \<Rightarrow> Inr (redact_secrets cp)))"

definition lookupUpstreamKey :: "UpstreamServer list \<Rightarrow> string \<Rightarrow> nat \<Rightarrow> string" where
  "lookupUpstreamKey servers name i =
     (case (if name \<noteq> [] then find (\<lambda>s. us_Name s = name) servers else None) of
        Some s \<Rightarrow> us_Key s
      | None \<Rightarrow> if i < length servers then us_Key (servers ! i) else [])"

definition restore_server :: "UpstreamServer list \<Rightarrow> nat \<Rightarrow> UpstreamServer \<Rightarrow> UpstreamServer" where
  "restore_server cur i s =
     (if isRedacted (us_Key s) then
        (let key = lookupUpstreamKey cur (us_Name s) i in if key \<noteq> [] then s\<lparr>us_Key := key\<rparr> else s)
      else s)"

definition restore_pass :: "SOCKS5Rule list \<Rightarrow> nat \<Rightarrow> SOCKS5Rule \<Rightarrow> SOCKS5Rule" where
  "restore_pass cur i r =
     (case s_Auth r of
        None \<Rightarrow> r
      | Some a \<Rightarrow>
          if isRedacted (sa_Pass a) \<and> i < length cur then
            (case s_Auth (cur ! i) of None \<Rightarrow> r | Some a' \<Rightarrow> r\<lparr>s_Auth := Some (a\<lparr>sa_Pass := sa_Pass a'\<rparr>)\<rparr>)
          else r)"

definition restoreSecrets :: "Config \<Rightarrow> Config option \<Rightarrow> Config" where
  "restoreSecrets inc cur =
     (case cur of
        None \<Rightarrow> inc
      | Some cur \<Rightarrow>
          inc\<lparr>c_Transport := (if isRedacted (k_Key (t_KCP (c_Transport inc)))
                then (c_Transport inc)\<lparr>t_KCP := (t_KCP (c_Transport inc))
                       \<lparr>k_Key := k_Key (t_KCP (c_Transport cur))\<rparr>\<rparr>
                else c_Transport inc),
              c_Admin := (case (c_Admin inc, c_Admin cur) of
                  (Some a, Some b) \<Rightarrow> Some (if isRedacted (ad_Token a) then a\<lparr>ad_Token := ad_Token b\<rparr> else a)
                | _ \<Rightarrow> c_Admin inc),
              c_Upstream := (case (c_Upstream inc, c_Upstream cur) of
                  (Some u, Some v) \<Rightarrow>
                    Some (u\<lparr>u_Servers := map (\<lambda>(i, s). restore_server (u_Servers v) i s) (enumerate 0 (u_Servers u))\<rparr>)
                | _ \<Rightarrow> c_Upstream inc),
              c_SOCKS5 := map (\<lambda>(i, r). restore_pass (c_SOCKS5 cur) i r) (enumerate 0 (c_SOCKS5 inc))\<rparr>)"

section \<open>Handlers\<close>

definition configEditor :: "AdminServer \<Rightarrow> bool" where
  "configEditor s = (\<not> blank (as_cfgPath s) \<and> as_getConfig s \<noteq> None)"

definition current_config :: "AdminServer \<Rightarrow> Config option" where
  "current_config s = (case as_getConfig s of None \<Rightarrow> None | Some c \<Rightarrow> c)"

definition getConfigYAML :: "yaml \<Rightarrow> AdminServer \<Rightarrow> reply" where
  "getConfigYAML ym s =
     (case current_config s of
        None \<Rightarrow> HttpError 503 (Errorf ''config unavailable'' [])
      | Some cur \<Rightarrow>
          (case redactConfig ym cur of
             Inl e \<Rightarrow> HttpError 500 e
           | Inr red \<Rightarrow> (case y_Marshal ym red of Inl e \<Rightarrow> HttpError 500 e | Inr out \<Rightarrow> ConfigYAML out)))"

text \<open>\<^verbatim>\<open>os.WriteFile\<close>: an existing file keeps its mode.\<close>

definition os_WriteFile :: "os \<Rightarrow> string \<Rightarrow> byte list \<Rightarrow> nat \<Rightarrow> files \<Rightarrow> error option \<times> files" where
  "os_WriteFile os path data mode fs =
     (let m = (case fs path of None \<Rightarrow> mode | Some (m, _) \<Rightarrow> m)
      in case os_write os path data of
           None \<Rightarrow> (None, fs(path \<mapsto> (m, data)))
         | Some (e, None) \<Rightarrow> (Some e, fs)
         | Some (e, Some part) \<Rightarrow> (Some e, fs(path \<mapsto> (m, part))))"

definition os_Rename :: "os \<Rightarrow> string \<Rightarrow> string \<Rightarrow> files \<Rightarrow> error option \<times> files" where
  "os_Rename os a b fs =
     (case os_rename os a b of
        Some e \<Rightarrow> (Some e, fs)
      | None \<Rightarrow> (None, (fs(a := None))(b := fs a)))"

definition writeConfigFile :: "os \<Rightarrow> AdminServer \<Rightarrow> byte list \<Rightarrow> files \<Rightarrow> error option \<times> files" where
  "writeConfigFile os s data fs =
     (let mode = (case fs (as_cfgPath s) of None \<Rightarrow> 384 | Some (m, _) \<Rightarrow> m);
          tmp = as_cfgPath s @ ''.tmp''
      in case os_WriteFile os tmp data mode fs of
           (Some e, fs1) \<Rightarrow> (Some e, fs1)
         | (None, fs1) \<Rightarrow> os_Rename os tmp (as_cfgPath s) fs1)"

text \<open>A request body is cut off after 1 MiB; \<open>rq_BodyErr\<close> is the error of reading it, if any.\<close>

definition bodyLimit :: nat where "bodyLimit = 2 ^ 20"

definition putConfigYAML :: "yaml \<Rightarrow> os \<Rightarrow> AdminServer \<Rightarrow> http_request \<Rightarrow> files \<Rightarrow> reply \<times> files" where
  "putConfigYAML ym os s r fs =
     (case rq_BodyErr r of
        Some e \<Rightarrow> (HttpError 400 (Wrapf ''read body: '' [] e), fs)
      | None \<Rightarrow>
     (case y_Unmarshal ym (take bodyLimit (rq_Body r)) of
        Inl e \<Rightarrow> (HttpError 400 (Wrapf ''parse yaml: '' [] e), fs)
      | Inr inc0 \<Rightarrow>
          (case Validate (restoreSecrets inc0 (current_config s)) of
             Inl e \<Rightarrow> (HttpError 400 (Wrapf ''invalid config: '' [] e), fs)
           | Inr inc \<Rightarrow>
               (case y_Marshal ym inc of
                  Inl e \<Rightarrow> (HttpError 500 e, fs)
                | Inr out \<Rightarrow>
                    (case writeConfigFile os s out fs of
                       (Some e, fs1) \<Rightarrow> (HttpError 500 (Wrapf ''write config: '' [] e), fs1)
                     | (None, fs1) \<Rightarrow>
                         (case as_reload s of
                            None \<Rightarrow> (JSONResult ''saved'', fs1)
                          | Some reload \<Rightarrow>
                              (case reload fs1 of
                                 Some e \<Rightarrow> (HttpError 500 (Wrapf ''saved, but reload failed (restart may be required): '' [] e), fs1)
                               | None \<Rightarrow> (JSONResult ''saved'', fs1))))))))"

definition handleConfig :: "yaml \<Rightarrow> os \<Rightarrow> AdminServer \<Rightarrow> http_request \<Rightarrow> files \<Rightarrow> reply \<times> files" where
  "handleConfig ym os s r fs =
     (if rq_Method r = ''GET'' then (getConfigYAML ym s, fs)
      else if rq_Method r = ''POST'' \<or> rq_Method r = ''PUT'' then putConfigYAML ym os s r fs
      else (HttpError 405 (Errorf ''method not allowed'' []), fs))"

definition handleHealthz :: reply where
  "handleHealthz = PlainOK"

definition handleStatus :: "AdminServer \<Rightarrow> reply" where
  "handleStatus s =
     (let st = as_status s;
          st1 = (if st_Core st = [] then st\<lparr>st_Core := version_Name\<rparr> else st);
          st2 = (if st_Version st1 = [] then st1\<lparr>st_Version := version_Version\<rparr> else st1)
      in StatusJSON st2)"

text \<open>\<open>mt\<close> is the process-wide collector, used when the status carries none.\<close>

definition handleMetrics :: "Collector \<Rightarrow> AdminServer \<Rightarrow> reply" where
  "handleMetrics mt s =
     (let st = as_status s;
          snap = (case st_Stats st of Some c \<Rightarrow> c | None \<Rightarrow> mt_Snapshot (Some mt))
      in MetricsText (WritePrometheus snap (st_Sessions st) (st_Upstreams st)))"

definition handleReload :: "AdminServer \<Rightarrow> http_request \<Rightarrow> files \<Rightarrow> reply \<times> files" where
  "handleReload s r fs =
     ((if rq_Method r \<noteq> ''POST'' then HttpError 405 (Errorf ''method not allowed'' [])
       else (case as_reload s of
               None \<Rightarrow> HttpError 501 (Errorf ''reload not supported'' [])
             | Some reload \<Rightarrow> (case reload fs of Some e \<Rightarrow> HttpError 500 e | None \<Rightarrow> JSONResult ''reloaded''))), fs)"

definition handleDashboard :: "http_request \<Rightarrow> reply" where
  "handleDashboard r = (if rq_Path r \<noteq> ''/'' then HttpError 404 (Errorf ''404 page not found'' []) else DashboardHTML)"

text \<open>The routes \<^verbatim>\<open>Run\<close> registers; the server does not start without a listen address.\<close>

definition serve_http :: "yaml \<Rightarrow> os \<Rightarrow> Collector \<Rightarrow> AdminServer \<Rightarrow> http_request \<Rightarrow> files \<Rightarrow> (reply \<times> files) option" where
  "serve_http ym os mt s r fs =
     (case as_cfg s of
        None \<Rightarrow> None
      | Some cfg \<Rightarrow>
          if blank (ad_Listen cfg) then None
          else Some
            (if rq_Path r = ''/healthz'' then (handleHealthz, fs)
             else if rq_Path r = ''/api/v1/status'' then auth (ad_Token cfg) (\<lambda>r fs. (handleStatus s, fs)) r fs
             else if rq_Path r = ''/api/v1/reload'' \<and> as_reload s \<noteq> None then auth (ad_Token cfg) (handleReload s) r fs
             else if rq_Path r = ''/api/v1/config'' \<and> configEditor s then auth (ad_Token cfg) (handleConfig ym os s) r fs
             else if rq_Path r = ''/metrics'' \<and> ad_Metrics cfg then auth (ad_Token cfg) (\<lambda>r fs. (handleMetrics mt s, fs)) r fs
             else (handleDashboard r, fs)))"

section \<open>Redaction and restoration\<close>

lemma trim_mark [simp]: "trim_space redactedMark = redactedMark"
  unfolding redactedMark_def by code_simp

lemma isRedacted_redact [simp]: "isRedacted (redact_key k)"
  by (simp add: isRedacted_def redact_key_def Let_def)

lemma isRedacted_mark [simp]: "isRedacted redactedMark" "isRedacted []"
  by (simp_all add: isRedacted_def)

lemma lookup_own_key:
  assumes "distinct (filter (\<lambda>n. n \<noteq> []) (map us_Name ss))" and "i < length ss"
  shows "lookupUpstreamKey ss (us_Name (ss ! i)) i = us_Key (ss ! i)"
proof (cases "us_Name (ss ! i) = []")
  case True
  with assms(2) show ?thesis by (simp add: lookupUpstreamKey_def)
next
  case False
  have "find (\<lambda>s. us_Name s = us_Name (ss ! i)) ss = Some (ss ! i)"
  proof -
    have "us_Name (ss ! j) \<noteq> us_Name (ss ! i)" if "j < i" for j
    proof
      assume eq: "us_Name (ss ! j) = us_Name (ss ! i)"
      have "ss = take i ss @ ss ! i # drop (Suc i) ss" using assms(2) by (rule id_take_nth_drop)
      then have "distinct (filter (\<lambda>n. n \<noteq> []) (map us_Name (take i ss @ ss ! i # drop (Suc i) ss)))"
        using assms(1) by metis
      then have "us_Name (ss ! i) \<notin> set (map us_Name (take i ss))" using False by auto
      moreover have "ss ! j \<in> set (take i ss)" using that assms(2) by (metis in_set_conv_nth length_take min_less_iff_conj nth_take order.strict_trans)
      ultimately show False using eq by (metis image_eqI list.set_map)
    qed
    with assms(2) show ?thesis by (auto simp: find_Some_iff)
  qed
  with False show ?thesis by (simp add: lookupUpstreamKey_def)
qed

lemma restore_redacted_servers:
  assumes "distinct (filter (\<lambda>n. n \<noteq> []) (map us_Name ss))"
  shows "map (\<lambda>(i, s). restore_server ss i s) (enumerate 0 (map (\<lambda>s. s\<lparr>us_Key := redact_key (us_Key s)\<rparr>) ss)) = ss"
proof (rule nth_equalityI)
  fix i
  assume "i < length (map (\<lambda>(i, s). restore_server ss i s) (enumerate 0 (map (\<lambda>s. s\<lparr>us_Key := redact_key (us_Key s)\<rparr>) ss)))"
  then have i: "i < length ss" by simp
  let ?s = "(ss ! i)\<lparr>us_Key := redact_key (us_Key (ss ! i))\<rparr>"
  have "restore_server ss i ?s = ss ! i"
    using lookup_own_key [OF assms i] by (simp add: restore_server_def Let_def redact_key_def)
  with i show "map (\<lambda>(i, s). restore_server ss i s) (enumerate 0 (map (\<lambda>s. s\<lparr>us_Key := redact_key (us_Key s)\<rparr>) ss)) ! i = ss ! i"
    by (simp add: nth_enumerate_eq)
qed simp

lemma restore_redacted_pass:
  "map (\<lambda>(i, r). restore_pass rs i r) (enumerate 0 (map redact_pass rs)) = rs"
proof (rule nth_equalityI)
  fix i
  assume "i < length (map (\<lambda>(i, r). restore_pass rs i r) (enumerate 0 (map redact_pass rs)))"
  then have i: "i < length rs" by simp
  have "restore_pass rs i (redact_pass (rs ! i)) = rs ! i"
    using i by (cases "s_Auth (rs ! i)") (auto simp: restore_pass_def redact_pass_def)
  with i show "map (\<lambda>(i, r). restore_pass rs i r) (enumerate 0 (map redact_pass rs)) ! i = rs ! i"
    by (simp add: nth_enumerate_eq)
qed simp

definition servers_of :: "Config \<Rightarrow> UpstreamServer list" where
  "servers_of c = (case c_Upstream c of None \<Rightarrow> [] | Some u \<Rightarrow> u_Servers u)"

definition names_distinct :: "Config \<Rightarrow> bool" where
  "names_distinct c = distinct (filter (\<lambda>n. n \<noteq> []) (map us_Name (servers_of c)))"

lemma restore_redact: 
  assumes "names_distinct c"
  shows "restoreSecrets (redact_secrets c) (Some c) = c"
proof -
  have "(case c_Upstream c of None \<Rightarrow> True | Some u \<Rightarrow> distinct (filter (\<lambda>n. n \<noteq> []) (map us_Name (u_Servers u))))"
    using assms by (simp add: names_distinct_def servers_of_def split: option.splits)
  then show ?thesis
    by (cases "c_Upstream c"; cases "c_Admin c")
      (simp_all add: restoreSecrets_def redact_secrets_def restore_redacted_servers restore_redacted_pass)
qed

text \<open>The keys, tokens and passwords the redaction covers.\<close>

definition shown_secrets :: "Config \<Rightarrow> string list" where
  "shown_secrets c = k_Key (t_KCP (c_Transport c)) # map us_Key (servers_of c)
     @ (case c_Admin c of None \<Rightarrow> [] | Some a \<Rightarrow> [ad_Token a])
     @ concat (map (\<lambda>r. case s_Auth r of None \<Rightarrow> [] | Some a \<Rightarrow> [sa_Pass a]) (c_SOCKS5 c))"

lemma redact_pass_shown: "s_Auth (redact_pass r) = Some z \<Longrightarrow> sa_Pass z = [] \<or> sa_Pass z = redactedMark"
  by (cases "s_Auth r"; cases "sa_Pass (the (s_Auth r)) = []") (auto simp: redact_pass_def)

lemma redacted_shown: "x \<in> set (shown_secrets (redact_secrets c)) \<Longrightarrow> blank x \<or> x = redactedMark"
  by (auto simp: shown_secrets_def redact_secrets_def servers_of_def redact_key_def
      trim_empty dest!: redact_pass_shown [OF sym] split: option.splits if_splits)

text \<open>The key in a server's own transport block is not among them.\<close>

lemma override_key_shown:
  assumes "u_Servers u = [s]" and "us_Transport s = Some t" and "c_Upstream c = Some u"
  shows "map us_Transport (servers_of (redact_secrets c)) = [Some t]"
  using assms by (simp add: servers_of_def redact_secrets_def)

section \<open>Saving\<close>

lemma writeConfigFile_atomic:
  assumes "writeConfigFile os s data fs = (r, fs')"
  shows "map_option snd (fs' (as_cfgPath s)) = (if r = None then Some data else map_option snd (fs (as_cfgPath s)))
     \<and> (\<forall>p. p \<noteq> as_cfgPath s \<and> p \<noteq> as_cfgPath s @ ''.tmp'' \<longrightarrow> fs' p = fs p)"
  using assms
  by (auto simp: writeConfigFile_def os_WriteFile_def os_Rename_def Let_def split: option.splits prod.splits if_splits)

text \<open>A request whose edited configuration passes validation, and its encoding.\<close>

definition acceptable :: "yaml \<Rightarrow> AdminServer \<Rightarrow> http_request \<Rightarrow> byte list \<Rightarrow> bool" where
  "acceptable ym s r out \<longleftrightarrow> rq_BodyErr r = None \<and> (\<exists>inc0 inc. y_Unmarshal ym (take bodyLimit (rq_Body r)) = Inr inc0
     \<and> Validate (restoreSecrets inc0 (current_config s)) = Inr inc \<and> y_Marshal ym inc = Inr out)"

lemma put_rejects:
  assumes "\<And>out. \<not> acceptable ym s r out"
  shows "\<exists>n e. putConfigYAML ym os s r fs = (HttpError n e, fs)"
proof (cases "rq_BodyErr r")
  case (Some e)
  then show ?thesis by (simp add: putConfigYAML_def)
next
  case b: None
  show ?thesis
  proof (cases "y_Unmarshal ym (take bodyLimit (rq_Body r))")
    case (Inl e)
    with b show ?thesis by (simp add: putConfigYAML_def)
  next
    case u: (Inr inc0)
    show ?thesis
    proof (cases "Validate (restoreSecrets inc0 (current_config s))")
      case (Inl e)
      with b u show ?thesis by (simp add: putConfigYAML_def)
    next
      case v: (Inr inc)
      with b u assms obtain e where "y_Marshal ym inc = Inl e"
        by (cases "y_Marshal ym inc") (auto simp: acceptable_def)
      with b u v show ?thesis by (simp add: putConfigYAML_def)
    qed
  qed
qed

lemma put_writes:
  assumes "acceptable ym s r out" and "writeConfigFile os s out fs = (e, fs')"
  shows "\<exists>reply. putConfigYAML ym os s r fs = (reply, fs') \<and> (reply = JSONResult ''saved'' \<longrightarrow> e = None)"
proof -
  obtain inc0 inc where u: "rq_BodyErr r = None" "y_Unmarshal ym (take bodyLimit (rq_Body r)) = Inr inc0"
    "Validate (restoreSecrets inc0 (current_config s)) = Inr inc" "y_Marshal ym inc = Inr out"
    using assms(1) by (auto simp: acceptable_def)
  show ?thesis
  proof (cases e)
    case None
    with u assms(2) show ?thesis by (simp add: putConfigYAML_def split: option.split)
  next
    case (Some x)
    with u assms(2) show ?thesis by (simp add: putConfigYAML_def)
  qed
qed

section \<open>A sample editor\<close>

text \<open>A codec for two configurations, enough to run the handlers.\<close>

definition toy_yaml :: "Config \<Rightarrow> yaml" where
  "toy_yaml c = \<lparr>y_Marshal = (\<lambda>x. Inr (if x = c then [1] else [2])),
                 y_Unmarshal = (\<lambda>d. if d = [1] then Inr c else Inr (redact_secrets c))\<rparr>"

definition sample_status :: Status where
  "sample_status = \<lparr>st_Core = [], st_Version = [], st_Role = ''client'', st_Name = [], st_Strategy = [],
     st_Active = [], st_Listen = [], st_Sessions = 0, st_Upstreams = None, st_Stats = None\<rparr>"

definition calm_os :: os where
  "calm_os = \<lparr>os_write = (\<lambda>_ _. None), os_rename = (\<lambda>_ _. None)\<rparr>"

section \<open>Properties\<close>

text \<open>C36. Showing and saving back an unedited configuration changes nothing: the configuration shown
  to a client has no key, token or password in the fields the redaction covers, and when it is
  sent back as it is, the restored configuration is the running one. The YAML codec is assumed to
  read back what it wrote; the named servers must have different names.\<close>

theorem redaction_roundtrip:
  assumes yaml_roundtrip: "y_Marshal ym c = Inr d" "y_Unmarshal ym d = Inr c" and "names_distinct c"
  shows "case redactConfig ym c of Inl e \<Rightarrow> False
    | Inr red \<Rightarrow> (\<forall>x \<in> set (shown_secrets red). blank x \<or> x = redactedMark) \<and> restoreSecrets red (Some c) = c"
  using assms redacted_shown by (auto simp: redactConfig_def restore_redact)

theorem redaction_roundtrip_witness:
  "case redactConfig (toy_yaml sample_client) sample_client of Inl e \<Rightarrow> False
    | Inr red \<Rightarrow> restoreSecrets red (Some sample_client) = sample_client"
proof -
  have "names_distinct sample_client" by code_simp
  from redaction_roundtrip [OF _ _ this, where ym = "toy_yaml sample_client" and d = "[1]"] show ?thesis
    by (auto simp: toy_yaml_def split: sum.splits)
qed

text \<open>C35. Saving is safe: whatever the body, the codec, the disk and the reload do, afterwards the
  configuration file is either the file as it was, or it holds exactly the encoding of a
  configuration that passed validation after the secrets were put back; no file but the
  configuration and its temporary copy is touched, and a reply of success means it was saved.\<close>

theorem save_config_safe:
  "case putConfigYAML ym os s r fs of (reply, fs') \<Rightarrow>
     (map_option snd (fs' (as_cfgPath s)) = map_option snd (fs (as_cfgPath s))
      \<or> (\<exists>out. acceptable ym s r out \<and> map_option snd (fs' (as_cfgPath s)) = Some out))
     \<and> (\<forall>p. p \<noteq> as_cfgPath s \<and> p \<noteq> as_cfgPath s @ ''.tmp'' \<longrightarrow> fs' p = fs p)
     \<and> (reply = JSONResult ''saved'' \<longrightarrow>
          (\<exists>out. acceptable ym s r out \<and> map_option snd (fs' (as_cfgPath s)) = Some out))"
proof (cases "\<exists>out. acceptable ym s r out")
  case False
  then obtain n e where p: "putConfigYAML ym os s r fs = (HttpError n e, fs)" using put_rejects by blast
  show ?thesis unfolding p by simp
next
  case True
  then obtain out where a: "acceptable ym s r out" by blast
  obtain e fs' where w: "writeConfigFile os s out fs = (e, fs')" by fastforce
  obtain reply where p: "putConfigYAML ym os s r fs = (reply, fs')" "reply = JSONResult ''saved'' \<longrightarrow> e = None"
    using put_writes [OF a w] by blast
  from writeConfigFile_atomic [OF w] a p(2) show ?thesis unfolding p(1) prod.case by (cases e) auto
qed

theorem save_config_safe_witness:
  "case putConfigYAML (toy_yaml sample_client) calm_os
      (WithConfigEditor (admin_New None sample_status None) ''c.yaml'' (Some sample_client))
      \<lparr>rq_Method = ''PUT'', rq_Path = ''/api/v1/config'', rq_TokenQuery = [], rq_Authorization = [], rq_Body = [9], rq_BodyErr = None\<rparr>
      (\<lambda>_. None) of
     (reply, fs') \<Rightarrow> fs' ''other'' = None"
  using save_config_safe [where ym = "toy_yaml sample_client" and os = calm_os
      and s = "WithConfigEditor (admin_New None sample_status None) ''c.yaml'' (Some sample_client)"
      and r = "\<lparr>rq_Method = ''PUT'', rq_Path = ''/api/v1/config'', rq_TokenQuery = [], rq_Authorization = [], rq_Body = [9], rq_BodyErr = None\<rparr>"
      and fs = "\<lambda>_. None"]
  by (auto simp: WithConfigEditor_def split: prod.splits)

text \<open>C37. The token protects the administration interface: when a token is set, a request that does
  not carry it (as the token query parameter, as the Authorization header, or there after
  \<open>Bearer\<close>) gets nothing but the dashboard page, the health probe, a 404 or a 401, and
  changes no file.\<close>

theorem token_protects:
  assumes "as_cfg s = Some cfg" and "\<not> blank (ad_Token cfg)"
    and "trim_space (rq_TokenQuery r) \<noteq> trim_space (ad_Token cfg)"
    and "trim_space (rq_Authorization r) \<notin> {trim_space (ad_Token cfg), ''Bearer '' @ trim_space (ad_Token cfg)}"
  shows "case serve_http ym os mt s r fs of None \<Rightarrow> True
    | Some (reply, fs') \<Rightarrow> fs' = fs
        \<and> (reply \<in> {PlainOK, DashboardHTML} \<or> (\<exists>e. reply = HttpError 404 e \<or> reply = HttpError 401 e))"
proof -
  have t: "ad_Token cfg \<noteq> []" using assms(2) by (auto simp: trim_empty)
  have "\<not> authorized (ad_Token cfg) r"
  proof
    assume a: "authorized (ad_Token cfg) r"
    let ?h = "trim_space (rq_Authorization r)"
    have h: "if has_prefix ?h ''Bearer '' then drop 7 ?h = trim_space (ad_Token cfg) else ?h = trim_space (ad_Token cfg)"
      using a assms(2,3) by (simp add: authorized_def Let_def)
    moreover have "?h = ''Bearer '' @ drop 7 ?h" if "has_prefix ?h ''Bearer ''"
    proof -
      have "length ''Bearer '' = 7" by simp
      then show ?thesis using that append_take_drop_id [of 7 ?h] by (simp only: has_prefix_def)
    qed
    ultimately show False using assms(4) by (auto split: if_splits)
  qed
  with t assms(1) show ?thesis by (auto simp: serve_http_def auth_def handleDashboard_def handleHealthz_def)
qed

theorem token_protects_witness:
  "case serve_http (toy_yaml sample_client) calm_os zero_Collector
      (WithConfigEditor (admin_New (Some \<lparr>ad_Listen = '':9000'', ad_Metrics = True, ad_Token = ''tok''\<rparr>) sample_status None) ''c.yaml'' (Some sample_client))
      \<lparr>rq_Method = ''GET'', rq_Path = ''/api/v1/config'', rq_TokenQuery = [], rq_Authorization = ''Bearer no'', rq_Body = [], rq_BodyErr = None\<rparr>
      (\<lambda>_. None) of None \<Rightarrow> True | Some (reply, fs') \<Rightarrow> fs' = (\<lambda>_. None)"
proof -
  let ?s = "WithConfigEditor (admin_New (Some \<lparr>ad_Listen = '':9000'', ad_Metrics = True, ad_Token = ''tok''\<rparr>) sample_status None) ''c.yaml'' (Some sample_client)"
  let ?r = "\<lparr>rq_Method = ''GET'', rq_Path = ''/api/v1/config'', rq_TokenQuery = [], rq_Authorization = ''Bearer no'', rq_Body = [], rq_BodyErr = None\<rparr>"
  let ?c = "\<lparr>ad_Listen = '':9000'', ad_Metrics = True, ad_Token = ''tok''\<rparr>"
  have "as_cfg ?s = Some ?c" by (simp add: WithConfigEditor_def admin_New_def)
  moreover have "\<not> blank (ad_Token ?c)" by code_simp
  moreover have "trim_space (rq_TokenQuery ?r) \<noteq> trim_space (ad_Token ?c)" by code_simp
  moreover have "trim_space (rq_Authorization ?r) \<notin> {trim_space (ad_Token ?c), ''Bearer '' @ trim_space (ad_Token ?c)}"
    by code_simp
  ultimately show ?thesis
    using token_protects [where s = ?s and r = ?r and cfg = ?c and ym = "toy_yaml sample_client" and os = calm_os
        and mt = zero_Collector and fs = "\<lambda>_. None"]
    by (auto split: option.splits prod.splits)
qed

end
