(* ===== verification/ServerProc.thy ===== *)
theory ServerProc
  imports Exit Firewall Admin
begin

text \<open>
  The server process of \<^verbatim>\<open>internal/tunnel/server.go\<close>: what \<^verbatim>\<open>Run\<close> sets up, its accept loop with
  all the sessions it serves at once, reloads while they run, and what it leaves behind. A session
  runs the transition system of \<open>Exit\<close> on the world, the counters and the packet connection that
  all sessions share; every other step is one of the process. \<open>pr_rts\<close> records the network
  runtimes whose firewall rules the process has asked for.
\<close>

section \<open>The server\<close>

text \<open>Reading and decoding the configuration file, as they are at the time of a call.\<close>

record loader =
  ld_read :: "string \<Rightarrow> byte list res"
  ld_yaml :: "byte list \<Rightarrow> Config res"

definition load_config :: "loader \<Rightarrow> string \<Rightarrow> Config res" where
  "load_config ld path = Load (ld_read ld) (ld_yaml ld) path"

record Server =
  sr_cfgPath :: string
  sr_cfg :: Config
  sr_sessions :: "64 word"

definition NewServer :: "Config \<Rightarrow> string \<Rightarrow> Server" where
  "NewServer cfg cfgPath = \<lparr>sr_cfgPath = cfgPath, sr_cfg = cfg, sr_sessions = 0\<rparr>"

abbreviation resolve :: "env \<Rightarrow> world \<Rightarrow> Config \<Rightarrow> NetworkRuntime res" where
  "resolve env w cfg \<equiv> ResolveNetwork (e_iface env) (e_rnd env w) cfg"

text \<open>What a reload may not change, compared in the order of the code.\<close>

definition reload_refused :: "Config \<Rightarrow> NetworkRuntime \<Rightarrow> Config \<Rightarrow> NetworkRuntime \<Rightarrow> error option" where
  "reload_refused old oldRT cfg newRT =
     (if t_Protocol (c_Transport old) \<noteq> t_Protocol (c_Transport cfg)
        then Some (Errorf ''reload cannot change transport.protocol; restart required'' [])
      else if k_Key (t_KCP (c_Transport old)) \<noteq> k_Key (t_KCP (c_Transport cfg))
        then Some (Errorf ''reload cannot change transport.kcp.key; restart required'' [])
      else if nr_Port oldRT \<noteq> nr_Port newRT
        then Some (Errorf ''reload cannot change tunnel port; restart required'' [])
      else if n_Interface (c_Network old) \<noteq> n_Interface (c_Network cfg)
        then Some (Errorf ''reload cannot change network.interface; restart required'' [])
      else None)"

text \<open>\<^verbatim>\<open>ReloadFromDisk\<close>: its error, the server, the firewall, and the runtime whose rules were asked for.\<close>

definition server_ReloadFromDisk ::
  "env \<Rightarrow> loader \<Rightarrow> 'fw netfilter \<Rightarrow> world \<Rightarrow> Server \<Rightarrow> 'fw \<Rightarrow> error option \<times> Server \<times> 'fw \<times> NetworkRuntime list" where
  "server_ReloadFromDisk env ld nf w s fw =
     (if sr_cfgPath s = [] then (Some (Errorf ''config path unknown'' []), s, fw, [])
      else
        let old = sr_cfg s
        in case load_config ld (sr_cfgPath s) of
             Inl e \<Rightarrow> (Some e, s, fw, [])
           | Inr cfg \<Rightarrow>
          (case resolve env w old of
             Inl e \<Rightarrow> (Some e, s, fw, [])
           | Inr oldRT \<Rightarrow>
          (case resolve env w cfg of
             Inl e \<Rightarrow> (Some e, s, fw, [])
           | Inr newRT \<Rightarrow>
          (case reload_refused old oldRT cfg newRT of
             Some e \<Rightarrow> (Some e, s, fw, [])
           | None \<Rightarrow> (None, s\<lparr>sr_cfg := cfg\<rparr>, snd (ipt_Apply nf (Some newRT) fw), [newRT])))))"

section \<open>Run\<close>

record 'fw proc =
  pr_srv :: Server
  pr_ln :: Listener
  pr_conn :: Conn
  pr_port :: int
  pr_applied :: bool
  pr_rts :: "NetworkRuntime list"
  pr_ctx :: bool
  pr_run :: "(Session \<times> exit_sys) list"
  pr_done :: "(Session \<times> exit_sys) list"
  pr_w :: world
  pr_c :: Collector
  pr_fw :: 'fw

text \<open>The deferred removal of the rules, registered when they were applied.\<close>

definition drop_rules :: "'fw netfilter \<Rightarrow> bool \<Rightarrow> 'fw \<Rightarrow> 'fw" where
  "drop_rules nf applied fw = (if applied then ipt_Remove nf fw else fw)"

text \<open>\<^verbatim>\<open>Run\<close> up to its accept loop; on an error the deferred calls have run.\<close>

definition server_start ::
  "crypto \<Rightarrow> env \<Rightarrow> 'fw netfilter \<Rightarrow> Server \<Rightarrow> world \<Rightarrow> Collector \<Rightarrow> 'fw \<Rightarrow> 'fw proc res \<times> world \<times> 'fw" where
  "server_start cr env nf s w c fw =
     (let cfg = sr_cfg s
      in case resolve env w cfg of
           Inl e \<Rightarrow> (Inl e, w, fw)
         | Inr netRT \<Rightarrow>
        (case ipt_Apply nf (Some netRT) fw of
           (er, fw1) \<Rightarrow>
             let applied = (er = None)
             in case OptionsFromConfig cr (e_pd env) RoleServer (c_Transport cfg) of
                  Inl e \<Rightarrow> (Inl e, w, drop_rules nf applied fw1)
                | Inr opt \<Rightarrow>
               (case pcap_Open env (int (w_clock w)) netRT w of
                  (Inl e, w1) \<Rightarrow> (Inl (Wrapf ''open pcap: %w'' [] e), w1, drop_rules nf applied fw1)
                | (Inr pconn, w1) \<Rightarrow>
               (case Listen cr env opt (conn_handles pconn) w1 of
                  (Inl e, w2) \<Rightarrow> (Inl (Wrapf ''%s listen: %w'' [o_Protocol opt] e), w2, drop_rules nf applied fw1)
                | (Inr ln, w2) \<Rightarrow>
                    (Inr \<lparr>pr_srv = s, pr_ln = ln, pr_conn = pconn, pr_port = nr_Port netRT, pr_applied = applied,
                          pr_rts = [netRT], pr_ctx = False, pr_run = [], pr_done = [], pr_w = w2, pr_c = c, pr_fw = fw1\<rparr>,
                     w2, fw1)))))"

text \<open>The state of a session on what is shared; \<open>absorb\<close> takes the shared part back.\<close>

definition xnow :: "'fw proc \<Rightarrow> exit_sys \<Rightarrow> exit_sys" where
  "xnow p x = x\<lparr>xs_pconn := Some (pr_conn p), xs_w := pr_w p, xs_c := pr_c p\<rparr>"

definition absorb :: "exit_sys \<Rightarrow> 'fw proc \<Rightarrow> 'fw proc" where
  "absorb x p = p\<lparr>pr_w := xs_w x, pr_c := xs_c x,
                  pr_conn := (case xs_pconn x of Some pc \<Rightarrow> pc | None \<Rightarrow> pr_conn p)\<rparr>"

definition count_sessions :: "64 word \<Rightarrow> 'fw proc \<Rightarrow> 'fw proc" where
  "count_sessions d p = p\<lparr>pr_srv := (pr_srv p)\<lparr>sr_sessions := sr_sessions (pr_srv p) + d\<rparr>\<rparr>"

text \<open>A session whose accept loop has returned accepts no more streams.\<close>

definition detached :: "Session \<Rightarrow> Session" where
  "detached sess = sess\<lparr>ss_Smux := None\<rparr>"

inductive proc_step :: "'fw netfilter \<Rightarrow> 'fw proc \<Rightarrow> 'fw proc \<Rightarrow> bool" for nf where
  Accepted: "\<not> pr_ctx p \<Longrightarrow> Accept env (pr_ln p) (pr_w p) = (Inr sess, w1) \<Longrightarrow>
     proc_step nf p ((count_sessions 1 p)
       \<lparr>pr_run := (sess, session_start sess (Some (pr_conn p)) w1 (pr_c p)) # pr_run p, pr_w := w1\<rparr>)"
| AcceptFailed: "Accept env (pr_ln p) (pr_w p) = (Inl e, w1) \<Longrightarrow> proc_step nf p (p\<lparr>pr_w := w1\<rparr>)"
| Serve: "pr_run p = as @ (sess, x) # bs \<Longrightarrow> exit_step env sess (xnow p x) x' \<Longrightarrow>
     proc_step nf p ((absorb x' p)\<lparr>pr_run := as @ (sess, x') # bs\<rparr>)"
| SessionEnds: "pr_run p = as @ (sess, x) # bs \<Longrightarrow>
     proc_step nf p ((count_sessions (-1) p)
       \<lparr>pr_run := as @ bs, pr_done := (sess, x) # pr_done p, pr_w := session_Close sess (pr_w p)\<rparr>)"
| WindDown: "pr_done p = as @ (sess, x) # bs \<Longrightarrow> exit_step env (detached sess) (xnow p x) x' \<Longrightarrow>
     proc_step nf p ((absorb x' p)\<lparr>pr_done := as @ (sess, x') # bs\<rparr>)"
| Reload: "server_ReloadFromDisk env ld nf (pr_w p) (pr_srv p) (pr_fw p) = (e, srv, fw, rts) \<Longrightarrow>
     proc_step nf p (p\<lparr>pr_srv := srv, pr_fw := fw, pr_rts := rts @ pr_rts p\<rparr>)"
| Cancelled: "proc_step nf p (p\<lparr>pr_ctx := True\<rparr>)"
| Unlistened: "pr_ctx p \<Longrightarrow> proc_step nf p (p\<lparr>pr_w := listener_Close (pr_ln p) (pr_w p)\<rparr>)"

text \<open>The deferred calls of a \<^verbatim>\<open>Run\<close> that returns.\<close>

definition server_return :: "'fw netfilter \<Rightarrow> 'fw proc \<Rightarrow> 'fw proc" where
  "server_return nf p = p\<lparr>pr_w := listener_Close (pr_ln p) (pr_w p), pr_fw := drop_rules nf (pr_applied p) (pr_fw p)\<rparr>"

inductive proc_run :: "'fw netfilter \<Rightarrow> 'fw proc \<Rightarrow> nat \<Rightarrow> 'fw proc \<Rightarrow> bool" for nf p0 where
  start: "proc_run nf p0 0 p0"
| step: "proc_run nf p0 k p \<Longrightarrow> proc_step nf p p' \<Longrightarrow> proc_run nf p0 (Suc k) p'"

section \<open>The admin interface of a server\<close>

definition server_status :: "Server \<Rightarrow> int \<Rightarrow> Collector \<Rightarrow> Status" where
  "server_status s listenPort c =
     \<lparr>st_Core = version_Name, st_Version = version_Version, st_Role = ''server'', st_Name = c_Name (sr_cfg s),
      st_Strategy = [], st_Active = [], st_Listen = itoa listenPort, st_Sessions = sint (sr_sessions s),
      st_Upstreams = None, st_Stats = Some (mt_Snapshot (Some c))\<rparr>"

text \<open>The admin server a process with start configuration \<open>cfg0\<close> runs, as it answers in state \<open>p\<close>.\<close>

definition server_startAdmin ::
  "env \<Rightarrow> (files \<Rightarrow> loader) \<Rightarrow> 'fw netfilter \<Rightarrow> Config \<Rightarrow> 'fw proc \<Rightarrow> AdminServer option" where
  "server_startAdmin env ld nf cfg0 p =
     (case c_Admin cfg0 of
        None \<Rightarrow> None
      | Some a \<Rightarrow>
          Some (WithConfigEditor
            (admin_New (Some a) (server_status (pr_srv p) (pr_port p) (pr_c p))
               (Some (\<lambda>fs. fst (server_ReloadFromDisk env (ld fs) nf (pr_w p) (pr_srv p) (pr_fw p)))))
            (sr_cfgPath (pr_srv p)) (Some (sr_cfg (pr_srv p)))))"

section \<open>A session among others\<close>

text \<open>
  What a session keeps of itself while others run: its flows are numbered up to the last identifier
  given out, at most \<open>k\<close>, and its handles are known.
\<close>

definition hub_known :: "nat \<Rightarrow> world \<Rightarrow> dgramHub option \<Rightarrow> bool" where
  "hub_known k w hub \<longleftrightarrow> (\<forall>f x. hub_flows hub f = Some x \<longrightarrow> unat f \<le> unat (hub_next hub) \<and> x < w_next w)
     \<and> unat (hub_next hub) \<le> k \<and> (\<forall>h q. hub = Some h \<longrightarrow> ss_quicConn (hb_sess h) = Some q \<longrightarrow> q < w_next w)"

abbreviation sockets :: "dgramHub option \<Rightarrow> handle set" where
  "sockets hub \<equiv> ran (hub_flows hub)"

lemma hub_known_mono: "hub_known k w hub \<Longrightarrow> k \<le> k' \<Longrightarrow> w_next w \<le> w_next w' \<Longrightarrow> hub_known k' w' hub"
  unfolding hub_known_def by (fastforce intro: order_less_le_trans)

lemma hub_known_free:
  assumes "hub_known k w hub" and "k < 2 ^ 64 - 1"
  shows "hub_flows hub (hub_next hub + 1) = None" and "unat (hub_next hub + 1) = unat (hub_next hub) + 1"
proof -
  have "unat (hub_next hub) + 1 < 2 ^ LENGTH(64)" using assms by (simp add: hub_known_def)
  then show u: "unat (hub_next hub + 1) = unat (hub_next hub) + 1" by (simp add: unat_word_ariths)
  show "hub_flows hub (hub_next hub + 1) = None"
  proof (rule ccontr)
    assume "hub_flows hub (hub_next hub + 1) \<noteq> None"
    then obtain x where "hub_flows hub (hub_next hub + 1) = Some x" by blast
    then have "unat (hub_next hub + 1) \<le> unat (hub_next hub)" using assms(1) unfolding hub_known_def by blast
    with u show False by simp
  qed
qed

lemma covered_acquired:
  assumes "covered C B w" and "acquire env c p w = (Inr h, w')" and "\<And>q. p = Some q \<Longrightarrow> q < w_next w"
  shows "covered (insert h C) B w'"
  using covered_grows [OF assms(1) grows_acquire [OF _ assms(2,3)]] assms(1) by (simp add: covered_def)

lemma covered_owned:
  assumes "covered C B w" and "acquire env c (Some q) w = (Inr h, w')" and "q \<in> C" and "q < w_next w"
  shows "covered C B w'"
  using assms acquire_ok [OF assms(2)] acquire_world_ok [OF _ assms(2)] by (auto simp: covered_def live_def)

lemma covered_ok: "covered C B w \<Longrightarrow> world_ok w"
  by (simp add: covered_def)

lemma closeFlow_next: "closeFlow h f w = (h', w') \<Longrightarrow> w_next w' = w_next w"
  by (auto simp: closeFlow_def)

lemma closeFlow_covered:
  assumes "covered (C \<union> ran (hb_flows h)) B w" and "closeFlow h f w = (h', w')"
  shows "covered (C \<union> ran (hb_flows h')) B w'" and "hub_known k w (Some h) \<Longrightarrow> hub_known k w' (Some h')"
proof -
  have h': "h' = h\<lparr>hb_flows := (hb_flows h)(f := None)\<rparr>" and w': "w' = close_opt (hb_flows h f) w"
    using assms(2) [symmetric] unfolding closeFlow_def prod.inject by (rule conjunct1, rule conjunct2)
  have ran: "ran (hb_flows h) \<subseteq> ran (hb_flows h') \<union> set_option (hb_flows h f)"
  proof
    fix x assume "x \<in> ran (hb_flows h)"
    then obtain g where g: "hb_flows h g = Some x" by (auto simp: ran_def)
    show "x \<in> ran (hb_flows h') \<union> set_option (hb_flows h f)"
    proof (cases "g = f")
      case False
      with g have "hb_flows h' g = Some x" unfolding h' by simp
      then show ?thesis by (blast intro: ranI)
    qed (use g in simp)
  qed
  have "covered (set_option (hb_flows h f) \<union> (C \<union> ran (hb_flows h'))) B w" by (rule covered_mono [OF assms(1)]) (use ran in blast)
  then show "covered (C \<union> ran (hb_flows h')) B w'"
    unfolding w' by (rule covered_release [OF _ close_opt_open subset_refl world_ok_close_opt]) (rule covered_ok [OF assms(1)])
  show "hub_known k w' (Some h')" if k: "hub_known k w (Some h)"
  proof -
    have "hb_flows h' g = Some x \<Longrightarrow> hb_flows h g = Some x" for g x unfolding h' by (simp split: if_splits)
    moreover have "hb_nextID h' = hb_nextID h" "hb_sess h' = hb_sess h" unfolding h' by simp_all
    ultimately show ?thesis using k unfolding hub_known_def closeFlow_next [OF assms(2)] hub_simps option.inject by metis
  qed
qed

lemma openFlow_covered:
  assumes c: "covered (C \<union> ran (hb_flows h)) B w" and o: "openFlow env h target w c = (Inr (f, conn), h', w', c')"
    and k: "hub_known k w (Some h)" "k < 2 ^ 64 - 1"
  shows "covered (C \<union> ran (hb_flows h')) B w'" and "hub_known (Suc k) w' (Some h')" and "w_next w \<le> w_next w'"
proof -
  note a = openFlow_ok [OF o]
  note fr = hub_known_free [OF k, simplified]
  have "ran (hb_flows h') = insert conn (ran (hb_flows h))" unfolding a(3,2) by (rule ran_map_upd) (rule fr(1))
  with covered_acquired [OF c a(1)] show "covered (C \<union> ran (hb_flows h')) B w'" by simp
  have n: "w_next w \<le> w_next w'" "conn < w_next w'" using acquire_ok [OF a(1)] by simp_all
  then show "w_next w \<le> w_next w'" by simp
  have "unat g \<le> unat f \<and> x < w_next w'" if g: "hb_flows h' g = Some x" for g x
  proof (cases "g = f")
    case True
    with g n a(3) show ?thesis by simp
  next
    case False
    then have "hb_flows h g = Some x" using g a(3) by simp
    with k(1) have "unat g \<le> unat (hb_nextID h)" "x < w_next w" by (auto simp: hub_known_def)
    with n(1) fr(2) a(2) show ?thesis by simp
  qed
  moreover have "unat f \<le> Suc k" using k(1) fr(2) a(2) by (simp add: hub_known_def)
  ultimately show "hub_known (Suc k) w' (Some h')" using k(1) n(1) a(4,5) by (fastforce simp: hub_known_def)
qed

text \<open>What a step of a session does to the books of the process: \<open>C\<close> are the handles of everybody else.\<close>

definition books :: "handle set \<Rightarrow> (handle \<times> handle option) set \<Rightarrow> nat \<Rightarrow> dgramHub option \<Rightarrow> world \<Rightarrow> bool" where
  "books C B k hub w \<longleftrightarrow> covered (C \<union> sockets hub) B w \<and> hub_known k w hub"

lemma books_unchanged: "books C B k hub w \<Longrightarrow> unchanged w w' \<Longrightarrow> books C B k hub w'"
  by (auto simp: books_def unchanged_def intro: covered_unchanged [unfolded unchanged_def] hub_known_mono)

lemma books_close: "books C B k hub w \<Longrightarrow> books C B k hub (close_handle h w)"
  by (auto simp: books_def covered_close intro: hub_known_mono)

lemma books_mono: "books C B k hub w \<Longrightarrow> k \<le> k' \<Longrightarrow> books C B k' hub w"
  by (auto simp: books_def intro: hub_known_mono)

lemma books_closeFlow: "books C B k (Some h) w \<Longrightarrow> closeFlow h f w = (h', w') \<Longrightarrow> books C B k (Some h') w'"
  using closeFlow_covered [of C h B w f h' w'] by (simp add: books_def)

lemma handle_dgram_books:
  assumes d: "handle_dgram env hub strm addr w c = (r, hub', w', c')" and b: "books C B k hub w"
    and k: "k < 2 ^ 64 - 1" and s: "strm < w_next w"
  shows "books C B (Suc k) hub' w' \<and> w_next w \<le> w_next w'"
proof (cases "hub = None \<or> addr = None")
  case True
  then have "hub' = hub" "w' = close_handle strm w" using d by (auto simp: handle_dgram_def split: option.splits)
  with books_mono [OF books_close [OF b]] show ?thesis by simp
next
  case False
  then obtain h a where ha: "hub = Some h" "addr = Some a" by auto
  have b': "covered (C \<union> ran (hb_flows h)) B w" "hub_known k w (Some h)" using b ha by (simp_all add: books_def)
  obtain q h1 w1 c1 where o: "openFlow env h (addr_String a) w c = (q, h1, w1, c1)" by (metis prod_cases4)
  show ?thesis
  proof (cases q)
    case (Inl e)
    with openFlow_fail o have e: "acquire env (NetDial ''udp'' (addr_String a)) None w = (Inl e, w1)" "h1 = h" by blast+
    then have "unchanged w w1" using acquire_unchanged covered_ok [OF b'(1)] by blast
    moreover from this have "books C B (Suc k) hub (close_handle strm w1)"
      using books_mono [OF books_close [OF books_unchanged [OF b]]] by simp
    ultimately show ?thesis using d ha o Inl e(2) by (auto simp: handle_dgram_def unchanged_def)
  next
    case (Inr y)
    obtain f conn where y: "y = (f, conn)" by fastforce
    note oc = openFlow_covered [OF b'(1) o [unfolded Inr y] b'(2) k]
    have b1: "books C B (Suc k) (Some h1) w1" using oc by (simp add: books_def)
    obtain er w2 where wr: "stream_write env strm w1 (put_uint64 f) = (er, w2)" by fastforce
    have u: "unchanged w1 w2" using stream_write_unchanged [OF covered_ok [OF oc(1)] _ wr] s oc(3) by simp
    have b2: "books C B (Suc k) (Some h1) w2" by (rule books_unchanged [OF b1 u])
    show ?thesis
    proof (cases er)
      case None
      with d ha o Inr y wr b2 oc(3) u show ?thesis by (auto simp: handle_dgram_def unchanged_def)
    next
      case (Some e)
      obtain h2 w3 where cf: "closeFlow h1 f w2 = (h2, w3)" by fastforce
      have "w_next w3 = w_next w2" by (rule closeFlow_next [OF cf])
      with d ha o Inr y wr Some cf books_close [OF books_closeFlow [OF b2 cf]] oc(3) u
      show ?thesis by (auto simp: handle_dgram_def unchanged_def)
    qed
  qed
qed

lemma handleStream_books:
  assumes h: "handleStream env pc rem hub strm sevs uevs w c = (r, pc', hub', w', c')" and r: "r \<noteq> StillRelaying"
    and b: "books C B k hub w" and k: "k < 2 ^ 64 - 1" and s: "strm < w_next w"
  shows "books C B (Suc k) hub' w' \<and> w_next w \<le> w_next w'"
proof (cases r)
  case Returned
  have ok: "world_ok w" using b covered_ok by (auto simp: books_def)
  from h [unfolded Returned] ok s show ?thesis
  proof (cases rule: handleStream_plain)
    case (plain w1)
    then show ?thesis
      using books_mono [OF books_close [OF books_unchanged [OF b plain(1)]]] by (simp add: unchanged_def)
  next
    case (dgram addr)
    from handle_dgram_books [OF this b k s] show ?thesis .
  qed
next
  case (FlowOpen f conn)
  obtain addr where "handle_dgram env hub strm addr w c = (FlowOpen f conn, hub', w', c')"
    using handleStream_flow [OF h [unfolded FlowOpen]] by blast
  from handle_dgram_books [OF this b k s] show ?thesis .
qed (use r in simp)

lemma exit_step_books:
  assumes st: "exit_step env sess x x'" and b: "books C B k (xs_hub x) (xs_w x)" and k: "k < 2 ^ 64 - 1"
    and sm: "\<And>sm. ss_Smux sess = Some sm \<Longrightarrow> sm \<in> C \<and> sm < w_next (xs_w x)"
  shows "books C B (Suc k) (xs_hub x') (xs_w x') \<and> w_next (xs_w x) \<le> w_next (xs_w x')"
  using st
proof cases
  case (serve q strm w1 sevs uevs pc hub w2 c)
  note q = sm [OF serve(2)]
  have "books C B k (xs_hub x) w1"
    using b covered_owned [OF _ serve(3)] q acquire_ok [OF serve(3)] by (auto simp: books_def intro: hub_known_mono)
  from handleStream_books [OF serve(4) _ this k] acquire_ok [OF serve(3)] show ?thesis unfolding serve(1) by simp
next
  case (serve_flow q strm w1 sevs uevs f conn pc hub w2 c)
  note q = sm [OF serve_flow(2)]
  have "books C B k (xs_hub x) w1"
    using b covered_owned [OF _ serve_flow(3)] q acquire_ok [OF serve_flow(3)] by (auto simp: books_def intro: hub_known_mono)
  from handleStream_books [OF serve_flow(4) _ this k] acquire_ok [OF serve_flow(3)] show ?thesis unfolding serve_flow(1) by simp
next
  case (receive h bs w1 w2 c)
  have w1: "w1 = tick (xs_w x)" using receive(3) by (simp add: ReceiveDatagram_def split: option.splits)
  have ok: "world_ok (xs_w x)" using b covered_ok by (auto simp: books_def)
  have "unchanged w1 w2"
    by (rule hub_dispatch_unchanged [OF receive(4)]) (use ok b receive(2) in \<open>auto simp: w1 books_def hub_known_def ran_def\<close>)
  then have u: "unchanged (xs_w x) w2" by (simp add: unchanged_def w1)
  from books_mono [OF books_unchanged [OF b u]] u show ?thesis unfolding receive(1) by (simp add: unchanged_def)
next
  case (read h f r go h1 w1 c)
  have ok: "world_ok (xs_w x)" using b covered_ok by (auto simp: books_def)
  from read(4) show ?thesis
  proof (cases rule: flow_round_cases)
    case closed
    have "w_next w1 = w_next (xs_w x)" by (rule closeFlow_next [OF closed])
    with books_mono [OF books_closeFlow [OF b [unfolded read(2)] closed]] show ?thesis unfolding read(1) by simp
  next
    case kept
    with books_mono [OF b] show ?thesis unfolding read(1) by (simp add: read(2))
  next
    case (sent q)
    have u: "unchanged (xs_w x) w1"
      by (rule SendDatagram_unchanged [OF sent(2) ok]) (use b read(2) in \<open>auto simp: books_def hub_known_def\<close>)
    from books_mono [OF books_unchanged [OF b u]] u sent(1) show ?thesis unfolding read(1) by (simp add: unchanged_def read(2))
  qed
next
  case (control_end h strm f conn h1 w1)
  have "w_next w1 = w_next (xs_w x)" by (rule closeFlow_next [OF control_end(4)])
  with books_mono [OF books_close [OF books_closeFlow [OF b [unfolded control_end(2)] control_end(4)]]]
  show ?thesis unfolding control_end(1) by simp
qed

text \<open>Every flow in the table of a hub has a handler that will close it.\<close>

definition attended :: "exit_sys \<Rightarrow> bool" where
  "attended x \<longleftrightarrow> (\<forall>f c. hub_flows (xs_hub x) f = Some c \<longrightarrow> (\<exists>s c'. (s, f, c') \<in> set (xs_handlers x)))"

lemma handle_dgram_flows:
  assumes "handle_dgram env hub strm addr w c = (r, hub', w', c')"
  shows "case r of FlowOpen f conn \<Rightarrow> hub_flows hub' = (hub_flows hub)(f \<mapsto> conn)
    | _ \<Rightarrow> (\<forall>g x. hub_flows hub' g = Some x \<longrightarrow> hub_flows hub g = Some x)"
  using assms
  by (auto simp: handle_dgram_def openFlow_def closeFlow_def Let_def split: option.splits prod.splits sum.splits if_splits)

lemma handleStream_flows:
  assumes "handleStream env pc rem hub strm sevs uevs w c = (Returned, pc', hub', w', c')" and "hub_flows hub' g = Some x"
  shows "hub_flows hub g = Some x"
proof -
  have "hub' = hub \<or> (\<exists>addr. handle_dgram env hub strm addr w c = (Returned, hub', w', c'))"
    using assms(1) by (auto simp: handleStream_def split: option.splits prod.splits sum.splits if_splits)
  with handle_dgram_flows [of env hub strm _ w c Returned hub' w' c'] assms(2) show ?thesis by auto
qed

lemma flow_round_flows: "flow_round env h f r w c = (go, h1, w1, c1) \<Longrightarrow> hb_flows h1 g = Some x \<Longrightarrow> hb_flows h g = Some x"
  by (cases rule: flow_round_cases) (auto simp: closeFlow_def split: if_splits)

lemma exit_step_attended:
  assumes "exit_step env sess x x'" and "attended x"
  shows "attended x'"
  using assms(1)
proof cases
  case (serve q strm w1 sevs uevs pc hub w2 c)
  with handleStream_flows [OF serve(4)] assms(2) show ?thesis by (auto simp: attended_def)
next
  case (serve_flow q strm w1 sevs uevs f conn pc hub w2 c)
  obtain addr where "handle_dgram env (xs_hub x) strm addr w1 (xs_c x) = (FlowOpen f conn, hub, w2, c)"
    using handleStream_flow [OF serve_flow(4)] by blast
  with handle_dgram_flows have "hub_flows hub = (hub_flows (xs_hub x))(f \<mapsto> conn)" by fastforce
  with assms(2) show ?thesis unfolding serve_flow(1) attended_def by (auto split: if_splits)
next
  case (receive h bs w1 w2 c)
  with assms(2) show ?thesis by (simp add: attended_def)
next
  case (read h f r go h1 w1 c)
  with flow_round_flows [OF read(4)] assms(2) show ?thesis by (auto simp: attended_def)
next
  case (control_end h strm f conn h1 w1)
  have h1: "hb_flows h1 = (hb_flows h)(f := None)" using control_end(4) by (auto simp: closeFlow_def)
  have "\<exists>s c'. (s, g, c') \<in> set (xs_handlers x')" if g: "hb_flows h1 g = Some c" for g c
  proof -
    have "g \<noteq> f" "hb_flows h g = Some c" using g h1 by (auto split: if_splits)
    moreover from this obtain s c' where "(s, g, c') \<in> set (xs_handlers x)" using assms(2) control_end(2) by (auto simp: attended_def)
    ultimately show ?thesis unfolding control_end(1) by auto
  qed
  then show ?thesis unfolding attended_def by (simp add: control_end(1))
qed

lemma attended_now [simp]: "attended (xnow p x) = attended x"
  by (simp add: attended_def xnow_def)

section \<open>The books of the process\<close>

definition ln_holds :: "Listener \<Rightarrow> handle set" where
  "ln_holds l =
     (case l_quicLn l of
        Some q \<Rightarrow> set_option (ql_listener q) \<union> set_option (ql_transport q) \<union> \<Union> (set ` set_option (ql_packetConn q))
      | None \<Rightarrow> set_option (l_kcpLn l) \<union> \<Union> (set ` set_option (l_packetConn l)))"

lemma close_conn_opt_open: "w_open (close_conn_opt c w) = filter (live (\<Union> (set ` set_option c))) (w_open w)"
  by (cases c) (simp_all add: close_conn_opt_def close_conn_open)

lemma listener_Close_open: "w_open (listener_Close l w) = filter (live (ln_holds l)) (w_open w)"
  by (simp add: listener_Close_def quic_listener_Close_def ln_holds_def close_conn_opt_open close_opt_open filter_live_un
      Un_ac del: filter_filter split: option.split)

definition proc_cover :: "'fw proc \<Rightarrow> handle set" where
  "proc_cover p = ln_holds (pr_ln p) \<union> (\<Union>(sess, x) \<in> set (pr_run p). session_holds sess)
     \<union> (\<Union>(sess, x) \<in> set (pr_run p) \<union> set (pr_done p). sockets (xs_hub x))"

definition proc_ok :: "(handle \<times> handle option) set \<Rightarrow> nat \<Rightarrow> 'fw proc \<Rightarrow> bool" where
  "proc_ok B k p \<longleftrightarrow> covered (proc_cover p) B (pr_w p)
     \<and> (\<forall>(sess, x) \<in> set (pr_run p) \<union> set (pr_done p). hub_known k (pr_w p) (xs_hub x) \<and> attended x)
     \<and> (\<forall>(sess, x) \<in> set (pr_run p). \<forall>h \<in> session_holds sess. h < w_next (pr_w p))
     \<and> sr_sessions (pr_srv p) = of_nat (length (pr_run p))"

lemma proc_okD:
  assumes "proc_ok B k p"
  shows "covered (proc_cover p) B (pr_w p)" "world_ok (pr_w p)"
    "\<And>sess x. (sess, x) \<in> set (pr_run p) \<union> set (pr_done p) \<Longrightarrow> hub_known k (pr_w p) (xs_hub x) \<and> attended x"
    "\<And>sess x h. (sess, x) \<in> set (pr_run p) \<Longrightarrow> h \<in> session_holds sess \<Longrightarrow> h < w_next (pr_w p)"
    "sr_sessions (pr_srv p) = of_nat (length (pr_run p))"
  using assms by (auto simp: proc_ok_def covered_def)

lemma proc_okI:
  assumes "covered (proc_cover p) B (pr_w p)"
    and "\<And>sess x. (sess, x) \<in> set (pr_run p) \<union> set (pr_done p) \<Longrightarrow> hub_known k (pr_w p) (xs_hub x) \<and> attended x"
    and "\<And>sess x h. (sess, x) \<in> set (pr_run p) \<Longrightarrow> h \<in> session_holds sess \<Longrightarrow> h < w_next (pr_w p)"
    and "sr_sessions (pr_srv p) = of_nat (length (pr_run p))"
  shows "proc_ok B k p"
  using assms unfolding proc_ok_def by blast

text \<open>A change of the world that keeps the books keeps the invariant.\<close>

lemma proc_ok_world:
  assumes "proc_ok B k p" and "covered (proc_cover p) B w'" and "w_next (pr_w p) \<le> w_next w'" and "k \<le> k'"
  shows "proc_ok B k' (p\<lparr>pr_w := w'\<rparr>)"
proof -
  note ok = proc_okD [OF assms(1)]
  have c: "proc_cover (p\<lparr>pr_w := w'\<rparr>) = proc_cover p" by (simp add: proc_cover_def)
  have "hub_known k' w' (xs_hub x) \<and> attended x" if "(sess, x) \<in> set (pr_run p) \<union> set (pr_done p)" for sess x
    using ok(3) [OF that] hub_known_mono assms(3,4) by blast
  moreover have "h < w_next w'" if "(sess, x) \<in> set (pr_run p)" "h \<in> session_holds sess" for sess x h
    using ok(4) [OF that] assms(3) by simp
  ultimately show ?thesis using assms(2) ok(5) c unfolding proc_ok_def by auto
qed

lemma proc_accept:
  assumes "proc_ok B k p" and a: "Accept env (pr_ln p) (pr_w p) = (Inr sess, w1)"
  shows "proc_ok B (Suc k) ((count_sessions 1 p)
       \<lparr>pr_run := (sess, session_start sess pc w1 c) # pr_run p, pr_w := w1\<rparr>)" (is "proc_ok B _ ?p")
proof -
  note ok = proc_okD [OF assms(1)]
  note g = accept.dial_ok [OF ok(2) a]
  have sock: "sockets (xs_hub (session_start sess pc w1 c)) = {}"
    by (simp add: session_start_def newDgramHub_def)
  have n: "w_next (pr_w p) \<le> w_next w1" "\<And>h. h \<in> session_holds sess \<Longrightarrow> h < w_next w1" using g by (auto simp: grows_def)
  have "proc_cover ?p = session_holds sess \<union> proc_cover p" using sock by (auto simp: proc_cover_def count_sessions_def)
  then have "covered (proc_cover ?p) B w1" using covered_grows [OF ok(1) g] by simp
  moreover have "hub_known (Suc k) w1 (xs_hub (session_start sess pc w1 c)) \<and> attended (session_start sess pc w1 c)"
    using n(2) by (auto simp: session_start_def newDgramHub_def hub_known_def attended_def session_holds_def session_own_def)
  moreover have "hub_known (Suc k) w1 (xs_hub x) \<and> attended x" if "(s, x) \<in> set (pr_run p) \<union> set (pr_done p)" for s x
    using ok(3) [OF that] hub_known_mono n(1) by (metis le_SucI order_refl)
  moreover have "h < w_next w1" if "(s, x) \<in> set (pr_run p)" "h \<in> session_holds s" for s x h
    using ok(4) [OF that] n(1) by simp
  ultimately show ?thesis using n(2) ok(5) unfolding proc_ok_def by (auto simp: count_sessions_def)
qed

text \<open>A session takes a step, running or winding down; \<open>E\<close> are the others.\<close>

lemma session_moves:
  assumes "proc_ok B k p" and E: "set (pr_run p) \<union> set (pr_done p) = insert (sess, x) E"
    and E': "set run \<union> set dn = insert (sess, x') E" and st: "exit_step env s (xnow p x) x'" and k: "k < 2 ^ 64 - 1"
    and sm: "\<And>q. ss_Smux s = Some q \<Longrightarrow> \<exists>y. (sess, y) \<in> set (pr_run p) \<and> q \<in> session_holds sess"
    and run: "fst ` set run = fst ` set (pr_run p)" "length run = length (pr_run p)"
  shows "proc_ok B (Suc k) ((absorb x' p)\<lparr>pr_run := run, pr_done := dn\<rparr>)" (is "proc_ok B _ ?p")
proof -
  note ok = proc_okD [OF assms(1)]
  let ?S = "\<Union>(sess, x) \<in> set (pr_run p). session_holds sess"
  let ?C = "ln_holds (pr_ln p) \<union> ?S \<union> (\<Union>(sess, x) \<in> E. sockets (xs_hub x))"
  have S: "?S = (\<Union>(sess, x) \<in> set run. session_holds sess)"
    using arg_cong [OF run(1), of "\<lambda>A. \<Union> (session_holds ` A)"] by (simp add: image_image case_prod_beta)
  have "proc_cover p = ?C \<union> sockets (xs_hub x)" unfolding proc_cover_def E by auto
  then have "books ?C B k (xs_hub (xnow p x)) (xs_w (xnow p x))"
    using ok(1) ok(3) [of sess x] E by (simp add: books_def xnow_def)
  moreover have "q \<in> ?C \<and> q < w_next (xs_w (xnow p x))" if "ss_Smux s = Some q" for q
    using sm [OF that] ok(4) by (auto simp: xnow_def)
  ultimately have b: "books ?C B (Suc k) (xs_hub x') (xs_w x')" "w_next (pr_w p) \<le> w_next (xs_w x')"
    using exit_step_books [OF st _ k] by (simp_all add: xnow_def)
  have "proc_cover ?p = ?C \<union> sockets (xs_hub x')" 
  proof -
    have "proc_cover ?p = ln_holds (pr_ln p) \<union> (\<Union>(sess, x) \<in> set run. session_holds sess)
        \<union> (\<Union>(sess, x) \<in> set run \<union> set dn. sockets (xs_hub x))" by (simp add: proc_cover_def absorb_def)
    then show ?thesis unfolding E' S by auto
  qed
  then have cov: "covered (proc_cover ?p) B (pr_w ?p)" using b(1) by (simp add: books_def absorb_def)
  have at: "attended x'" using exit_step_attended [OF st] ok(3) [of sess x] E by simp
  show ?thesis
  proof (rule proc_okI [OF cov])
    show "hub_known (Suc k) (pr_w ?p) (xs_hub y) \<and> attended y" if "(t, y) \<in> set (pr_run ?p) \<union> set (pr_done ?p)" for t y
    proof (cases "(t, y) = (sess, x')")
      case True
      with at b(1) show ?thesis by (simp add: books_def absorb_def)
    next
      case False
      have "(t, y) \<in> insert (sess, x') E" using that unfolding E' [symmetric] by simp
      with False have "(t, y) \<in> set (pr_run p) \<union> set (pr_done p)" unfolding E insert_iff by (elim disjE) simp_all
      from ok(3) [OF this] hub_known_mono [of k "pr_w p" "xs_hub y" "Suc k" "xs_w x'"] b(2) show ?thesis by (simp add: absorb_def)
    qed
    show "h < w_next (pr_w ?p)" if "(t, y) \<in> set (pr_run ?p)" "h \<in> session_holds t" for t y h
    proof -
      have "(t, y) \<in> set run" using that(1) by simp
      then have "t \<in> fst ` set (pr_run p)" unfolding run(1) [symmetric] by (rule rev_image_eqI) simp
      then obtain z where "(t, z) \<in> set (pr_run p)" by (rule imageE) (metis prod.collapse)
      from ok(4) [OF this that(2)] b(2) show ?thesis by (simp add: absorb_def)
    qed
    show "sr_sessions (pr_srv ?p) = of_nat (length (pr_run ?p))" using ok(5) run(2) by (simp add: absorb_def)
  qed
qed

lemma session_ends:
  assumes "proc_ok B k p" and r: "pr_run p = as @ (sess, x) # bs"
  shows "proc_ok B (Suc k) ((count_sessions (-1) p)
       \<lparr>pr_run := as @ bs, pr_done := (sess, x) # pr_done p, pr_w := session_Close sess (pr_w p)\<rparr>)" (is "proc_ok B _ ?p")
proof -
  note ok = proc_okD [OF assms(1)]
  have "covered (session_holds sess \<union> proc_cover ?p) B (pr_w p)"
    by (rule covered_mono [OF ok(1)]) (auto simp: proc_cover_def r count_sessions_def)
  then have "covered (proc_cover ?p) B (session_Close sess (pr_w p))"
    by (rule covered_release [OF _ session_Close_open subset_refl]) (simp add: ok(2))
  then show ?thesis
  proof (intro proc_okI)
    show "hub_known (Suc k) (pr_w ?p) (xs_hub y) \<and> attended y" if "(t, y) \<in> set (pr_run ?p) \<union> set (pr_done ?p)" for t y
    proof -
      have "(t, y) \<in> set (pr_run p) \<union> set (pr_done p)" using that r by auto
      from ok(3) [OF this] hub_known_mono [of k "pr_w p" "xs_hub y" "Suc k" "pr_w ?p"] show ?thesis by simp
    qed
    show "h < w_next (pr_w ?p)" if "(t, y) \<in> set (pr_run ?p)" "h \<in> session_holds t" for t y h
    proof -
      have "(t, y) \<in> set (pr_run p)" using that(1) r by auto
      from ok(4) [OF this that(2)] show ?thesis by simp
    qed
    show "sr_sessions (pr_srv ?p) = of_nat (length (pr_run ?p))" using ok(5) by (simp add: r count_sessions_def)
  qed simp
qed

lemma listener_Close_rest [simp]:
  "w_next (listener_Close l w) = w_next w" "world_ok w \<Longrightarrow> world_ok (listener_Close l w)"
  by (simp_all add: listener_Close_def quic_listener_Close_def split: option.split)

lemma server_ReloadFromDisk_sessions:
  "server_ReloadFromDisk env ld nf w s fw = (e, s', fw', rts) \<Longrightarrow> sr_sessions s' = sr_sessions s \<and> sr_cfgPath s' = sr_cfgPath s"
  by (auto simp: server_ReloadFromDisk_def Let_def split: if_splits sum.splits option.splits)

lemma split_insert: "set (as @ y # bs) \<union> A = insert y (set as \<union> set bs \<union> A)" "A \<union> set (as @ y # bs) = insert y (set as \<union> set bs \<union> A)"
  by auto

lemma proc_step_ok:
  assumes "proc_step nf p p'" and ok: "proc_ok B k p" and k: "k < 2 ^ 64 - 1"
  shows "proc_ok B (Suc k) p'"
  using assms(1)
proof cases
  case (Accepted env sess w1)
  from proc_accept [OF ok Accepted(3)] show ?thesis unfolding Accepted(1) .
next
  case (AcceptFailed env e w1)
  from accept.dial_fail [OF proc_okD(2) [OF ok] AcceptFailed(2)]
  have u: "unchanged (pr_w p) w1" by (simp add: unchanged_def)
  from proc_ok_world [OF ok covered_unchanged [OF proc_okD(1) [OF ok] u]] u show ?thesis
    unfolding AcceptFailed(1) by (simp add: unchanged_def)
next
  case (Serve as sess x bs env x')
  have "proc_ok B (Suc k) ((absorb x' p)\<lparr>pr_run := as @ (sess, x') # bs, pr_done := pr_done p\<rparr>)"
  proof (rule session_moves [OF ok _ _ Serve(3) k])
    show "set (pr_run p) \<union> set (pr_done p) = insert (sess, x) (set as \<union> set bs \<union> set (pr_done p))" unfolding Serve(2) by (rule split_insert)
    show "set (as @ (sess, x') # bs) \<union> set (pr_done p) = insert (sess, x') (set as \<union> set bs \<union> set (pr_done p))" by (rule split_insert)
    show "\<exists>y. (sess, y) \<in> set (pr_run p) \<and> q \<in> session_holds sess" if "ss_Smux sess = Some q" for q
      using that by (auto simp: Serve(2) session_holds_def session_own_def)
  qed (simp_all add: Serve(2))
  then show ?thesis unfolding Serve(1) by (simp add: absorb_def)
next
  case (SessionEnds as sess x bs)
  from session_ends [OF ok SessionEnds(2)] show ?thesis unfolding SessionEnds(1) .
next
  case (WindDown as sess x bs env x')
  have "proc_ok B (Suc k) ((absorb x' p)\<lparr>pr_run := pr_run p, pr_done := as @ (sess, x') # bs\<rparr>)"
  proof (rule session_moves [OF ok _ _ WindDown(3) k])
    show "set (pr_run p) \<union> set (pr_done p) = insert (sess, x) (set as \<union> set bs \<union> set (pr_run p))" unfolding WindDown(2) by (rule split_insert)
    show "set (pr_run p) \<union> set (as @ (sess, x') # bs) = insert (sess, x') (set as \<union> set bs \<union> set (pr_run p))" by (rule split_insert)
  qed (simp_all add: detached_def)
  then show ?thesis unfolding WindDown(1) by (simp add: absorb_def)
next
  case (Reload env ld e srv fw rts)
  have "proc_cover p' = proc_cover p" by (simp add: Reload(1) proc_cover_def)
  with server_ReloadFromDisk_sessions [OF Reload(2)] proc_ok_world [OF ok proc_okD(1) [OF ok], of "Suc k"]
  show ?thesis by (simp add: Reload(1) proc_ok_def)
next
  case Cancelled
  have "proc_cover p' = proc_cover p" by (simp add: Cancelled proc_cover_def)
  with proc_ok_world [OF ok proc_okD(1) [OF ok], of "Suc k"] show ?thesis by (simp add: Cancelled proc_ok_def)
next
  case Unlistened
  have "covered (proc_cover p) B (listener_Close (pr_ln p) (pr_w p))"
    by (rule covered_less [OF proc_okD(1) [OF ok]]) (simp_all add: listener_Close_open proc_okD(2) [OF ok])
  from proc_ok_world [OF ok this] show ?thesis unfolding Unlistened(1) by simp
qed

lemma proc_run_ok:
  assumes "proc_run nf p0 k p" and "proc_ok B 0 p0" and "k < 2 ^ 64"
  shows "proc_ok B k p"
  using assms
proof (induction rule: proc_run.induct)
  case (step k p p')
  then show ?case using proc_step_ok [OF step.hyps(2), of B k] by simp
qed simp

section \<open>Starting\<close>

lemma Listen_fail:
  assumes w: "world_ok w" and l: "Listen cr env opt pc w = (Inl e, w')"
  shows "unchanged w w'"
proof (cases "o_Protocol opt = ProtocolQUIC")
  case True
  then have q: "listenQUIC cr env opt pc w = (Inl e, w')" using l by (auto simp: Listen_def split: prod.splits sum.splits)
  obtain tr w1 where t: "new_quic_transport w = (tr, w1)" by fastforce
  note g = new_quic_transport_grows [OF w t]
  show ?thesis
  proof (cases "tlsConfigFromSecret cr (o_SecretKey opt) (qo_ALPN (o_QUIC opt)) True")
    case (Inl x)
    with q w show ?thesis by (simp add: listenQUIC_def unchanged_def)
  next
    case (Inr x)
    then obtain x w2 where a: "acquire env QuicListen None w1 = (Inl x, w2)" and w': "w' = close_handle tr w2"
      using q t by (auto simp: listenQUIC_def split: prod.splits sum.splits)
    have g2: "grows w {tr} w2" by (rule grows_unchanged [OF g acquire_unchanged [OF grows_ok [OF g] a]])
    show ?thesis unfolding w'
      by (rule grows_close_unchanged [OF w g2]) (simp_all add: close_handle_open grows_ok [OF g2])
  qed
next
  case False
  with l show ?thesis using acquire_unchanged [OF w] by (auto simp: Listen_def split: prod.splits sum.splits)
qed

lemma Listen_ok:
  assumes w: "world_ok w" and l: "Listen cr env opt pc w = (Inr ln, w')"
  obtains H where "grows w H w'" and "ln_holds ln = H \<union> set pc"
proof (cases "o_Protocol opt = ProtocolQUIC")
  case True
  obtain tr w1 where t: "new_quic_transport w = (tr, w1)" by fastforce
  note g = new_quic_transport_grows [OF w t]
  obtain h where a: "acquire env QuicListen None w1 = (Inr h, w')"
    and ln: "ln = \<lparr>l_packetConn = Some pc, l_opt = opt, l_kcpLn = None,
      l_quicLn = Some \<lparr>ql_packetConn = Some pc, ql_opt = opt, ql_transport = Some tr, ql_listener = Some h\<rparr>\<rparr>"
    using l True t by (auto simp: Listen_def listenQUIC_def split: prod.splits sum.splits)
  have "grows w ({tr} \<union> {h}) w'" by (rule grows_trans [OF g grows_acquire [OF grows_ok [OF g] a]]) simp
  then show thesis by (rule that) (auto simp: ln ln_holds_def)
next
  case False
  then obtain h where a: "acquire env KcpServeConn None w = (Inr h, w')"
    and ln: "ln = \<lparr>l_packetConn = Some pc, l_opt = opt, l_kcpLn = Some h, l_quicLn = None\<rparr>"
    using l by (auto simp: Listen_def split: prod.splits sum.splits)
  have "grows w {h} w'" by (rule grows_acquire [OF w a]) simp
  then show thesis by (rule that) (simp add: ln ln_holds_def)
qed

lemma server_start_ok:
  assumes w: "world_ok w" and s: "server_start cr env nf s w c fw = (Inr p, w', fw')" and "sr_sessions s = 0"
  shows "proc_ok (set (w_open w)) 0 p" and "pr_srv p = s" and "pr_fw p = fw'"
proof -
  obtain rt e opt pconn w1 ln where p: "pcap_Open env (int (w_clock w)) rt w = (Inr pconn, w1)"
    "Listen cr env opt (conn_handles pconn) w1 = (Inr ln, w')" "ipt_Apply nf (Some rt) fw = (e, fw')"
    "p = \<lparr>pr_srv = s, pr_ln = ln, pr_conn = pconn, pr_port = nr_Port rt, pr_applied = (e = None), pr_rts = [rt],
      pr_ctx = False, pr_run = [], pr_done = [], pr_w = w', pr_c = c, pr_fw = fw'\<rparr>"
    using s by (auto simp: server_start_def Let_def split: sum.splits prod.splits)
  have g: "grows w (set (conn_handles pconn)) w1" using pcap_Open_spec [OF w p(1)] by simp
  obtain H where H: "grows w1 H w'" "ln_holds ln = H \<union> set (conn_handles pconn)" by (rule Listen_ok [OF grows_ok [OF g] p(2)])
  have "grows w (set (conn_handles pconn) \<union> H) w'" by (rule grows_trans [OF g H(1)])
  moreover have "covered {} (set (w_open w)) w" using w by (simp add: covered_def)
  ultimately have "covered (set (conn_handles pconn) \<union> H) (set (w_open w)) w'" using covered_grows by fastforce
  moreover have "proc_cover p = set (conn_handles pconn) \<union> H" by (auto simp: p(4) proc_cover_def H(2))
  ultimately show "proc_ok (set (w_open w)) 0 p" using assms(3) by (simp add: p(4) proc_ok_def)
  show "pr_srv p = s" "pr_fw p = fw'" by (simp_all add: p(4))
qed

section \<open>Reloads\<close>

lemma server_ReloadFromDisk_cases:
  assumes "server_ReloadFromDisk env ld nf w s fw = (e, s', fw', rts)"
  obtains (refused) er where "e = Some er" and "s' = s" and "fw' = fw" and "rts = []"
    | (accepted) cfg oldRT newRT where "e = None" and "load_config ld (sr_cfgPath s) = Inr cfg" and "s' = s\<lparr>sr_cfg := cfg\<rparr>"
        and "resolve env w (sr_cfg s) = Inr oldRT" and "resolve env w cfg = Inr newRT"
        and "reload_refused (sr_cfg s) oldRT cfg newRT = None"
        and "fw' = snd (ipt_Apply nf (Some newRT) fw)" and "rts = [newRT]"
proof (cases "e = None")
  case True
  then show thesis
    using assms accepted by (auto simp: server_ReloadFromDisk_def Let_def split: if_splits sum.splits option.splits)
next
  case False
  then obtain er where e: "e = Some er" by blast
  have "s' = s" "fw' = fw" "rts = []"
    using assms e by (auto simp: server_ReloadFromDisk_def Let_def split: if_splits sum.splits option.splits)
  with e show thesis by (rule refused)
qed

lemma load_config_valid: "load_config ld path = Inr cfg \<Longrightarrow> valid_config cfg"
  by (auto simp: load_config_def Load_def split: sum.splits intro: Validate_valid)

text \<open>What a reload may not change, and what the process keeps of it while it runs.\<close>

definition same_tunnel :: "Config \<Rightarrow> Config \<Rightarrow> bool" where
  "same_tunnel old cfg \<longleftrightarrow> t_Protocol (c_Transport cfg) = t_Protocol (c_Transport old)
     \<and> k_Key (t_KCP (c_Transport cfg)) = k_Key (t_KCP (c_Transport old))
     \<and> n_Interface (c_Network cfg) = n_Interface (c_Network old)"

lemma reload_refused_None:
  "reload_refused old oldRT cfg newRT = None \<longleftrightarrow> same_tunnel old cfg \<and> nr_Port newRT = nr_Port oldRT"
  by (auto simp: reload_refused_def same_tunnel_def)

text \<open>The port a configuration names; for a server it is never left to chance.\<close>

definition named_port :: "Config \<Rightarrow> int" where
  "named_port cfg = (case ParseUDPAddr (ip_Addr (n_IPv4 (c_Network cfg))) (c_Role cfg = RoleClient) of Inl _ \<Rightarrow> 0 | Inr a \<Rightarrow> ua_port a)"

lemma resolved_port:
  assumes "resolve env w cfg = Inr rt" and "c_Role cfg = RoleServer"
  shows "nr_Port rt = named_port cfg"
proof -
  obtain a0 where p: "ParseUDPAddr (ip_Addr (n_IPv4 (c_Network cfg))) False = Inr a0"
    and a: "nr_Port rt = ua_port (if ua_port a0 = 0 then a0\<lparr>ua_port := 32768 + e_rnd env w\<rparr> else a0)"
    using assms by (auto simp: ResolveNetwork_def RoleServer_def RoleClient_def Let_def split: sum.splits prod.splits)
  have "ua_port a0 \<noteq> 0" using ParseUDPAddr_port [OF p] by auto
  with a p assms(2) show ?thesis by (simp add: named_port_def RoleServer_def RoleClient_def)
qed

lemma proc_step_srv:
  assumes "proc_step nf p p'" and "same_tunnel cfg (sr_cfg (pr_srv p))"
  shows "same_tunnel cfg (sr_cfg (pr_srv p')) \<and> sr_cfgPath (pr_srv p') = sr_cfgPath (pr_srv p)
    \<and> (sr_cfg (pr_srv p') = sr_cfg (pr_srv p) \<or> valid_config (sr_cfg (pr_srv p')))"
  using assms(1)
proof cases
  case (Reload env ld e srv fw rts)
  from Reload(2) show ?thesis
  proof (cases rule: server_ReloadFromDisk_cases)
    case refused
    with assms(2) show ?thesis by (simp add: Reload(1))
  next
    case (accepted cfg' oldRT newRT)
    then have "same_tunnel (sr_cfg (pr_srv p)) cfg'" using reload_refused_None by blast
    with assms(2) accepted(2,3) load_config_valid show ?thesis by (auto simp: Reload(1) same_tunnel_def)
  qed
qed (use assms(2) in \<open>simp_all add: count_sessions_def absorb_def\<close>)

lemma proc_run_srv:
  assumes "proc_run nf p0 k p"
  shows "same_tunnel (sr_cfg (pr_srv p0)) (sr_cfg (pr_srv p)) \<and> sr_cfgPath (pr_srv p) = sr_cfgPath (pr_srv p0)
    \<and> (sr_cfg (pr_srv p) = sr_cfg (pr_srv p0) \<or> valid_config (sr_cfg (pr_srv p)))"
  using assms
proof (induction rule: proc_run.induct)
  case (step k p p')
  then show ?case using proc_step_srv [OF step.hyps(2), of "sr_cfg (pr_srv p0)"] by auto
qed (simp add: same_tunnel_def)

section \<open>The firewall\<close>

abbreviation asked_rules :: "(rule \<Rightarrow> rule) \<Rightarrow> 'fw proc \<Rightarrow> (string \<times> string \<times> rule) set" where
  "asked_rules canon p \<equiv> \<Union> (tunnel_rules canon ` set (pr_rts p))"

lemma proc_step_grown:
  assumes "proc_step nf p p'" and d: "documented nf view canon" and g: "grown (asked_rules canon p) V0 (view (pr_fw p))"
  shows "grown (asked_rules canon p') V0 (view (pr_fw p')) \<and> pr_applied p' = pr_applied p"
  using assms(1)
proof cases
  case (Reload env ld e srv fw rts)
  from Reload(2) show ?thesis
  proof (cases rule: server_ReloadFromDisk_cases)
    case refused
    with g show ?thesis by (simp add: Reload(1))
  next
    case (accepted cfg oldRT newRT)
    let ?R = "asked_rules canon p'"
    have R: "tunnel_rules canon newRT \<subseteq> ?R" "asked_rules canon p \<subseteq> ?R" by (auto simp: Reload(1) accepted(8))
    obtain er where a: "ipt_Apply nf (Some newRT) (pr_fw p) = (er, fw)" using accepted(7) by (metis prod.collapse)
    from ipt_Apply_grown [OF d a R(1) grown_mono [OF g R(2)]] show ?thesis by (simp add: Reload(1))
  qed
qed (use g in \<open>simp_all add: count_sessions_def absorb_def\<close>)

lemma proc_run_grown:
  assumes "proc_run nf p0 k p" and "documented nf view canon" and "grown (asked_rules canon p0) V0 (view (pr_fw p0))"
  shows "grown (asked_rules canon p) V0 (view (pr_fw p)) \<and> pr_applied p = pr_applied p0"
  using assms
  by (induction rule: proc_run.induct) (auto dest: proc_step_grown)

section \<open>A sample\<close>

definition exit_config :: Config where
  "exit_config = sample_server\<lparr>c_Role := RoleServer, c_Transport := sample_transport\<lparr>t_Protocol := ''quic''\<rparr>,
     c_Network := (c_Network sample_server)
     \<lparr>n_IPv4 := \<lparr>ip_Addr = ''10.0.0.1:443'', ip_RouterMAC = ''aa:bb:cc:dd:ee:ff''\<rparr>\<rparr>\<rparr>"

definition renamed_loader :: loader where
  "renamed_loader = \<lparr>ld_read = (\<lambda>_. Inr []), ld_yaml = (\<lambda>_. Inr (exit_config\<lparr>c_Name := ''exit''\<rparr>))\<rparr>"

lemma sample_start:
  obtains p0 w1 fw1 sess w2 where
    "server_start toy_crypto calm_env toy_nf (NewServer exit_config ''c'') world0 zero_Collector toy_fw = (Inr p0, w1, fw1)"
    and "pr_applied p0" and "map nr_Port (pr_rts p0) = [443]" and "map nr_IPv6 (pr_rts p0) = [None]"
    and "\<not> pr_ctx p0" and "pr_run p0 = []" and "pr_done p0 = []" and "Accept calm_env (pr_ln p0) (pr_w p0) = (Inr sess, w2)"
proof -
  let ?r = "server_start toy_crypto calm_env toy_nf (NewServer exit_config ''c'') world0 zero_Collector toy_fw"
  have c: "case fst ?r of Inl _ \<Rightarrow> False | Inr p \<Rightarrow> pr_applied p \<and> map nr_Port (pr_rts p) = [443] \<and> map nr_IPv6 (pr_rts p) = [None]
      \<and> \<not> pr_ctx p \<and> pr_run p = [] \<and> pr_done p = [] \<and> \<not> is_err (fst (Accept calm_env (pr_ln p) (pr_w p)))" by code_simp
  obtain q w1 fw1 where r: "?r = (q, w1, fw1)" by (metis prod_cases3)
  then obtain p0 where q: "q = Inr p0" using c by (cases q) simp_all
  obtain y w2 where a: "Accept calm_env (pr_ln p0) (pr_w p0) = (y, w2)" by fastforce
  then obtain sess where "y = Inr sess" using c r q by (cases y) (simp_all add: is_err_def)
  with that [of p0 w1 fw1 sess w2] r q a c show thesis by simp
qed

text \<open>
  When the listener cannot be opened \<^verbatim>\<open>Run\<close> returns with the packet connection still open: nothing
  closes it, neither \<^verbatim>\<open>Listen\<close> nor a deferred call.
\<close>

definition deaf_env :: env where
  "deaf_env = calm_env\<lparr>e_fail := (\<lambda>c w. case c of QuicListen \<Rightarrow> Some io_EOF | _ \<Rightarrow> None)\<rparr>"

lemma server_listen_failure_leaks:
  "case server_start toy_crypto deaf_env (toy_nf\<lparr>nf_look := (\<lambda>_. Some io_EOF)\<rparr>) (NewServer exit_config ''c'') world0 zero_Collector toy_fw of
     (r, w, fw) \<Rightarrow> is_err r \<and> length (w_open w) = 2"
  by code_simp

section \<open>Properties\<close>

text \<open>C9. A server leaks nothing: in every state of a started server (fewer than 2 to the 64 steps),
  however its sessions, their streams and flows, reloads and its own shutdown interleave, every open
  object was open before, belongs to the listener or to a session that still runs, or is the socket
  of a flow some handler will close; the session count, at its 64-bit width, is the number of running
  sessions; and when the sessions and their handlers have ended, returning leaves nothing open.\<close>

theorem server_leaks_nothing:
  assumes "world_ok w" and "server_start cr env nf (NewServer cfg path) w c fw = (Inr p0, w1, fw1)"
    and "proc_run nf p0 k p" and "k < 2 ^ 64"
  shows "(\<forall>x \<in> set (w_open (pr_w p)). x \<in> set (w_open w) \<or> \<not> live (proc_cover p) x)
    \<and> sr_sessions (pr_srv p) = of_nat (length (pr_run p))
    \<and> (pr_run p = [] \<longrightarrow> (\<forall>(sess, x) \<in> set (pr_done p). xs_handlers x = []) \<longrightarrow>
         set (w_open (pr_w (server_return nf p))) \<subseteq> set (w_open w))"
proof -
  have "proc_ok (set (w_open w)) 0 p0" by (rule server_start_ok [OF assms(1,2)]) (simp add: NewServer_def)
  from proc_run_ok [OF assms(3) this assms(4)] have ok: "proc_ok (set (w_open w)) k p" .
  note d = proc_okD [OF ok]
  have "set (w_open (pr_w (server_return nf p))) \<subseteq> set (w_open w)"
    if r: "pr_run p = []" and h: "\<forall>(sess, x) \<in> set (pr_done p). xs_handlers x = []"
  proof -
    have none: "sockets (xs_hub x) = {}" if "(sess, x) \<in> set (pr_done p)" for sess x
      using d(3) [of sess x] h that by (auto simp: attended_def ran_def)
    have "proc_cover p = ln_holds (pr_ln p)" using none unfolding proc_cover_def r by auto
    then show ?thesis using d(1) by (auto simp: server_return_def listener_Close_open covered_def)
  qed
  with d(1,5) show ?thesis by (auto simp: covered_def)
qed

theorem server_leaks_nothing_witness:
  "\<exists>p0 w1 fw1 p. server_start toy_crypto calm_env toy_nf (NewServer exit_config ''c'') world0 zero_Collector toy_fw = (Inr p0, w1, fw1)
     \<and> proc_run toy_nf p0 1 p \<and> sr_sessions (pr_srv p) = 1 \<and> (\<forall>x \<in> set (w_open (pr_w p)). \<not> live (proc_cover p) x)"
proof -
  obtain p0 w1 fw1 sess w2 where s: "server_start toy_crypto calm_env toy_nf (NewServer exit_config ''c'') world0 zero_Collector toy_fw = (Inr p0, w1, fw1)"
    "\<not> pr_ctx p0" "pr_run p0 = []" "Accept calm_env (pr_ln p0) (pr_w p0) = (Inr sess, w2)"
    by (rule sample_start)
  let ?p = "(count_sessions 1 p0)\<lparr>pr_run := (sess, session_start sess (Some (pr_conn p0)) w2 (pr_c p0)) # pr_run p0, pr_w := w2\<rparr>"
  have r: "proc_run toy_nf p0 (Suc 0) ?p" by (rule proc_run.step [OF proc_run.start proc_step.Accepted [OF s(2,4)]])
  from server_leaks_nothing [OF world0_ok s(1) r] s(3) have "sr_sessions (pr_srv ?p) = 1" "\<forall>x \<in> set (w_open (pr_w ?p)). \<not> live (proc_cover ?p) x"
    by (simp_all add: world0_def)
  with s(1) r show ?thesis by (intro exI [of _ p0] exI [of _ w1] exI [of _ fw1] exI [of _ ?p]) simp
qed





end
