(* ===== verification/Frontend.thy ===== *)
theory Frontend
  imports Redirect
begin

text \<open>
  The running listeners of a client: the accept loops of \<^verbatim>\<open>internal/forward\<close> and \<^verbatim>\<open>internal/redirect\<close> and the
  goroutines of all their connections, interleaved with one another and with everything the
  upstream manager does (\<open>sys_step\<close>). A connection is in the state its goroutine is in: begun, or
  copying over its tunnel stream. The counters and the world are shared.
\<close>

section \<open>Connections\<close>

datatype listener = FwdLn Rule | RedirLn RedirectConfig

datatype conn_kind = FwdConn Rule | RedirConn RedirectConfig "(ip \<times> int) res"

datatype phase = Begun | Copying handle splice

fun listen_addr :: "listener \<Rightarrow> string" where
  "listen_addr (FwdLn r) = ru_Listen r"
| "listen_addr (RedirLn cfg) = '':'' @ itoa (rc_RedirectPort cfg)"

fun accepts :: "listener \<Rightarrow> conn_kind \<Rightarrow> bool" where
  "accepts (FwdLn r) (FwdConn r') = (r' = r)"
| "accepts (RedirLn cfg) (RedirConn cfg' dst) = (cfg' = cfg)"
| "accepts _ _ = False"

text \<open>Binding and target of a connection; \<open>None\<close> when the original destination is not known.\<close>

fun conn_target :: "conn_kind \<Rightarrow> (string \<times> string) option" where
  "conn_target (FwdConn r) = Some (ru_BindUpstream r, ru_Target r)"
| "conn_target (RedirConn cfg (Inl e)) = None"
| "conn_target (RedirConn cfg (Inr (_, port))) = Some (rc_BindUpstream cfg, join_host_port (rc_TargetHost cfg) (itoa port))"

fun conn_started :: "conn_kind \<Rightarrow> Collector \<Rightarrow> Collector" where
  "conn_started (FwdConn r) c = tcp_accepted c"
| "conn_started (RedirConn cfg dst) c = c"

fun conn_ended :: "conn_kind \<Rightarrow> Collector \<Rightarrow> Collector" where
  "conn_ended (FwdConn r) c = inc_active (-1) c"
| "conn_ended (RedirConn cfg dst) c = c"

text \<open>A handler up to the copying; \<open>None\<close> when it returns before.\<close>

definition conn_open ::
  "env \<Rightarrow> RouteFn \<Rightarrow> conn_kind \<Rightarrow> Manager \<Rightarrow> world \<Rightarrow> Collector \<Rightarrow> phase option \<times> Manager \<times> world \<times> Collector" where
  "conn_open env route ck m w c =
     (case conn_target ck of
        None \<Rightarrow> (None, m, w, c)
      | Some (bind, target) \<Rightarrow>
          (case route bind of
             None \<Rightarrow> (None, m, w, c)
           | Some opn \<Rightarrow>
               (case open_stream (op_OpenTCP env opn) target m w c of
                  (Inl e, m1, w1, c1) \<Rightarrow> (None, m1, w1, c1)
                | (Inr strm, m1, w1, c1) \<Rightarrow> (Some (Copying strm (splice_start w1 c1)), m1, w1, c1))))"

section \<open>The system\<close>

record front =
  fr_sys :: sys
  fr_c :: Collector
  fr_lns :: "(handle \<times> listener) list"
  fr_conns :: "(handle \<times> conn_kind \<times> phase) list"
  fr_ctx :: bool

abbreviation fr_w :: "front \<Rightarrow> world" where
  "fr_w s \<equiv> y_world (fr_sys s)"

abbreviation fr_m :: "front \<Rightarrow> Manager" where
  "fr_m s \<equiv> y_mgr (fr_sys s)"

definition set_w :: "world \<Rightarrow> front \<Rightarrow> front" where
  "set_w w s = s\<lparr>fr_sys := (fr_sys s)\<lparr>y_world := w\<rparr>\<rparr>"

definition set_mwc :: "Manager \<Rightarrow> world \<Rightarrow> Collector \<Rightarrow> front \<Rightarrow> front" where
  "set_mwc m w c s = s\<lparr>fr_sys := (fr_sys s)\<lparr>y_mgr := m, y_world := w\<rparr>, fr_c := c\<rparr>"

text \<open>The splice of a connection on the world, the counters and the context as they are now.\<close>

definition now :: "front \<Rightarrow> splice \<Rightarrow> splice" where
  "now s sp = sp\<lparr>sp_ctx := fr_ctx s, sp_w := fr_w s, sp_c := fr_c s\<rparr>"

inductive front_step :: "crypto \<Rightarrow> RouteFn \<Rightarrow> front \<Rightarrow> front \<Rightarrow> bool" for cr route where
  Tunnel: "sys_step cr (fr_sys s) y \<Longrightarrow> front_step cr route s (s\<lparr>fr_sys := y\<rparr>)"
| Listen: "acquire env (NetListen ''tcp'' (listen_addr k)) None (fr_w s) = (Inr ln, w) \<Longrightarrow>
     front_step cr route s ((set_w w s)\<lparr>fr_lns := (ln, k) # fr_lns s\<rparr>)"
| Accept: "(ln, k) \<in> set (fr_lns s) \<Longrightarrow> accepts k ck \<Longrightarrow> acquire env (NetAccept ln) None (fr_w s) = (Inr conn, w) \<Longrightarrow>
     front_step cr route s ((set_mwc (fr_m s) w (conn_started ck (fr_c s)) s)\<lparr>fr_conns := (conn, ck, Begun) # fr_conns s\<rparr>)"
| Open: "map_of (fr_conns s) conn = Some (ck, Begun) \<Longrightarrow>
     conn_open env route ck (fr_m s) (fr_w s) (fr_c s) = (Some ph, m, w, c) \<Longrightarrow>
     front_step cr route s ((set_mwc m w c s)\<lparr>fr_conns := AList.update conn (ck, ph) (fr_conns s)\<rparr>)"
| OpenEnds: "map_of (fr_conns s) conn = Some (ck, Begun) \<Longrightarrow>
     conn_open env route ck (fr_m s) (fr_w s) (fr_c s) = (None, m, w, c) \<Longrightarrow>
     front_step cr route s ((set_mwc m (close_handle conn w) (conn_ended ck c) s)\<lparr>fr_conns := AList.delete conn (fr_conns s)\<rparr>)"
| Copy: "map_of (fr_conns s) conn = Some (ck, Copying strm sp) \<Longrightarrow>
     splice_step env conn strm True ev (now s sp) = (None, sp') \<Longrightarrow>
     front_step cr route s ((set_mwc (fr_m s) (sp_w sp') (sp_c sp') s)\<lparr>fr_conns := AList.update conn (ck, Copying strm sp') (fr_conns s)\<rparr>)"
| CopyEnds: "map_of (fr_conns s) conn = Some (ck, Copying strm sp) \<Longrightarrow>
     splice_step env conn strm True ev (now s sp) = (Some r, sp') \<Longrightarrow>
     front_step cr route s ((set_mwc (fr_m s) (close_handle conn (close_handle strm (sp_w sp'))) (conn_ended ck (sp_c sp')) s)
       \<lparr>fr_conns := AList.delete conn (fr_conns s)\<rparr>)"
| Cancelled: "front_step cr route s (s\<lparr>fr_ctx := True\<rparr>)"
| Unlisten: "fr_ctx s \<Longrightarrow> (ln, k) \<in> set (fr_lns s) \<Longrightarrow>
     front_step cr route s ((set_w (close_handle ln (fr_w s)) s)\<lparr>fr_lns := AList.delete ln (fr_lns s)\<rparr>)"

inductive front_reach :: "crypto \<Rightarrow> RouteFn \<Rightarrow> world \<Rightarrow> Collector \<Rightarrow> front \<Rightarrow> bool" for cr route w0 c0 where
  start: "reachable cr w0 y \<Longrightarrow> front_reach cr route w0 c0 \<lparr>fr_sys = y, fr_c = c0, fr_lns = [], fr_conns = [], fr_ctx = False\<rparr>"
| step: "front_reach cr route w0 c0 s \<Longrightarrow> front_step cr route s s' \<Longrightarrow> front_reach cr route w0 c0 s'"

text \<open>A handler on its own is its two phases in sequence.\<close>

lemma fwd_handleTCP_phases:
  "fwd_handleTCP env (Some route) conn rule evs m w c =
     (case conn_open env route (FwdConn rule) m w c of
        (Some (Copying strm sp), m1, w1, c1) \<Rightarrow>
          (case splice_run env conn strm True evs sp of
             (None, s) \<Rightarrow> (StillOpen, m1, sp_w s, sp_c s)
           | (Some r, s) \<Rightarrow> (Ended r, m1, close_handle strm (sp_w s), sp_c s))
      | _ \<Rightarrow> fwd_handleTCP env (Some route) conn rule [] m w c)"
  by (auto simp: fwd_handleTCP_def conn_open_def fwd_opener_def carry_def
      split: option.splits prod.splits sum.splits)

section \<open>Handles stay known\<close>

lemma close_entries_next [simp]: "w_next (close_entries es w) = w_next w"
proof (induction es arbitrary: w)
  case (Cons x es)
  then show ?case by (cases x) (simp add: close_entries_def pool.release_next)
qed (simp add: close_entries_def)

lemma pool_Dial_next:
  assumes "world_ok w" and "pool_Dial cr env cfg remote tcfg flags w = (r, w')"
  shows "world_ok w' \<and> w_next w \<le> w_next w'"
  using pool_Dial_spec [OF assms] by (cases r) (auto simp: unchanged_def grows_def)

lemma reconnect_dial_next:
  assumes "world_ok w" and "reconnect_dial cr env cfg flags ep w = (r, w')"
  shows "w_next w \<le> w_next w'"
proof -
  obtain r1 w1 where pd: "pool_Dial cr env cfg (ep_Addr ep) (ep_Transport ep) flags w = (r1, w1)" by fastforce
  note n = pool_Dial_next [OF assms(1) pd]
  show ?thesis
  proof (cases r1)
    case (Inl e)
    with n pd assms(2) show ?thesis by (simp add: reconnect_dial_def)
  next
    case (Inr p)
    obtain e p1 w2 where pw: "PingWithTimeout env p w1 = (e, p1, w2)" by (metis prod_cases3)
    have "w_next w1 \<le> w_next w2" using ping_op.keeps [OF _ pw] n by (simp add: stays_def)
    with n pd assms(2) Inr pw show ?thesis by (cases e) (auto simp: reconnect_dial_def pool.release_next)
  qed
qed

lemma job_step_next:
  assumes "world_ok w" and "job_step cr env j m w = (j', m', w')"
  shows "w_next w \<le> w_next w'"
proof (cases j)
  case (RcDial rc cfg flags ep)
  obtain r w1 where d: "reconnect_dial cr env cfg flags ep w = (r, w1)" by fastforce
  with reconnect_dial_next [OF assms(1) d] assms(2) RcDial show ?thesis by (cases r) simp_all
next
  case (RcSwap rc p)
  with assms(2) show ?thesis
    by (auto simp: reconnect_swap_def Let_def pool.release_next split: option.splits if_splits)
next
  case (RlBuilt cfg flags es order)
  with assms(2) show ?thesis by (auto simp: reload_swap_def)
qed (use assms(2) in \<open>auto split: option.splits\<close>)

lemma sys_step_next:
  assumes "sys_step cr s s'" and "sys_ok B s"
  shows "w_next (y_world s) \<le> w_next (y_world s')"
proof -
  have w: "world_ok (y_world s)" using assms(2) by (simp add: sys_ok_def covered_def)
  from assms(1) show ?thesis
  proof (cases rule: sys_step.cases)
    case (Serve env opn rq m w m' w' js)
    with w step_okD(5) [OF serve_step] show ?thesis by simp
  next
    case (Check ns m env w m' started w' js)
    with w step_okD(5) [OF runHealthCheck_step] show ?thesis by simp
  next
    case (Ping env ns m w r m' w' js)
    with w step_okD(5) [OF pingAll_step] show ?thesis by simp
  next
    case (Bench env m w rs m' w' js)
    with w step_okD(5) [OF bench_loop_step] show ?thesis by (simp add: Benchmark_def)
  next
    case (Work env j m w j' m' w' as bs)
    with w job_step_next show ?thesis by simp
  next
    case (Reload cfg eps env flags m w new m' w' js)
    obtain r w1 where b: "build_entries cr env cfg flags eps (m_nextId m) [] [] w = (r, w1)" by fastforce
    have "w_next w \<le> w_next w1"
      using build_entries_fleet [OF Reload(4) _ b] w Reload(1) by (auto simp: unchanged_def grows_def split: sum.splits)
    with Reload b show ?thesis by (cases r) (auto simp: reload_start_def Let_def)
  next
    case (Close m w m' w' js)
    then show ?thesis by (auto simp: mgr_Close_def)
  qed simp
qed

section \<open>The invariant\<close>

definition local_objs :: "handle set \<Rightarrow> (handle \<times> handle option) set" where
  "local_objs H = (\<lambda>h. (h, None)) ` H"

definition front_locals :: "front \<Rightarrow> handle set" where
  "front_locals s = fst ` set (fr_lns s) \<union> fst ` set (fr_conns s)"

fun is_fwd :: "conn_kind \<Rightarrow> bool" where
  "is_fwd (FwdConn r) = True"
| "is_fwd (RedirConn cfg dst) = False"

definition forwarded :: "(handle \<times> conn_kind \<times> phase) list \<Rightarrow> nat" where
  "forwarded cs = length (filter (\<lambda>(h, ck, ph). is_fwd ck) cs)"

fun conn_known :: "world \<Rightarrow> handle \<times> conn_kind \<times> phase \<Rightarrow> bool" where
  "conn_known w (h, ck, Begun) = (h < w_next w)"
| "conn_known w (h, ck, Copying strm sp) = (h < w_next w \<and> strm < w_next w)"

definition front_ok :: "(handle \<times> handle option) set \<Rightarrow> 64 word \<Rightarrow> front \<Rightarrow> bool" where
  "front_ok B a s \<longleftrightarrow> sys_ok (B \<union> local_objs (front_locals s)) (fr_sys s) \<and> distinct (map fst (fr_conns s))
     \<and> (\<forall>x \<in> set (fr_conns s). conn_known (fr_w s) x) \<and> mt_TCPActive (fr_c s) = a + of_nat (forwarded (fr_conns s))"

lemma sys_ok_worldI:
  assumes "sys_ok B y" and "\<And>C. covered C B (y_world y) \<Longrightarrow> covered C B' w'"
  shows "sys_ok B' (y\<lparr>y_world := w'\<rparr>)"
  using assms by (simp add: sys_ok_def)

lemma sys_ok_opener:
  assumes "sys_ok B y" and "step_ok (y_mgr y) (y_world y) m' w'"
  shows "sys_ok B (y\<lparr>y_mgr := m', y_world := w'\<rparr>)"
proof (cases y)
  case (fields m js w)
  with sys_ok_step_ok [of B m js w m' w' "[]"] assms show ?thesis by simp
qed

lemma sys_ok_world: "sys_ok B y \<Longrightarrow> world_ok (y_world y)"
  by (simp add: sys_ok_def covered_def)

lemma covered_acquire:
  assumes "covered C B w" and "acquire env c None w = (Inr h, w')"
  shows "covered C (insert (h, None) B) w'"
  using assms acquire_ok [OF assms(2)] acquire_world_ok [OF _ assms(2)] by (auto simp: covered_def)

lemma covered_closed:
  assumes "covered C (B \<union> local_objs L) w" and "L - {h} \<subseteq> L'"
  shows "covered C (B \<union> local_objs L') (close_handle h w)"
proof -
  have "x \<in> B \<union> local_objs L'" if "x \<in> B \<union> local_objs L" "live {h} x" for x
    using that assms(2) by (auto simp: local_objs_def live_def)
  with assms(1) show ?thesis by (auto simp: covered_def close_handle_open)
qed

lemma conn_known_mono: "conn_known w x \<Longrightarrow> w_next w \<le> w_next w' \<Longrightarrow> conn_known w' x"
  by (induction w x rule: conn_known.induct) simp_all

lemma delete_keys: "fst ` set xs - {k} \<subseteq> fst ` set (AList.delete k xs)"
  by (auto simp: AList.delete_eq image_iff) 

lemma update_keys: "map_of xs k = Some v \<Longrightarrow> fst ` set (AList.update k v' xs) = fst ` set xs"
  by (induction xs) (auto split: if_splits)

lemma update_set: "x \<in> set (AList.update k v xs) \<Longrightarrow> x = (k, v) \<or> x \<in> set xs"
  by (induction xs) (auto split: if_splits)

lemma forwarded_simps [simp]:
  "forwarded [] = 0" "forwarded ((h, ck, ph) # cs) = (if is_fwd ck then 1 else 0) + forwarded cs"
  by (simp_all add: forwarded_def)

lemma forwarded_update: "map_of cs h = Some (ck, ph) \<Longrightarrow> forwarded (AList.update h (ck, ph') cs) = forwarded cs"
  by (induction cs) (auto split: if_splits)

lemma delete_absent: "k \<notin> fst ` set xs \<Longrightarrow> AList.delete k xs = xs"
  by (induction xs) (auto simp: AList.delete_eq)

lemma forwarded_delete:
  "distinct (map fst cs) \<Longrightarrow> map_of cs h = Some (ck, ph) \<Longrightarrow>
     forwarded cs = (if is_fwd ck then 1 else 0) + forwarded (AList.delete h cs)"
proof (induction cs)
  case (Cons x cs)
  obtain k v where x: "x = (k, v)" by (cases x)
  show ?case
  proof (cases "k = h")
    case True
    then have "AList.delete h (x # cs) = cs" using Cons.prems(1) x delete_absent [of h cs] by (simp add: AList.delete_eq)
    moreover have "v = (ck, ph)" using Cons.prems(2) x True by simp
    ultimately show ?thesis by (simp add: x)
  next
    case False
    with Cons x show ?thesis by (cases v) (simp add: AList.delete_eq)
  qed
qed simp

lemma conn_started_active: "mt_TCPActive (conn_started ck c) = mt_TCPActive c + (if is_fwd ck then 1 else 0)"
  by (cases ck) (simp_all add: tcp_accepted_def)

lemma conn_ended_active: "mt_TCPActive (conn_ended ck c) = mt_TCPActive c - (if is_fwd ck then 1 else 0)"
  by (cases ck) simp_all

lemma IncError_active [simp]: "mt_TCPActive (IncError c) = mt_TCPActive c"
  by (simp add: IncError_def)

lemma conn_open_step:
  assumes "conn_open env route ck m w c = (r, m', w', c')" and "world_ok w"
  shows "step_ok m w m' w'" and "mt_TCPActive c' = mt_TCPActive c"
    and "r = Some ph \<Longrightarrow> \<exists>strm sp. ph = Copying strm sp \<and> strm < w_next w'"
proof -
  show "step_ok m w m' w'"
    using assms(1) tun.open_stream_step
    by (fastforce simp: conn_open_def step_ok_refl split: option.splits prod.splits sum.splits)
  show "mt_TCPActive c' = mt_TCPActive c"
    using assms(1) by (auto simp: conn_open_def open_stream_def split: option.splits prod.splits sum.splits if_splits)
  show "\<exists>strm sp. ph = Copying strm sp \<and> strm < w_next w'" if r: "r = Some ph"
  proof -
    obtain opn target strm where "open_stream (op_OpenTCP env opn) target m w c = (Inr strm, m', w', c')"
      "ph = Copying strm (splice_start w' c')"
      using assms(1) r by (auto simp: conn_open_def split: option.splits prod.splits sum.splits)
    moreover from this obtain a where "opened env (addr_message TCP a) m w strm w'"
      using tun.open_stream_opened(1) [OF assms(2)] by blast
    ultimately show ?thesis using tun.opened_props(2) [OF assms(2)] by blast
  qed
qed

lemma splice_step_active:
  "splice_step env l r ob ev s = (res, s') \<Longrightarrow> mt_TCPActive (sp_c s') = mt_TCPActive (sp_c s)"
  by (cases ev) (auto simp: copy_step_def metered_Write_def Let_def split: if_splits prod.splits option.splits list.splits)

section \<open>Every step keeps the invariant\<close>

lemma front_okI:
  assumes "sys_ok (B \<union> local_objs (front_locals s)) (fr_sys s)" and "distinct (map fst (fr_conns s))"
    and "\<And>x. x \<in> set (fr_conns s) \<Longrightarrow> conn_known (fr_w s) x"
    and "mt_TCPActive (fr_c s) = a + of_nat (forwarded (fr_conns s))"
  shows "front_ok B a s"
  using assms by (simp add: front_ok_def)

lemma front_okD:
  assumes "front_ok B a s"
  shows "sys_ok (B \<union> local_objs (front_locals s)) (fr_sys s)" "distinct (map fst (fr_conns s))"
    "\<And>x. x \<in> set (fr_conns s) \<Longrightarrow> conn_known (fr_w s) x" "mt_TCPActive (fr_c s) = a + of_nat (forwarded (fr_conns s))"
    "world_ok (fr_w s)"
  using assms sys_ok_world by (auto simp: front_ok_def)

lemma front_tunnel:
  assumes "front_ok B a s" and "sys_step cr (fr_sys s) y"
  shows "front_ok B a (s\<lparr>fr_sys := y\<rparr>)"
proof (rule front_okI)
  note ok = front_okD [OF assms(1)]
  show "sys_ok (B \<union> local_objs (front_locals (s\<lparr>fr_sys := y\<rparr>))) (fr_sys (s\<lparr>fr_sys := y\<rparr>))"
    using sys_step_ok [OF assms(2) ok(1)] by (simp add: front_locals_def)
  show "conn_known (fr_w (s\<lparr>fr_sys := y\<rparr>)) x" if "x \<in> set (fr_conns (s\<lparr>fr_sys := y\<rparr>))" for x
    using conn_known_mono [OF ok(3) sys_step_next [OF assms(2) ok(1)]] that by simp
qed (use front_okD [OF assms(1)] in simp_all)

lemma front_listen:
  assumes "front_ok B a s" and a: "acquire env c None (fr_w s) = (Inr ln, w)"
  shows "front_ok B a ((set_w w s)\<lparr>fr_lns := (ln, k) # fr_lns s\<rparr>)" (is "front_ok B a ?s")
proof (rule front_okI)
  note ok = front_okD [OF assms(1)]
  have "B \<union> local_objs (front_locals ?s) = insert (ln, None) (B \<union> local_objs (front_locals s))"
    by (auto simp: front_locals_def local_objs_def set_w_def)
  then show "sys_ok (B \<union> local_objs (front_locals ?s)) (fr_sys ?s)"
    using sys_ok_worldI [OF ok(1), of "insert (ln, None) (B \<union> local_objs (front_locals s))" w] covered_acquire [OF _ a]
    by (simp add: set_w_def)
  show "conn_known (fr_w ?s) x" if "x \<in> set (fr_conns ?s)" for x
    using conn_known_mono [OF ok(3), of x w] acquire_ok [OF a] that by (simp add: set_w_def)
qed (use front_okD [OF assms(1)] in \<open>simp_all add: set_w_def\<close>)

lemma front_accept:
  assumes "front_ok B a s" and a: "acquire env c None (fr_w s) = (Inr conn, w)"
  shows "front_ok B a ((set_mwc (fr_m s) w (conn_started ck (fr_c s)) s)\<lparr>fr_conns := (conn, ck, Begun) # fr_conns s\<rparr>)"
    (is "front_ok B a ?s")
proof (rule front_okI)
  note ok = front_okD [OF assms(1)]
  note aq = acquire_ok [OF a]
  have "B \<union> local_objs (front_locals ?s) = insert (conn, None) (B \<union> local_objs (front_locals s))"
    by (auto simp: front_locals_def local_objs_def set_mwc_def)
  then show "sys_ok (B \<union> local_objs (front_locals ?s)) (fr_sys ?s)"
    using sys_ok_worldI [OF ok(1), of "insert (conn, None) (B \<union> local_objs (front_locals s))" w] covered_acquire [OF _ a]
    by (simp add: set_mwc_def)
  have k: "conn_known w x" if "x \<in> set (fr_conns s)" for x
    using conn_known_mono [OF ok(3) [OF that], of w] aq by simp
  show "conn_known (fr_w ?s) x" if "x \<in> set (fr_conns ?s)" for x
  proof -
    have "x = (conn, ck, Begun) \<or> x \<in> set (fr_conns s)" using that by simp
    moreover have "conn_known w (conn, ck, Begun)" using aq by simp
    ultimately have "conn_known w x" using k [of x] by metis
    moreover have "fr_w ?s = w" by (simp add: set_mwc_def)
    ultimately show ?thesis by simp
  qed
  have "conn \<notin> fst ` set (fr_conns s)"
  proof
    assume "conn \<in> fst ` set (fr_conns s)"
    then obtain x where "x \<in> set (fr_conns s)" "fst x = conn" by blast
    with ok(3) [of x] have "conn < w_next (fr_w s)" by (cases "(fr_w s, x)" rule: conn_known.cases) auto
    with aq show False by simp
  qed
  with ok(2) show "distinct (map fst (fr_conns ?s))" by simp
  show "mt_TCPActive (fr_c ?s) = a + of_nat (forwarded (fr_conns ?s))"
    using ok(4) by (simp add: set_mwc_def conn_started_active)
qed

lemma front_update:
  assumes "front_ok B a s" and "map_of (fr_conns s) conn = Some (ck, ph)"
    and sy: "sys_ok (B \<union> local_objs (front_locals s)) ((fr_sys s)\<lparr>y_mgr := m, y_world := w\<rparr>)"
    and "w_next (fr_w s) \<le> w_next w" and "conn_known w (conn, ck, ph')" and "mt_TCPActive c = mt_TCPActive (fr_c s)"
  shows "front_ok B a ((set_mwc m w c s)\<lparr>fr_conns := AList.update conn (ck, ph') (fr_conns s)\<rparr>)" (is "front_ok B a ?s")
proof (rule front_okI)
  note ok = front_okD [OF assms(1)]
  have "front_locals ?s = front_locals s" using update_keys [OF assms(2)] by (simp add: front_locals_def set_mwc_def)
  with sy show "sys_ok (B \<union> local_objs (front_locals ?s)) (fr_sys ?s)" by (simp add: set_mwc_def)
  show "distinct (map fst (fr_conns ?s))" using ok(2) distinct_update by auto
  show "conn_known (fr_w ?s) x" if "x \<in> set (fr_conns ?s)" for x
    using update_set [of x conn "(ck, ph')" "fr_conns s"] that assms(5) conn_known_mono [OF ok(3) [of x] assms(4)]
    by (simp add: set_mwc_def) blast
  show "mt_TCPActive (fr_c ?s) = a + of_nat (forwarded (fr_conns ?s))"
    using ok(4) assms(6) forwarded_update [OF assms(2)] by (simp add: set_mwc_def)
qed

lemma front_remove:
  assumes "front_ok B a s" and "map_of (fr_conns s) conn = Some (ck, ph)"
    and sy: "sys_ok (B \<union> local_objs (front_locals s)) ((fr_sys s)\<lparr>y_mgr := m, y_world := w\<rparr>)"
    and "w_next (fr_w s) \<le> w_next w" and "mt_TCPActive c = mt_TCPActive (fr_c s)"
  shows "front_ok B a ((set_mwc m (close_handle conn w) (conn_ended ck c) s)\<lparr>fr_conns := AList.delete conn (fr_conns s)\<rparr>)"
    (is "front_ok B a ?s")
proof (rule front_okI)
  note ok = front_okD [OF assms(1)]
  have "front_locals s - {conn} \<subseteq> front_locals ?s"
    using delete_keys [of "fr_conns s" conn] by (auto simp: front_locals_def set_mwc_def)
  from covered_closed [OF _ this] sys_ok_worldI [OF sy, of "B \<union> local_objs (front_locals ?s)" "close_handle conn w"]
  show "sys_ok (B \<union> local_objs (front_locals ?s)) (fr_sys ?s)" by (simp add: set_mwc_def)
  show "distinct (map fst (fr_conns ?s))" using ok(2) distinct_delete by auto
  show "conn_known (fr_w ?s) x" if "x \<in> set (fr_conns ?s)" for x
  proof -
    have "x \<in> set (fr_conns s)" using that by (auto simp: AList.delete_eq)
    from conn_known_mono [OF ok(3) [OF this] assms(4)] show ?thesis by (cases "(w, x)" rule: conn_known.cases) (simp_all add: set_mwc_def)
  qed
  have "of_nat (forwarded (fr_conns s)) = (if is_fwd ck then 1 else 0) + (of_nat (forwarded (AList.delete conn (fr_conns s))) :: 64 word)"
    using forwarded_delete [OF ok(2) assms(2)] by simp
  then show "mt_TCPActive (fr_c ?s) = a + of_nat (forwarded (fr_conns ?s))"
    using ok(4) assms(5) by (simp add: set_mwc_def conn_ended_active)
qed

lemma sys_ok_unchanged:
  assumes "sys_ok B y" and "unchanged (y_world y) w'"
  shows "sys_ok B (y\<lparr>y_mgr := y_mgr y, y_world := w'\<rparr>)"
  using sys_ok_worldI [OF assms(1) covered_unchanged [OF _ assms(2)]] by simp

lemma front_copy:
  assumes "front_ok B a s" and "map_of (fr_conns s) conn = Some (ck, Copying strm sp)"
    and "splice_step env conn strm True ev (now s sp) = (r, sp')"
  shows "unchanged (fr_w s) (sp_w sp')" and "w_next (sp_w sp') = w_next (fr_w s)"
    and "mt_TCPActive (sp_c sp') = mt_TCPActive (fr_c s)" and "conn_known (fr_w s) (conn, ck, Copying strm sp)"
proof -
  note ok = front_okD [OF assms(1)]
  show k: "conn_known (fr_w s) (conn, ck, Copying strm sp)" using ok(3) map_of_SomeD [OF assms(2)] by blast
  from splice_step_unchanged [OF assms(3)] k ok(5)
  show "unchanged (fr_w s) (sp_w sp')" "w_next (sp_w sp') = w_next (fr_w s)" by (simp_all add: now_def)
  from splice_step_active [OF assms(3)] show "mt_TCPActive (sp_c sp') = mt_TCPActive (fr_c s)" by (simp add: now_def)
qed

lemma front_unlisten:
  assumes ok: "front_ok B a s" and s': "s' = (set_w (close_handle ln (fr_w s)) s)\<lparr>fr_lns := AList.delete ln (fr_lns s)\<rparr>"
  shows "front_ok B a s'"
proof -
  have "front_locals s - {ln} \<subseteq> front_locals s'"
    using delete_keys [of "fr_lns s" ln] by (auto simp: s' front_locals_def set_w_def)
  from covered_closed [OF _ this] sys_ok_worldI [OF front_okD(1) [OF ok], of "B \<union> local_objs (front_locals s')" "close_handle ln (fr_w s)"]
  have "sys_ok (B \<union> local_objs (front_locals s')) (fr_sys s')" by (simp add: s' set_w_def)
  moreover have "conn_known (fr_w s') x" if "x \<in> set (fr_conns s')" for x
    using front_okD(3) [OF ok, of x] that by (cases "(fr_w s, x)" rule: conn_known.cases) (simp_all add: s' set_w_def)
  ultimately show ?thesis using front_okD(2,4) [OF ok] by (intro front_okI) (simp_all add: s' set_w_def)
qed

lemma front_step_ok:
  assumes "front_step cr route s s'" and ok: "front_ok B a s"
  shows "front_ok B a s'"
  using assms(1)
proof (cases rule: front_step.cases)
  case (Tunnel y)
  with front_tunnel [OF ok] show ?thesis by simp
next
  case (Listen env k ln w)
  with front_listen [OF ok] show ?thesis by simp
next
  case (Accept ln k ck env conn w)
  with front_accept [OF ok] show ?thesis by simp
next
  case (Open conn ck env ph m w c)
  note o = conn_open_step [OF Open(3) front_okD(5) [OF ok]]
  obtain strm sp where ph: "ph = Copying strm sp" "strm < w_next w" using o(3) by blast
  have "conn < w_next (fr_w s)" using front_okD(3) [OF ok map_of_SomeD [OF Open(2)]] by simp
  moreover have "w_next (fr_w s) \<le> w_next w" using step_okD(5) [OF o(1) front_okD(5) [OF ok]] .
  ultimately show ?thesis
    unfolding Open(1) using ph o(2)
    by (intro front_update [OF ok Open(2) sys_ok_opener [OF front_okD(1) [OF ok] o(1)]]) simp_all
next
  case (OpenEnds conn ck env m w c)
  note o = conn_open_step [OF OpenEnds(3) front_okD(5) [OF ok]]
  show ?thesis
    unfolding OpenEnds(1)
    by (rule front_remove [OF ok OpenEnds(2) sys_ok_opener [OF front_okD(1) [OF ok] o(1)] step_okD(5) [OF o(1) front_okD(5) [OF ok]] o(2)])
next
  case (Copy conn ck strm sp env ev sp')
  note c = front_copy [OF ok Copy(2,3)]
  show ?thesis
    unfolding Copy(1) using c(2,4)
    by (intro front_update [OF ok Copy(2) sys_ok_unchanged [OF front_okD(1) [OF ok] c(1)] _ _ c(3)]) simp_all
next
  case (CopyEnds conn ck strm sp env ev r sp')
  note c = front_copy [OF ok CopyEnds(2,3)]
  have "sys_ok (B \<union> local_objs (front_locals s)) ((fr_sys s)\<lparr>y_mgr := fr_m s, y_world := close_handle strm (sp_w sp')\<rparr>)"
    using sys_ok_worldI [OF sys_ok_unchanged [OF front_okD(1) [OF ok] c(1)], of _ "close_handle strm (sp_w sp')"] covered_close by simp
  from front_remove [OF ok CopyEnds(2) this _ c(3)] c(2) show ?thesis unfolding CopyEnds(1) by simp
next
  case Cancelled
  with ok show ?thesis by (simp add: front_ok_def front_locals_def)
next
  case (Unlisten ln k)
  show ?thesis by (rule front_unlisten [OF ok Unlisten(1)])
qed

lemma front_reach_ok:
  assumes "front_reach cr route w0 c0 s" and "world_ok w0"
  shows "front_ok (set (w_open w0)) (mt_TCPActive c0) s"
  using assms(1)
proof (induction rule: front_reach.induct)
  case (start y)
  from reachable_ok [OF this assms(2)] show ?case by (simp add: front_ok_def front_locals_def local_objs_def)
qed (blast intro: front_step_ok)

section \<open>Shutting down\<close>

text \<open>
  What remains once the context is cancelled: a connection that copies is woken by the context, one
  that has just begun opens its stream and is then woken, or ends because it could not; each
  listener is closed by the goroutine that waits for the context. The environments that answer the
  calls still to be made, and the order in which the goroutines run, are arbitrary.
\<close>

definition wake_conn :: "handle \<Rightarrow> front \<Rightarrow> front" where
  "wake_conn conn s =
     (case map_of (fr_conns s) conn of
        Some (ck, Copying strm sp) \<Rightarrow>
          (set_mwc (fr_m s) (close_handle conn (close_handle strm (fr_w s))) (conn_ended ck (fr_c s)) s)
            \<lparr>fr_conns := AList.delete conn (fr_conns s)\<rparr>
      | _ \<Rightarrow> s)"

definition end_conn :: "(handle \<Rightarrow> env) \<Rightarrow> RouteFn \<Rightarrow> handle \<Rightarrow> front \<Rightarrow> front" where
  "end_conn envs route conn s =
     (case map_of (fr_conns s) conn of
        Some (ck, Begun) \<Rightarrow>
          (case conn_open (envs conn) route ck (fr_m s) (fr_w s) (fr_c s) of
             (None, m, w, c) \<Rightarrow>
               (set_mwc m (close_handle conn w) (conn_ended ck c) s)\<lparr>fr_conns := AList.delete conn (fr_conns s)\<rparr>
           | (Some ph, m, w, c) \<Rightarrow>
               wake_conn conn ((set_mwc m w c s)\<lparr>fr_conns := AList.update conn (ck, ph) (fr_conns s)\<rparr>))
      | _ \<Rightarrow> wake_conn conn s)"

definition unlisten :: "handle \<Rightarrow> front \<Rightarrow> front" where
  "unlisten ln s = (set_w (close_handle ln (fr_w s)) s)\<lparr>fr_lns := AList.delete ln (fr_lns s)\<rparr>"

definition drain :: "(handle \<Rightarrow> env) \<Rightarrow> RouteFn \<Rightarrow> handle list \<Rightarrow> handle list \<Rightarrow> front \<Rightarrow> front" where
  "drain envs route conns lns s = fold unlisten lns (fold (end_conn envs route) conns s)"

abbreviation front_steps :: "crypto \<Rightarrow> RouteFn \<Rightarrow> front \<Rightarrow> front \<Rightarrow> bool" where
  "front_steps cr route \<equiv> (front_step cr route)\<^sup>*\<^sup>*"

lemma set_mwc_simps [simp]:
  "fr_conns (set_mwc m w c s) = fr_conns s" "fr_lns (set_mwc m w c s) = fr_lns s" "fr_ctx (set_mwc m w c s) = fr_ctx s"
  "fr_c (set_mwc m w c s) = c" "fr_w (set_mwc m w c s) = w" "fr_m (set_mwc m w c s) = m"
  "y_jobs (fr_sys (set_mwc m w c s)) = y_jobs (fr_sys s)"
  by (simp_all add: set_mwc_def)

lemma set_w_simps [simp]:
  "fr_conns (set_w w s) = fr_conns s" "fr_lns (set_w w s) = fr_lns s" "fr_ctx (set_w w s) = fr_ctx s"
  "fr_c (set_w w s) = fr_c s" "fr_w (set_w w s) = w" "y_jobs (fr_sys (set_w w s)) = y_jobs (fr_sys s)"
  by (simp_all add: set_w_def)

lemma wake_conn_rest [simp]:
  "fr_ctx (wake_conn conn s) = fr_ctx s" "fr_lns (wake_conn conn s) = fr_lns s"
  "y_jobs (fr_sys (wake_conn conn s)) = y_jobs (fr_sys s)"
  by (simp_all add: wake_conn_def split: option.split prod.split phase.split)

lemma wake_conn_steps:
  assumes "fr_ctx s" and "map_of (fr_conns s) conn = Some (ck, Copying strm sp)"
  shows "front_step cr route s (wake_conn conn s) \<and> fr_conns (wake_conn conn s) = AList.delete conn (fr_conns s)"
proof -
  have "splice_step env conn strm True WakeCtx (now s sp) = (Some (Some ctx_Canceled), now s sp)" for env
    using assms(1) by (simp add: now_def)
  from front_step.CopyEnds [OF assms(2) this]
  show ?thesis using assms(2) by (simp add: wake_conn_def now_def)
qed

lemma end_conn_steps:
  assumes "fr_ctx s" and "conn \<in> fst ` set (fr_conns s)" and "world_ok (fr_w s)"
  shows "front_steps cr route s (end_conn envs route conn s)
    \<and> fr_conns (end_conn envs route conn s) = AList.delete conn (fr_conns s)
    \<and> fr_ctx (end_conn envs route conn s) \<and> fr_lns (end_conn envs route conn s) = fr_lns s
    \<and> y_jobs (fr_sys (end_conn envs route conn s)) = y_jobs (fr_sys s)"
proof -
  obtain ck ph where c: "map_of (fr_conns s) conn = Some (ck, ph)"
    using assms(2) by (metis map_of_eq_None_iff not_None_eq surj_pair)
  show ?thesis
  proof (cases ph)
    case (Copying strm sp)
    with wake_conn_steps [OF assms(1), of conn ck strm sp] c assms(1)
    show ?thesis by (simp add: end_conn_def) blast
  next
    case Begun
    obtain r m w c' where o: "conn_open (envs conn) route ck (fr_m s) (fr_w s) (fr_c s) = (r, m, w, c')"
      by (metis prod_cases4)
    show ?thesis
    proof (cases r)
      case None
      with front_step.OpenEnds [of s conn ck "envs conn" route m w c' cr] c Begun o assms(1)
      show ?thesis by (simp add: end_conn_def r_into_rtranclp)
    next
      case (Some ph')
      let ?s = "(set_mwc m w c' s)\<lparr>fr_conns := AList.update conn (ck, ph') (fr_conns s)\<rparr>"
      have st: "front_step cr route s ?s" using front_step.Open c Begun o Some by blast
      obtain strm sp where p: "ph' = Copying strm sp" using conn_open_step(3) [OF o assms(3) Some] by blast
      have "map_of (fr_conns ?s) conn = Some (ck, Copying strm sp)" by (simp add: p update_conv')
      note wk = wake_conn_steps [of ?s, OF _ this]
      have "AList.delete conn (AList.update conn (ck, ph') (fr_conns s)) = AList.delete conn (fr_conns s)"
        by (rule AList.delete_update_same)
      with wk st c Begun o Some assms(1) show ?thesis
        by (simp add: end_conn_def) (meson converse_rtranclp_into_rtranclp r_into_rtranclp)
    qed
  qed
qed

lemma keys_after_delete: "insert k A = fst ` set xs \<Longrightarrow> k \<notin> A \<Longrightarrow> A = fst ` set (AList.delete k xs)"
proof -
  assume "insert k A = fst ` set xs" and "k \<notin> A"
  then have "A = fst ` set xs - {k}" by blast
  also have "\<dots> = fst ` set (AList.delete k xs)" by (force simp: AList.delete_eq)
  finally show ?thesis .
qed

lemma front_steps_ok: "front_steps cr route s s' \<Longrightarrow> front_ok B a s \<Longrightarrow> front_ok B a s'"
  by (induction rule: rtranclp_induct) (auto intro: front_step_ok)

lemma end_conns_steps:
  assumes "front_ok B a s" and "fr_ctx s" and "distinct order" and "set order = fst ` set (fr_conns s)"
  shows "front_steps cr route s (fold (end_conn envs route) order s)
    \<and> fr_conns (fold (end_conn envs route) order s) = [] \<and> fr_ctx (fold (end_conn envs route) order s)
    \<and> fr_lns (fold (end_conn envs route) order s) = fr_lns s
    \<and> y_jobs (fr_sys (fold (end_conn envs route) order s)) = y_jobs (fr_sys s)"
  using assms
proof (induction order arbitrary: s)
  case (Cons conn order)
  let ?s = "end_conn envs route conn s"
  have e: "front_steps cr route s ?s \<and> fr_conns ?s = AList.delete conn (fr_conns s) \<and> fr_ctx ?s
     \<and> fr_lns ?s = fr_lns s \<and> y_jobs (fr_sys ?s) = y_jobs (fr_sys s)"
    using Cons.prems front_okD(5) by (intro end_conn_steps) auto
  have "set order = fst ` set (fr_conns ?s)" using Cons.prems(3,4) e by (simp add: keys_after_delete)
  with Cons.IH [of ?s] front_steps_ok [OF conjunct1 [OF e] Cons.prems(1)] Cons.prems(3) e
  show ?case by (auto intro: rtranclp_trans)
qed simp

lemma unlisten_steps:
  assumes "fr_ctx s" and "distinct lns" and "set lns = fst ` set (fr_lns s)"
  shows "front_steps cr route s (fold unlisten lns s) \<and> fr_lns (fold unlisten lns s) = []
    \<and> fr_conns (fold unlisten lns s) = fr_conns s \<and> y_jobs (fr_sys (fold unlisten lns s)) = y_jobs (fr_sys s)"
  using assms
proof (induction lns arbitrary: s)
  case (Cons ln lns)
  let ?s = "unlisten ln s"
  obtain k where k: "(ln, k) \<in> set (fr_lns s)" using Cons.prems(3) by (metis image_iff list.set_intros(1) prod.collapse)
  have st: "front_step cr route s ?s" unfolding unlisten_def by (rule front_step.Unlisten [OF Cons.prems(1) k])
  have "set lns = fst ` set (fr_lns ?s)" "fr_ctx ?s" "fr_conns ?s = fr_conns s" "y_jobs (fr_sys ?s) = y_jobs (fr_sys s)"
    using Cons.prems by (simp_all add: unlisten_def keys_after_delete)
  with Cons.IH [of ?s] Cons.prems(2) show ?case by simp (meson st converse_rtranclp_into_rtranclp)
qed simp

lemma drain_steps:
  assumes "front_ok B a s" and "fr_ctx s" and "distinct conns" and "set conns = fst ` set (fr_conns s)"
    and "distinct lns" and "set lns = fst ` set (fr_lns s)"
  shows "front_steps cr route s (drain envs route conns lns s)
    \<and> fr_conns (drain envs route conns lns s) = [] \<and> fr_lns (drain envs route conns lns s) = []
    \<and> y_jobs (fr_sys (drain envs route conns lns s)) = y_jobs (fr_sys s)"
proof -
  let ?s = "fold (end_conn envs route) conns s"
  note e = end_conns_steps [OF assms(1-4), of cr route envs]
  have "set lns = fst ` set (fr_lns ?s)" using e assms(6) by metis
  with unlisten_steps [of ?s lns cr route] e assms(5) show ?thesis
    by (simp add: drain_def) (meson rtranclp_trans)
qed

text \<open>A client that listens for one rule and has accepted one connection.\<close>

definition web_rule :: Rule where
  "web_rule = \<lparr>ru_Listen = '':8080'', ru_Target = ''10.0.0.2:80'', ru_Proto = ''tcp'', ru_BindUpstream = []\<rparr>"

lemma sample_front:
  "\<exists>s. front_reach toy_crypto (\<lambda>_. Some DefaultOpener) world0 zero_Collector s \<and> \<not> fr_ctx s
     \<and> length (fr_lns s) = 1 \<and> map snd (fr_conns s) = [(FwdConn web_rule, Begun)] \<and> y_jobs (fr_sys s) = []"
proof -
  let ?R = "front_reach toy_crypto (\<lambda>_. Some DefaultOpener) world0 zero_Collector"
  obtain m w where m: "reachable toy_crypto world0 \<lparr>y_mgr = m, y_jobs = [], y_world = w\<rparr>"
    using sample_reachable by (elim exE conjE)
  define s0 where "s0 = \<lparr>fr_sys = \<lparr>y_mgr = m, y_jobs = [], y_world = w\<rparr>, fr_c = zero_Collector, fr_lns = [], fr_conns = [], fr_ctx = False\<rparr>"
  have r0: "?R s0" unfolding s0_def by (rule front_reach.start [OF m])
  have aq: "\<exists>h w'. acquire calm_env c None w'' = (Inr h, w')" for c w''
    by (simp add: acquire_def calm_env_calm [unfolded calm_def])
  obtain ln w1 where l: "acquire calm_env (NetListen ''tcp'' (listen_addr (FwdLn web_rule))) None (fr_w s0) = (Inr ln, w1)"
    using aq by blast
  define s1 where "s1 = (set_w w1 s0)\<lparr>fr_lns := (ln, FwdLn web_rule) # fr_lns s0\<rparr>"
  have r1: "?R s1" unfolding s1_def by (rule front_reach.step [OF r0 front_step.Listen [OF l]])
  obtain c w2 where a: "acquire calm_env (NetAccept ln) None (fr_w s1) = (Inr c, w2)" using aq by blast
  define s2 where "s2 = (set_mwc (fr_m s1) w2 (conn_started (FwdConn web_rule) (fr_c s1)) s1)
    \<lparr>fr_conns := (c, FwdConn web_rule, Begun) # fr_conns s1\<rparr>"
  have "(ln, FwdLn web_rule) \<in> set (fr_lns s1)" "accepts (FwdLn web_rule) (FwdConn web_rule)" by (simp_all add: s1_def)
  then have r2: "?R s2" unfolding s2_def by (rule front_reach.step [OF r1 front_step.Accept [OF _ _ a]])
  show ?thesis by (intro exI [of _ s2] conjI r2) (simp_all add: s2_def s1_def s0_def)
qed

section \<open>Properties\<close>

text \<open>C7. The listeners of a client leak nothing: in every state the accept loops, the connections and
  the manager behind them can reach, in whatever order they run, every open object was open before,
  is a listener or a connection of a goroutine that still runs, or belongs to a pool of the manager
  (its sessions and the streams on them); and the gauge of active connections, at its 64-bit width,
  is the number of forwarded connections whose goroutine still runs.\<close>

theorem frontend_leaks_nothing:
  assumes "front_reach cr route w0 c0 s" and "world_ok w0"
  shows "(\<forall>x \<in> set (w_open (fr_w s)). x \<in> set (w_open w0)
       \<or> (snd x = None \<and> fst x \<in> fst ` set (fr_lns s) \<union> fst ` set (fr_conns s))
       \<or> \<not> live (mgr_cover (fr_m s) \<union> jobs_cover (y_jobs (fr_sys s))) x)
     \<and> mt_TCPActive (fr_c s) = mt_TCPActive c0 + of_nat (length (filter (\<lambda>(h, ck, ph). is_fwd ck) (fr_conns s)))"
proof -
  note ok = front_okD [OF front_reach_ok [OF assms]]
  from ok(1) have "\<forall>x \<in> set (w_open (fr_w s)). x \<in> set (w_open w0) \<union> local_objs (front_locals s)
       \<or> \<not> live (mgr_cover (fr_m s) \<union> jobs_cover (y_jobs (fr_sys s))) x"
    by (auto simp: sys_ok_def covered_def)
  moreover have "x \<in> local_objs (front_locals s) \<Longrightarrow> snd x = None \<and> fst x \<in> fst ` set (fr_lns s) \<union> fst ` set (fr_conns s)" for x
    by (cases x) (simp add: local_objs_def front_locals_def image_iff)
  ultimately show ?thesis using ok(4) unfolding forwarded_def by blast
qed

theorem frontend_leaks_nothing_witness:
  "\<exists>s. front_reach toy_crypto (\<lambda>_. Some DefaultOpener) world0 zero_Collector s \<and> length (fr_lns s) = 1 \<and> mt_TCPActive (fr_c s) = 1"
proof -
  obtain s where s: "front_reach toy_crypto (\<lambda>_. Some DefaultOpener) world0 zero_Collector s" "\<not> fr_ctx s"
    "length (fr_lns s) = 1" "map snd (fr_conns s) = [(FwdConn web_rule, Begun)]"
    using sample_front by (elim exE conjE)
  obtain h where "fr_conns s = [(h, FwdConn web_rule, Begun)]" using s(4) by (cases "fr_conns s") auto
  with conjunct2 [OF frontend_leaks_nothing [OF s(1) world0_ok]] have "mt_TCPActive (fr_c s) = 1"
    by (simp add: zero_Collector_def)
  with s show ?thesis by (intro exI [of _ s] conjI)
qed



end
