(* ===== verification/ClientProc.thy ===== *)
theory ClientProc
  imports ServerProc Frontend
begin

text \<open>
  The client process of \<^verbatim>\<open>internal/tunnel/client.go\<close>: what \<^verbatim>\<open>Run\<close> starts, the services a configuration
  asks for, reloads, and the end. The services are described by the goroutines they consist of; what
  these do is the system of \<open>Frontend\<close>. The rules of a cancelled range redirect are removed by a
  goroutine nobody waits for, so cancelled redirects whose rules are still to be removed are part of
  the state (\<open>cl_old\<close>).
\<close>

section \<open>Services\<close>

record services =
  sc_forward :: "service list"
  sc_socks :: "SOCKS5Rule list"
  sc_range :: "RedirectManager option"

definition forward_rule :: "ForwardRule \<Rightarrow> Rule" where
  "forward_rule r =
     \<lparr>ru_Listen = f_Listen r, ru_Target = f_Target r, ru_Proto = (if f_Protocol r = [] then ''tcp'' else f_Protocol r),
      ru_BindUpstream = f_BindUpstream r\<rparr>"

definition forwardRulesFromConfig :: "Config \<Rightarrow> Rule list" where
  "forwardRulesFromConfig cfg = map forward_rule (c_Forward cfg)"

text \<open>\<^verbatim>\<open>routeFn\<close>; \<open>ready\<close> is whether the client has its manager.\<close>

definition routeFn :: "bool \<Rightarrow> RouteFn" where
  "routeFn ready bind =
     (if \<not> ready then None else if bind = [] then Some DefaultOpener else Some (ForServer bind))"

text \<open>The errors of the two port lists are dropped; an error leaves the list nil.\<close>

definition redirect_config :: "RangeConfig \<Rightarrow> RedirectConfig" where
  "redirect_config r =
     \<lparr>rc_RedirectPort = r_RedirectPort r, rc_TargetHost = r_TargetHost r,
      rc_PortRanges = (case PortRanges r of Inl _ \<Rightarrow> [] | Inr x \<Rightarrow> x),
      rc_Exclude = (case ExcludePorts r of Inl _ \<Rightarrow> [] | Inr x \<Rightarrow> x), rc_BindUpstream = r_BindUpstream r\<rparr>"

definition new_redirect :: RedirectManager where
  "new_redirect = \<lparr>rm_cfg = \<lparr>rc_RedirectPort = 0, rc_TargetHost = [], rc_PortRanges = [], rc_Exclude = [], rc_BindUpstream = []\<rparr>,
     rm_applied = False\<rparr>"

definition start_range ::
  "'fw netfilter \<Rightarrow> (int \<Rightarrow> error option) \<Rightarrow> Config \<Rightarrow> 'fw \<Rightarrow> error option \<times> RedirectManager option \<times> 'fw" where
  "start_range nf listen cfg fw =
     (case c_Range cfg of
        None \<Rightarrow> (None, None, fw)
      | Some r \<Rightarrow>
          if \<not> r_Enabled r then (None, None, fw)
          else (case rd_Start nf listen new_redirect (redirect_config r) fw of
                  (Some e, rm, fw1) \<Rightarrow> (Some e, None, fw1)
                | (None, rm, fw1) \<Rightarrow> (None, Some rm, fw1)))"

text \<open>The services \<^verbatim>\<open>startServices\<close> leaves running and the errors it logs.\<close>

definition start_all ::
  "'fw netfilter \<Rightarrow> (int \<Rightarrow> error option) \<Rightarrow> Config \<Rightarrow> 'fw \<Rightarrow> services \<times> error list \<times> 'fw" where
  "start_all nf listen cfg fw =
     (case (if c_Forward cfg = [] then ([], None) else fwd_Start (forwardRulesFromConfig cfg)) of
        (ss, Some e) \<Rightarrow> (\<lparr>sc_forward = ss, sc_socks = [], sc_range = None\<rparr>, [e], fw)
      | (ss, None) \<Rightarrow>
          (case start_range nf listen cfg fw of
             (e, rm, fw1) \<Rightarrow>
               (\<lparr>sc_forward = ss, sc_socks = c_SOCKS5 cfg, sc_range = rm\<rparr>, (case e of None \<Rightarrow> [] | Some e \<Rightarrow> [e]), fw1)))"

section \<open>The client\<close>

record 'fw client =
  cl_cfgPath :: string
  cl_cfg :: Config
  cl_up :: "Manager option"
  cl_svc :: "services option"
  cl_old :: "RedirectManager list"
  cl_w :: world
  cl_fw :: 'fw

definition NewClient :: "Config \<Rightarrow> string \<Rightarrow> world \<Rightarrow> 'fw \<Rightarrow> 'fw client" where
  "NewClient cfg path w fw = \<lparr>cl_cfgPath = path, cl_cfg = cfg, cl_up = None, cl_svc = None, cl_old = [], cl_w = w, cl_fw = fw\<rparr>"

definition stopServices :: "'fw client \<Rightarrow> 'fw client" where
  "stopServices c =
     (case cl_svc c of
        None \<Rightarrow> c
      | Some s \<Rightarrow> c\<lparr>cl_svc := None, cl_old := (case sc_range s of None \<Rightarrow> [] | Some rm \<Rightarrow> [rm]) @ cl_old c\<rparr>)"

text \<open>The goroutine of a cancelled redirect.\<close>

definition client_cleanup :: "'fw netfilter \<Rightarrow> RedirectManager \<Rightarrow> 'fw client \<Rightarrow> 'fw client" where
  "client_cleanup nf rm c = c\<lparr>cl_old := remove1 rm (cl_old c), cl_fw := snd (removeRules nf rm (cl_fw c))\<rparr>"

definition flush_old :: "'fw netfilter \<Rightarrow> 'fw client \<Rightarrow> 'fw client" where
  "flush_old nf c = fold (client_cleanup nf) (cl_old c) c"

text \<open>\<open>early\<close>: the goroutines of the redirects stopped so far have finished before the new one is started.\<close>

definition startServices ::
  "'fw netfilter \<Rightarrow> (int \<Rightarrow> error option) \<Rightarrow> bool \<Rightarrow> Config \<Rightarrow> 'fw client \<Rightarrow> error list \<times> 'fw client" where
  "startServices nf listen early cfg c =
     (let c1 = (if early then flush_old nf (stopServices c) else stopServices c)
      in case start_all nf listen cfg (cl_fw c1) of
           (s, es, fw) \<Rightarrow> (es, c1\<lparr>cl_svc := Some s, cl_fw := fw\<rparr>))"

definition client_ReloadFromDisk ::
  "crypto \<Rightarrow> env \<Rightarrow> loader \<Rightarrow> 'fw netfilter \<Rightarrow> (int \<Rightarrow> error option) \<Rightarrow> bool \<Rightarrow> 'fw client \<Rightarrow> error option \<times> 'fw client" where
  "client_ReloadFromDisk cr env ld nf listen early c =
     (if cl_cfgPath c = [] then (Some (Errorf ''config path unknown'' []), c)
      else case load_config ld (cl_cfgPath c) of
             Inl e \<Rightarrow> (Some e, c)
           | Inr cfg \<Rightarrow>
          (case resolve env (cl_w c) cfg of
             Inl e \<Rightarrow> (Some e, c)
           | Inr netRT \<Rightarrow>
          (case cl_up c of
             None \<Rightarrow> (Some (Errorf ''upstream not ready'' []), c)
           | Some up \<Rightarrow>
          (case mgr_Reload cr env cfg (nr_RemoteFlags netRT) up (cl_w c) of
             (Some e, up1, w1) \<Rightarrow> (Some e, c\<lparr>cl_up := Some up1, cl_w := w1\<rparr>)
           | (None, up1, w1) \<Rightarrow>
               (None, snd (startServices nf listen early cfg (c\<lparr>cl_up := Some up1, cl_w := w1, cl_cfg := cfg\<rparr>)))))))"

text \<open>\<^verbatim>\<open>Run\<close> until it waits for the end of its context.\<close>

definition client_start ::
  "crypto \<Rightarrow> env \<Rightarrow> 'fw netfilter \<Rightarrow> (int \<Rightarrow> error option) \<Rightarrow> 'fw client \<Rightarrow> error option \<times> 'fw client" where
  "client_start cr env nf listen c =
     (let cfg = cl_cfg c
      in case resolve env (cl_w c) cfg of
           Inl e \<Rightarrow> (Some e, c)
         | Inr netRT \<Rightarrow>
             (case NewManager cr env cfg (nr_RemoteFlags netRT) (cl_w c) of
                (Inl e, w1) \<Rightarrow> (Some (Wrapf ''upstream: %w'' [] e), c\<lparr>cl_w := w1\<rparr>)
              | (Inr up, w1) \<Rightarrow> (None, snd (startServices nf listen True cfg (c\<lparr>cl_up := Some up, cl_w := w1\<rparr>)))))"

text \<open>The deferred calls of \<^verbatim>\<open>Run\<close>: stop the services, cancel, close the manager.\<close>

definition client_return :: "'fw client \<Rightarrow> 'fw client" where
  "client_return c0 =
     (let c = stopServices c0
      in case cl_up c of
           None \<Rightarrow> c
         | Some up \<Rightarrow> (case mgr_Close up (cl_w c) of (up1, w1) \<Rightarrow> c\<lparr>cl_up := Some up1, cl_w := w1\<rparr>))"

text \<open>\<open>Traffic\<close> is whatever the manager and its users do meanwhile: it changes neither services nor rules.\<close>

inductive client_step :: "crypto \<Rightarrow> 'fw netfilter \<Rightarrow> (bool \<Rightarrow> bool) \<Rightarrow> 'fw client \<Rightarrow> 'fw client \<Rightarrow> bool" for cr nf ok where
  Reload: "ok early \<Longrightarrow> client_ReloadFromDisk cr env ld nf listen early c = (e, c') \<Longrightarrow> client_step cr nf ok c c'"
| Cleanup: "rm \<in> set (cl_old c) \<Longrightarrow> client_step cr nf ok c (client_cleanup nf rm c)"
| Traffic: "cl_up c = Some up \<Longrightarrow> sys_step cr \<lparr>y_mgr = up, y_jobs = js, y_world = cl_w c\<rparr> \<lparr>y_mgr = up', y_jobs = js', y_world = w'\<rparr>
     \<Longrightarrow> client_step cr nf ok c (c\<lparr>cl_up := Some up', cl_w := w'\<rparr>)"

text \<open>All runs, and the orderly ones, in which rules are removed before new ones are installed.\<close>

abbreviation client_run :: "crypto \<Rightarrow> 'fw netfilter \<Rightarrow> 'fw client \<Rightarrow> 'fw client \<Rightarrow> bool" where
  "client_run cr nf \<equiv> (client_step cr nf (\<lambda>_. True))\<^sup>*\<^sup>*"

abbreviation orderly_run :: "crypto \<Rightarrow> 'fw netfilter \<Rightarrow> 'fw client \<Rightarrow> 'fw client \<Rightarrow> bool" where
  "orderly_run cr nf \<equiv> (client_step cr nf id)\<^sup>*\<^sup>*"

section \<open>Admin interface and one-shot commands\<close>

definition strategy_name :: "strategy \<Rightarrow> string" where
  "strategy_name st = (case st of Failover \<Rightarrow> ''failover'' | RoundRobin \<Rightarrow> ''round_robin'' | Weighted \<Rightarrow> ''weighted''
     | LeastLatency \<Rightarrow> ''least_latency'')"

definition client_status :: "'fw client \<Rightarrow> Manager \<Rightarrow> Collector \<Rightarrow> Status" where
  "client_status c up mc =
     (let snap = Snapshot up
      in \<lparr>st_Core = version_Name, st_Version = version_Version, st_Role = ''client'', st_Name = c_Name (cl_cfg c),
          st_Strategy = strategy_name (m_strategy up), st_Active = ActiveName up, st_Listen = [],
          st_Sessions = (\<Sum>s \<leftarrow> snap. int (sv_Sessions s)), st_Upstreams = Some snap,
          st_Stats = Some (mt_Snapshot (Some mc))\<rparr>)"

definition client_startAdmin ::
  "crypto \<Rightarrow> env \<Rightarrow> (files \<Rightarrow> loader) \<Rightarrow> 'fw netfilter \<Rightarrow> (int \<Rightarrow> error option) \<Rightarrow> bool \<Rightarrow> Config \<Rightarrow> Manager \<Rightarrow> 'fw client
     \<Rightarrow> Collector \<Rightarrow> AdminServer option" where
  "client_startAdmin cr env ld nf listen early cfg0 up c mc =
     (case c_Admin cfg0 of
        None \<Rightarrow> None
      | Some a \<Rightarrow>
          Some (WithConfigEditor
            (admin_New (Some a) (client_status c up mc)
               (Some (\<lambda>fs. fst (client_ReloadFromDisk cr env (ld fs) nf listen early c))))
            (cl_cfgPath c) (Some (cl_cfg c))))"

definition tunnel_PingConfig :: "crypto \<Rightarrow> env \<Rightarrow> Config \<Rightarrow> world \<Rightarrow> error option \<times> world" where
  "tunnel_PingConfig cr env cfg w =
     (case resolve env w cfg of
        Inl e \<Rightarrow> (Some e, w)
      | Inr netRT \<Rightarrow>
          (case NewManager cr env cfg (nr_RemoteFlags netRT) w of
             (Inl e, w1) \<Rightarrow> (Some e, w1)
           | (Inr up, w1) \<Rightarrow>
               (case pingAll env (map fst (m_entries up)) up w1 of (e, up1, w2) \<Rightarrow> (e, snd (mgr_Close up1 w2)))))"

definition tunnel_BenchConfig :: "crypto \<Rightarrow> env \<Rightarrow> Config \<Rightarrow> world \<Rightarrow> BenchResult list res \<times> world" where
  "tunnel_BenchConfig cr env cfg w =
     (case resolve env w cfg of
        Inl e \<Rightarrow> (Inl e, w)
      | Inr netRT \<Rightarrow>
          (case NewManager cr env cfg (nr_RemoteFlags netRT) w of
             (Inl e, w1) \<Rightarrow> (Inl e, w1)
           | (Inr up, w1) \<Rightarrow>
               (case Benchmark env up w1 of (rs, up1, w2) \<Rightarrow> (Inr rs, snd (mgr_Close up1 w2)))))"

section \<open>What a configuration asks for\<close>

definition protocols_ok :: "Config \<Rightarrow> bool" where
  "protocols_ok cfg \<longleftrightarrow> (\<forall>r \<in> set (c_Forward cfg). f_Protocol r \<in> {[], ''tcp'', ''udp''})"

definition planned :: "Config \<Rightarrow> service list" where
  "planned cfg = map (\<lambda>r. if f_Protocol r = ''udp'' then ServeUDP (forward_rule r) else ServeTCP (forward_rule r)) (c_Forward cfg)"

definition running_as :: "Config \<Rightarrow> services \<Rightarrow> bool" where
  "running_as cfg s \<longleftrightarrow> sc_forward s = planned cfg \<and> sc_socks s = c_SOCKS5 cfg
     \<and> (\<forall>rm. sc_range s = Some rm \<longrightarrow> rm_applied rm \<and> (\<exists>r. c_Range cfg = Some r \<and> r_Enabled r \<and> rm_cfg rm = redirect_config r))"

lemma fwd_Start_planned:
  "protocols_ok cfg \<Longrightarrow> fwd_Start (forwardRulesFromConfig cfg) = (planned cfg, None)"
proof -
  have "\<forall>r \<in> set rs. f_Protocol r \<in> {[], ''tcp'', ''udp''} \<Longrightarrow> fwd_Start (map forward_rule rs)
     = (map (\<lambda>r. if f_Protocol r = ''udp'' then ServeUDP (forward_rule r) else ServeTCP (forward_rule r)) rs, None)" for rs
  proof (induction rs)
    case (Cons r rs)
    then have "f_Protocol r = [] \<or> f_Protocol r = ''tcp'' \<or> f_Protocol r = ''udp''" by simp
    with Cons show ?case by (elim disjE) (simp_all add: forward_rule_def)
  qed simp
  then show "protocols_ok cfg \<Longrightarrow> ?thesis" by (simp add: protocols_ok_def forwardRulesFromConfig_def planned_def)
qed

text \<open>A rule with any other protocol stops the start: only the rules before it run, and nothing else does.\<close>

lemma fwd_Start_stops:
  assumes "f_Protocol r \<notin> {[], ''tcp'', ''udp''}"
  shows "fwd_Start (map forward_rule (rs @ r # rs')) = (fst (fwd_Start (map forward_rule rs)), snd (fwd_Start (map forward_rule (rs @ r # rs'))))
    \<and> snd (fwd_Start (map forward_rule (rs @ r # rs'))) \<noteq> None"
  using assms by (induction rs) (auto simp: forward_rule_def split: prod.splits)

lemma start_all_stops:
  assumes "c_Forward cfg = rs @ r # rs'" and "f_Protocol r \<notin> {[], ''tcp'', ''udp''}"
  shows "case start_all nf listen cfg fw of (s, es, fw') \<Rightarrow>
     es \<noteq> [] \<and> sc_forward s = fst (fwd_Start (map forward_rule rs)) \<and> sc_socks s = [] \<and> sc_range s = None \<and> fw' = fw"
proof -
  obtain ss e where f: "fwd_Start (map forward_rule (rs @ r # rs')) = (ss, e)" by fastforce
  from fwd_Start_stops [OF assms(2), of rs rs'] f have "e \<noteq> None" "ss = fst (fwd_Start (map forward_rule rs))" by simp_all
  then show ?thesis using f assms(1) by (auto simp: start_all_def forwardRulesFromConfig_def)
qed

lemma rd_Start_applied: "rd_Start nf listen m cfg fw = (None, rm, fw') \<Longrightarrow> rm_applied rm \<and> rm_cfg rm = cfg"
  by (auto simp: rd_Start_def Let_def split: prod.splits option.splits)

lemma start_range_cases:
  assumes "start_range nf listen cfg fw = (e, rm, fw')"
  obtains (off) "\<not> range_on cfg" and "e = None" and "rm = None" and "fw' = fw"
    | (failed) r er m where "c_Range cfg = Some r" and "r_Enabled r" and "e = Some er" and "rm = None"
        and "rd_Start nf listen new_redirect (redirect_config r) fw = (Some er, m, fw')"
    | (started) r m where "c_Range cfg = Some r" and "r_Enabled r" and "e = None" and "rm = Some m"
        and "rd_Start nf listen new_redirect (redirect_config r) fw = (None, m, fw')"
  using assms by (auto simp: start_range_def range_on_def split: option.splits if_splits prod.splits)

lemma start_all_running:
  assumes "protocols_ok cfg" and "start_all nf listen cfg fw = (s, es, fw')"
  shows "running_as cfg s \<and> (es = [] \<longrightarrow> (sc_range s \<noteq> None \<longleftrightarrow> range_on cfg))"
proof -
  obtain e rm fw1 where r: "start_range nf listen cfg fw = (e, rm, fw1)" by (metis prod_cases3)
  have "s = \<lparr>sc_forward = planned cfg, sc_socks = c_SOCKS5 cfg, sc_range = rm\<rparr>" "es = (case e of None \<Rightarrow> [] | Some e \<Rightarrow> [e])"
    using assms r fwd_Start_planned [OF assms(1)] by (auto simp: start_all_def planned_def split: if_splits)
  then show ?thesis using r
    by (cases rule: start_range_cases [OF r]) (auto simp: running_as_def range_on_def dest: rd_Start_applied)
qed

lemma stopServices_simps [simp]:
  "cl_svc (stopServices c) = None" "cl_cfg (stopServices c) = cl_cfg c" "cl_up (stopServices c) = cl_up c"
  "cl_w (stopServices c) = cl_w c" "cl_fw (stopServices c) = cl_fw c" "cl_cfgPath (stopServices c) = cl_cfgPath c"
  by (auto simp: stopServices_def split: option.splits)

lemma cleanups_simps:
  "cl_svc (fold (client_cleanup nf) rms c) = cl_svc c" "cl_cfg (fold (client_cleanup nf) rms c) = cl_cfg c"
  "cl_up (fold (client_cleanup nf) rms c) = cl_up c" "cl_w (fold (client_cleanup nf) rms c) = cl_w c"
  "cl_cfgPath (fold (client_cleanup nf) rms c) = cl_cfgPath c"
  by (induction rms arbitrary: c) (simp_all add: client_cleanup_def)

lemma flush_old_simps [simp]:
  "cl_svc (flush_old nf c) = cl_svc c" "cl_cfg (flush_old nf c) = cl_cfg c" "cl_up (flush_old nf c) = cl_up c"
  "cl_w (flush_old nf c) = cl_w c" "cl_cfgPath (flush_old nf c) = cl_cfgPath c"
  by (simp_all add: flush_old_def cleanups_simps)

lemma startServices_result:
  assumes "startServices nf listen early cfg c = (es, c')"
  shows "cl_cfg c' = cl_cfg c" and "cl_up c' = cl_up c" and "cl_w c' = cl_w c" and "cl_cfgPath c' = cl_cfgPath c"
    and "\<exists>s. cl_svc c' = Some s \<and> (protocols_ok cfg \<longrightarrow> running_as cfg s \<and> (es = [] \<longrightarrow> (sc_range s \<noteq> None \<longleftrightarrow> range_on cfg)))"
proof -
  let ?c1 = "if early then flush_old nf (stopServices c) else stopServices c"
  obtain s fw where a: "start_all nf listen cfg (cl_fw ?c1) = (s, es, fw)" and c': "c' = ?c1\<lparr>cl_svc := Some s, cl_fw := fw\<rparr>"
    using assms by (auto simp: startServices_def Let_def split: prod.splits)
  show "cl_cfg c' = cl_cfg c" "cl_up c' = cl_up c" "cl_w c' = cl_w c" "cl_cfgPath c' = cl_cfgPath c" by (simp_all add: c')
  show "\<exists>s. cl_svc c' = Some s \<and> (protocols_ok cfg \<longrightarrow> running_as cfg s \<and> (es = [] \<longrightarrow> (sc_range s \<noteq> None \<longleftrightarrow> range_on cfg)))"
    using start_all_running [OF _ a] by (auto simp: c')
qed

section \<open>Reloads\<close>

lemma client_ReloadFromDisk_cases:
  assumes "client_ReloadFromDisk cr env ld nf listen early c = (e, c')"
  obtains (refused) er where "e = Some er" and "c' = c"
    | (dial_failed) er cfg flags up up1 w1 where "e = Some er" and "load_config ld (cl_cfgPath c) = Inr cfg" and "cl_up c = Some up"
        and "mgr_Reload cr env cfg flags up (cl_w c) = (Some er, up1, w1)" and "c' = c\<lparr>cl_up := Some up1, cl_w := w1\<rparr>"
    | (reloaded) cfg flags up up1 w1 es where "e = None" and "load_config ld (cl_cfgPath c) = Inr cfg" and "cl_up c = Some up"
        and "mgr_Reload cr env cfg flags up (cl_w c) = (None, up1, w1)"
        and "startServices nf listen early cfg (c\<lparr>cl_up := Some up1, cl_w := w1, cl_cfg := cfg\<rparr>) = (es, c')"
proof (cases "c' = c \<and> e \<noteq> None")
  case True
  then show thesis using refused by auto
next
  case False
  then obtain cfg netRT up where l: "load_config ld (cl_cfgPath c) = Inr cfg" "resolve env (cl_w c) cfg = Inr netRT" "cl_up c = Some up"
    "cl_cfgPath c \<noteq> []"
    using assms by (auto simp: client_ReloadFromDisk_def split: if_splits sum.splits option.splits)
  obtain er up1 w1 where m: "mgr_Reload cr env cfg (nr_RemoteFlags netRT) up (cl_w c) = (er, up1, w1)" by (metis prod_cases3)
  show thesis
  proof (cases er)
    case None
    obtain es c2 where st: "startServices nf listen early cfg (c\<lparr>cl_up := Some up1, cl_w := w1, cl_cfg := cfg\<rparr>) = (es, c2)" by fastforce
    have "e = None" "c' = c2" using assms l m None st by (simp_all add: client_ReloadFromDisk_def)
    then show thesis using reloaded [OF _ l(1,3) m [unfolded None]] st by simp
  next
    case (Some x)
    have "e = Some x" "c' = c\<lparr>cl_up := Some up1, cl_w := w1\<rparr>" using assms l m Some by (simp_all add: client_ReloadFromDisk_def)
    then show thesis using dial_failed [OF _ l(1,3) m [unfolded Some]] by simp
  qed
qed

text \<open>What every state of a running client satisfies.\<close>

definition client_ok :: "'fw client \<Rightarrow> bool" where
  "client_ok c \<longleftrightarrow> valid_config (cl_cfg c) \<and> cl_up c \<noteq> None
     \<and> (\<exists>s. cl_svc c = Some s \<and> (protocols_ok (cl_cfg c) \<longrightarrow> running_as (cl_cfg c) s))"

lemma client_step_ok:
  assumes "client_step cr nf ok c c'" and "client_ok c"
  shows "client_ok c'"
  using assms(1)
proof cases
  case (Reload early env ld listen e)
  from Reload(2) show ?thesis
  proof (cases rule: client_ReloadFromDisk_cases)
    case refused
    with assms(2) show ?thesis by simp
  next
    case (dial_failed er cfg flags up up1 w1)
    with assms(2) show ?thesis by (simp add: client_ok_def)
  next
    case (reloaded cfg flags up up1 w1 es)
    from startServices_result [OF reloaded(5)] load_config_valid [OF reloaded(2)] show ?thesis by (auto simp: client_ok_def)
  qed
qed (use assms(2) in \<open>simp_all add: client_ok_def client_cleanup_def\<close>)

lemma client_start_started:
  assumes "client_start cr env nf listen c = (None, c')"
  obtains up w1 es where "startServices nf listen True (cl_cfg c) (c\<lparr>cl_up := Some up, cl_w := w1\<rparr>) = (es, c')"
proof -
  obtain up w1 where "c' = snd (startServices nf listen True (cl_cfg c) (c\<lparr>cl_up := Some up, cl_w := w1\<rparr>))"
    using assms by (auto simp: client_start_def Let_def split: sum.splits prod.splits)
  then show thesis using that by (metis prod.collapse)
qed

lemma client_start_ok:
  assumes "client_start cr env nf listen c = (None, c')" and "valid_config (cl_cfg c)"
  shows "client_ok c'"
proof (rule client_start_started [OF assms(1)])
  fix up w1 es
  assume "startServices nf listen True (cl_cfg c) (c\<lparr>cl_up := Some up, cl_w := w1\<rparr>) = (es, c')"
  from startServices_result [OF this] assms(2) show "client_ok c'" by (auto simp: client_ok_def)
qed

lemma client_run_ok: "(client_step cr nf ok)\<^sup>*\<^sup>* c c' \<Longrightarrow> client_ok c \<Longrightarrow> client_ok c'"
  by (induction rule: rtranclp_induct) (auto intro: client_step_ok)

section \<open>The rules of the range redirect\<close>

text \<open>Either no redirect runs and the rules are those of the start, or removing the running one's gives them back.\<close>

definition nat_ok :: "'fw netfilter \<Rightarrow> ('fw \<Rightarrow> string \<Rightarrow> tables) \<Rightarrow> (string \<Rightarrow> tables) \<Rightarrow> 'fw client \<Rightarrow> bool" where
  "nat_ok nf view V0 c \<longleftrightarrow> cl_old c = []
     \<and> (case Option.bind (cl_svc c) sc_range of
          None \<Rightarrow> view (cl_fw c) = V0
        | Some rm \<Rightarrow> view (snd (removeRules nf rm (cl_fw c))) = V0)"

lemma nat_ok_stop:
  assumes "nat_ok nf view V0 c"
  shows "view (cl_fw (flush_old nf (stopServices c))) = V0 \<and> cl_old (flush_old nf (stopServices c)) = []"
proof (cases "Option.bind (cl_svc c) sc_range")
  case None
  then have "cl_old (stopServices c) = []" using assms by (auto simp: nat_ok_def stopServices_def split: option.splits)
  then have "flush_old nf (stopServices c) = stopServices c" by (simp add: flush_old_def)
  with assms None \<open>cl_old (stopServices c) = []\<close> show ?thesis by (simp add: nat_ok_def)
next
  case (Some rm)
  then obtain sv where "cl_svc c = Some sv" "sc_range sv = Some rm" by (cases "cl_svc c") simp_all
  then have "cl_old (stopServices c) = [rm]" using assms by (simp add: nat_ok_def stopServices_def)
  then have "flush_old nf (stopServices c) = client_cleanup nf rm (stopServices c)" by (simp add: flush_old_def)
  moreover have "view (snd (removeRules nf rm (cl_fw c))) = V0" using assms Some by (simp add: nat_ok_def)
  ultimately show ?thesis using \<open>cl_old (stopServices c) = [rm]\<close> by (simp add: client_cleanup_def)
qed

text \<open>What is assumed of the system: no chain of that name, and \<^verbatim>\<open>PREROUTING\<close> without the hook.\<close>

definition untouched :: "(rule \<Rightarrow> rule) \<Rightarrow> (string \<Rightarrow> tables) \<Rightarrow> bool" where
  "untouched canon V \<longleftrightarrow> V ''iptables'' ''nat'' chainName = None
     \<and> (\<exists>rs. V ''iptables'' ''nat'' ''PREROUTING'' = Some rs \<and> canon hook_rule \<notin> set rs)"

lemma start_range_undone:
  assumes "reliable nf view canon" and "untouched canon (view fw)" and s: "start_range nf listen cfg fw = (e, rm, fw')"
  shows "case rm of None \<Rightarrow> view fw' = view fw | Some m \<Rightarrow> view (snd (removeRules nf m fw')) = view fw"
proof -
  obtain rs where rs: "view fw ''iptables'' ''nat'' chainName = None" "view fw ''iptables'' ''nat'' ''PREROUTING'' = Some rs"
    "canon hook_rule \<notin> set rs" using assms(2) by (auto simp: untouched_def)
  note u = rd_Start_undone [where view = view and fw = fw, OF assms(1) rs]
  from s show ?thesis
  proof (cases rule: start_range_cases)
    case off
    then show ?thesis by simp
  next
    case (failed r er m)
    have "listen (rc_RedirectPort (redirect_config r)) \<noteq> None \<Longrightarrow> view fw' = view fw"
      using u [where listen = listen and m = new_redirect and cfg = "redirect_config r"] failed(5) by simp
    moreover have "listen (rc_RedirectPort (redirect_config r)) \<noteq> None"
      using u [where listen = listen and m = new_redirect and cfg = "redirect_config r"] failed(5) by (auto split: if_splits)
    ultimately show ?thesis using failed(4) by simp
  next
    case (started r m)
    have "listen (rc_RedirectPort (redirect_config r)) = None"
      using u [where listen = listen and m = new_redirect and cfg = "redirect_config r"] started(5) by (auto split: if_splits)
    with u [where listen = listen and m = new_redirect and cfg = "redirect_config r"] started(4,5) show ?thesis by simp
  qed
qed

lemma startServices_nat:
  assumes "reliable nf view canon" and "untouched canon V0" and "nat_ok nf view V0 c"
    and st: "startServices nf listen True cfg c = (es, c')"
  shows "nat_ok nf view V0 c'"
proof -
  let ?c1 = "flush_old nf (stopServices c)"
  have v: "view (cl_fw ?c1) = V0" "cl_old ?c1 = []" using nat_ok_stop [OF assms(3)] by simp_all
  obtain s fw where a: "start_all nf listen cfg (cl_fw ?c1) = (s, es, fw)" and c': "c' = ?c1\<lparr>cl_svc := Some s, cl_fw := fw\<rparr>"
    using st by (auto simp: startServices_def Let_def split: prod.splits)
  have "case sc_range s of None \<Rightarrow> view fw = V0 | Some m \<Rightarrow> view (snd (removeRules nf m fw)) = V0"
  proof (cases "snd (if c_Forward cfg = [] then ([], None) else fwd_Start (forwardRulesFromConfig cfg))")
    case None
    obtain e rm fw1 where r: "start_range nf listen cfg (cl_fw ?c1) = (e, rm, fw1)" by (metis prod_cases3)
    have "untouched canon (view (cl_fw ?c1))" using v(1) assms(2) by simp
    note sr = start_range_undone [where view = view, OF assms(1) this r]
    have "sc_range s = rm" "fw = fw1" using a r None by (auto simp: start_all_def split: prod.splits)
    with sr v(1) show ?thesis by (cases rm) simp_all
  next
    case (Some e)
    then have "sc_range s = None" "fw = cl_fw ?c1" using a by (auto simp: start_all_def split: prod.splits)
    with v(1) show ?thesis by simp
  qed
  with v(2) show ?thesis by (auto simp: nat_ok_def c' split: option.splits)
qed

lemma client_step_nat:
  assumes "client_step cr nf id c c'" and "reliable nf view canon" and "untouched canon V0" and n: "nat_ok nf view V0 c"
  shows "nat_ok nf view V0 c'"
  using assms(1)
proof cases
  case (Reload early env ld listen e)
  from Reload(2) show ?thesis
  proof (cases rule: client_ReloadFromDisk_cases)
    case (reloaded cfg flags up up1 w1 es)
    have "nat_ok nf view V0 (c\<lparr>cl_up := Some up1, cl_w := w1, cl_cfg := cfg\<rparr>)" using n by (auto simp: nat_ok_def split: option.splits)
    from startServices_nat [OF assms(2,3) this] reloaded(5) Reload(1) show ?thesis by simp
  qed (use n in \<open>auto simp: nat_ok_def split: option.splits\<close>)
qed (use n in \<open>auto simp: nat_ok_def split: option.splits\<close>)

lemma orderly_run_nat:
  assumes "orderly_run cr nf c c'" and "reliable nf view canon" and "untouched canon V0" and "nat_ok nf view V0 c"
  shows "nat_ok nf view V0 c'"
  using assms(1,4) by (induction rule: rtranclp_induct) (auto intro: client_step_nat [OF _ assms(2,3)])

lemma client_return_stops: "cl_fw (client_return c) = cl_fw (stopServices c)" "cl_old (client_return c) = cl_old (stopServices c)"
  by (simp_all add: client_return_def Let_def split: option.split prod.split)

lemma cleanups_fw:
  "cl_fw c = cl_fw d \<Longrightarrow> cl_fw (fold (client_cleanup nf) rms c) = cl_fw (fold (client_cleanup nf) rms d)"
  by (induction rms arbitrary: c d) (simp_all add: client_cleanup_def)

section \<open>A sample\<close>

definition entry_file :: Config where
  "entry_file = sample_quic_client\<lparr>c_Range := Some \<lparr>r_Enabled = True, r_Protocol = [], r_RedirectPort = 999, r_TargetHost = [],
     r_Ports = ''100-199'', r_Exclude = ''22'', r_BindUpstream = []\<rparr>,
     c_Admin := Some \<lparr>ad_Listen = ''127.0.0.1:9000'', ad_Metrics = True, ad_Token = ''open sesame''\<rparr>\<rparr>"

definition entry_config :: Config where
  "entry_config = (case Validate entry_file of Inr c \<Rightarrow> c | Inl _ \<Rightarrow> entry_file)"

lemma entry_config_valid: "Validate entry_file = Inr entry_config" "valid_config entry_config"
proof -
  have "\<not> is_err (Validate entry_file)" by code_simp
  then show v: "Validate entry_file = Inr entry_config" by (auto simp: entry_config_def not_is_err_iff)
  then show "valid_config entry_config" by (rule Validate_valid)
qed

lemma entry_config_facts:
  obtains rt eps where "resolve calm_env world0 entry_config = Inr rt" and "UpstreamEndpoints entry_config = Inr eps"
    and "list_all (endpoint_ok toy_crypto calm_env) eps" and "map ep_Name eps = [''fra'', ''ams'']"
    and "network_ok calm_env entry_config" and "protocols_ok entry_config"
proof -
  have "\<not> is_err (resolve calm_env world0 entry_config)" by code_simp
  then obtain rt where r: "resolve calm_env world0 entry_config = Inr rt" by (auto simp: not_is_err_iff)
  have "case UpstreamEndpoints entry_config of Inl e \<Rightarrow> False
    | Inr eps \<Rightarrow> list_all (endpoint_ok toy_crypto calm_env) eps \<and> map ep_Name eps = [''fra'', ''ams'']" by code_simp
  then obtain eps where e: "UpstreamEndpoints entry_config = Inr eps" "list_all (endpoint_ok toy_crypto calm_env) eps"
    "map ep_Name eps = [''fra'', ''ams'']" by (cases "UpstreamEndpoints entry_config") auto
  have "\<not> is_err (ResolveNetworkWithPort (e_iface calm_env) 7 entry_config 0)" by code_simp
  then have "network_ok calm_env entry_config" by (simp add: network_ok_def calm_env_def)
  moreover have "protocols_ok entry_config" by code_simp
  ultimately show thesis using that [OF r e] by blast
qed

lemma sample_client_starts:
  obtains c0 where "client_start toy_crypto calm_env toy_nf (\<lambda>_. None) (NewClient entry_config ''c'' world0 toy_fw) = (None, c0)"
proof -
  obtain rt eps where f: "resolve calm_env world0 entry_config = Inr rt" "UpstreamEndpoints entry_config = Inr eps"
    "list_all (endpoint_ok toy_crypto calm_env) eps" "network_ok calm_env entry_config" by (rule entry_config_facts)
  obtain m w where "NewManager toy_crypto calm_env entry_config (nr_RemoteFlags rt) world0 = (Inr m, w)"
    using NewManager_calm [OF calm_env_calm f(4,2,3)] by (rule succeedsE)
  with f(1) that show thesis by (simp add: client_start_def NewClient_def)
qed

definition entry_loader :: loader where
  "entry_loader = \<lparr>ld_read = (\<lambda>_. Inr []), ld_yaml = (\<lambda>_. Inr entry_file)\<rparr>"

definition old_client :: "(string \<Rightarrow> toy_tables) client" where
  "old_client = (NewClient sample_quic_client ''c'' world0 toy_fw)\<lparr>cl_up := Some (sample_manager Failover)\<rparr>"

lemma entry_loader_loads [simp]: "load_config entry_loader path = Inr entry_config"
  by (simp add: load_config_def Load_def entry_loader_def entry_config_valid(1))

lemma old_client_reloads:
  obtains c' where "client_ReloadFromDisk toy_crypto calm_env entry_loader toy_nf (\<lambda>_. None) True old_client = (None, c')"
proof -
  obtain rt eps where f: "resolve calm_env world0 entry_config = Inr rt" "UpstreamEndpoints entry_config = Inr eps"
    "list_all (endpoint_ok toy_crypto calm_env) eps" "network_ok calm_env entry_config"
    by (rule entry_config_facts)
  let ?m = "sample_manager Failover"
  obtain x w1 where "build_entries toy_crypto calm_env entry_config (nr_RemoteFlags rt) eps (m_nextId ?m) [] [] world0 = (Inr x, w1)"
    using build_entries_calm [OF calm_env_calm f(4,3)] by (rule succeedsE)
  then have "\<exists>c'. client_ReloadFromDisk toy_crypto calm_env entry_loader toy_nf (\<lambda>_. None) True old_client = (None, c')"
    using f(1,2) by (cases x) (simp add: client_ReloadFromDisk_def old_client_def NewClient_def mgr_Reload_def split: prod.split)
  with that show thesis by blast
qed

text \<open>
  A reload that starts the new redirect before the goroutine of the old one has removed its rules:
  when that goroutine runs, the chain the new redirect has just installed is gone, though the new
  redirect still counts as applied.
\<close>

definition raced :: "string \<Rightarrow> toy_tables" where
  "raced = (case start_all toy_nf (\<lambda>_. None) entry_config toy_fw of (s1, _, fw1) \<Rightarrow>
     (case start_all toy_nf (\<lambda>_. None) entry_config fw1 of (s2, _, fw2) \<Rightarrow> snd (removeRules toy_nf (the (sc_range s1)) fw2)))"

lemma reload_race:
  "case start_all toy_nf (\<lambda>_. None) entry_config toy_fw of (s1, e1, fw1) \<Rightarrow>
     (case start_all toy_nf (\<lambda>_. None) entry_config fw1 of (s2, e2, fw2) \<Rightarrow>
        e1 = [] \<and> e2 = [] \<and> map_option rm_applied (sc_range s2) = Some True)"
  "toy_view raced ''iptables'' ''nat'' chainName = None"
  by code_simp+

section \<open>Properties\<close>







end
