(* ===== verification/App.thy ===== *)
theory App
  imports ClientProc
begin

text \<open>
  The program around the two processes: \<^verbatim>\<open>internal/platform\<close>, \<^verbatim>\<open>internal/app\<close> and
  \<^verbatim>\<open>cmd/paqetpremium/main.go\<close>. A command loads the configuration and starts a process, asks a
  running one to reload through its admin server, or makes a one-shot check or measurement. Formatted
  text is kept as its format and arguments, in the type of the error values. Command line parsing
  (cobra), the HTTP client and the file system are parameters; contexts only cancel a process, which
  the step relations of the processes do at any time.
\<close>

section \<open>Platform\<close>

record runtime =
  rt_GOOS :: string
  rt_GOARCH :: string

definition TargetOS :: string where "TargetOS = ''linux''"

definition IsLinux :: "runtime \<Rightarrow> bool" where
  "IsLinux rt = (rt_GOOS rt = TargetOS)"

definition RequireLinux :: "runtime \<Rightarrow> error option" where
  "RequireLinux rt =
     (if \<not> IsLinux rt
      then Some (Errorf ''%s requires Linux (Iran/foreign VPS). current OS: %s/%s'' [''PaqetPremium'', rt_GOOS rt, rt_GOARCH rt])
      else None)"

section \<open>Running a configuration\<close>

datatype slog_level = LevelDebug | LevelInfo | LevelWarn | LevelError

record App =
  ap_cfg :: Config
  ap_log :: slog_level

definition app_New :: "Config \<Rightarrow> App" where
  "app_New cfg =
     \<lparr>ap_cfg = cfg,
      ap_log = (if c_LogLevel cfg = ''debug'' then LevelDebug
                else if c_LogLevel cfg = ''warn'' then LevelWarn
                else if c_LogLevel cfg = ''error'' then LevelError
                else LevelInfo)\<rparr>"

datatype 'fw process = ServerProcess "'fw proc" | ClientProcess "'fw client"

text \<open>\<^verbatim>\<open>Run\<close> until its process waits for connections: an error, or the process, with the world and firewall then.\<close>

definition app_Run ::
  "runtime \<Rightarrow> crypto \<Rightarrow> env \<Rightarrow> 'fw netfilter \<Rightarrow> (int \<Rightarrow> error option) \<Rightarrow> App \<Rightarrow> string \<Rightarrow> world \<Rightarrow> Collector \<Rightarrow> 'fw
     \<Rightarrow> 'fw process res \<times> world \<times> 'fw" where
  "app_Run rt cr env nf listen a cfgPath w c fw =
     (case RequireLinux rt of
        Some e \<Rightarrow> (Inl e, w, fw)
      | None \<Rightarrow>
          let cfg = ap_cfg a
          in if c_Role cfg = RoleServer then
               (case server_start cr env nf (NewServer cfg cfgPath) w c fw of
                  (Inl e, w1, fw1) \<Rightarrow> (Inl e, w1, fw1)
                | (Inr p, w1, fw1) \<Rightarrow> (Inr (ServerProcess p), w1, fw1))
             else if c_Role cfg = RoleClient then
               (case client_start cr env nf listen (NewClient cfg cfgPath w fw) of
                  (Some e, cl) \<Rightarrow> (Inl e, cl_w cl, cl_fw cl)
                | (None, cl) \<Rightarrow> (Inr (ClientProcess cl), cl_w cl, cl_fw cl))
             else (Inl (Errorf ''unsupported role: %s'' [c_Role cfg]), w, fw))"

definition RunConfig ::
  "runtime \<Rightarrow> crypto \<Rightarrow> env \<Rightarrow> loader \<Rightarrow> 'fw netfilter \<Rightarrow> (int \<Rightarrow> error option) \<Rightarrow> string \<Rightarrow> world \<Rightarrow> Collector \<Rightarrow> 'fw
     \<Rightarrow> 'fw process res \<times> world \<times> 'fw" where
  "RunConfig rt cr env ld nf listen path w c fw =
     (case load_config ld path of
        Inl e \<Rightarrow> (Inl e, w, fw)
      | Inr cfg \<Rightarrow> app_Run rt cr env nf listen (app_New cfg) path w c fw)"

section \<open>Reloading a running process\<close>

text \<open>
  The HTTP client: \<open>hc_new\<close> is the error of making a request for a URL, \<open>hc_Do\<close> sends a request to a
  URL and gives the status code and the body of the answer.
\<close>

record http_client =
  hc_new :: "string \<Rightarrow> error option"
  hc_Do :: "string \<Rightarrow> http_request \<Rightarrow> (nat \<times> string) res"

definition reload_url :: "AdminConfig \<Rightarrow> string" where
  "reload_url a = ''http://'' @ ad_Listen a @ ''/api/v1/reload''"

definition reload_request :: "AdminConfig \<Rightarrow> http_request" where
  "reload_request a =
     \<lparr>rq_Method = ''POST'', rq_Path = ''/api/v1/reload'', rq_TokenQuery = [],
      rq_Authorization = (if ad_Token a \<noteq> [] then ''Bearer '' @ ad_Token a else []), rq_Body = [], rq_BodyErr = None\<rparr>"

definition ReloadConfig :: "loader \<Rightarrow> http_client \<Rightarrow> string \<Rightarrow> error option" where
  "ReloadConfig ld hc path =
     (case load_config ld path of
        Inl e \<Rightarrow> Some e
      | Inr cfg \<Rightarrow>
     (case c_Admin cfg of
        None \<Rightarrow> Some (Errorf ''admin.listen not set in config; use: kill -HUP $(pidof paqetpremium)'' [])
      | Some a \<Rightarrow>
          if ad_Listen a = [] then Some (Errorf ''admin.listen not set in config; use: kill -HUP $(pidof paqetpremium)'' [])
          else (case hc_new hc (reload_url a) of
                  Some e \<Rightarrow> Some e
                | None \<Rightarrow>
               (case hc_Do hc (reload_url a) (reload_request a) of
                  Inl e \<Rightarrow> Some (Wrapf ''reload request: %w'' [] e)
                | Inr (code, body) \<Rightarrow>
                    if code \<noteq> 200 then Some (Errorf ''reload failed (%d): %s'' [itoa (int code), trim_space body])
                    else None))))"

section \<open>Measuring\<close>

record BenchLine =
  bl_Name :: string
  bl_Addr :: string
  bl_RTT :: int
  bl_OK :: bool
  bl_Err :: "error option"

definition bench_line :: "BenchResult \<Rightarrow> BenchLine" where
  "bench_line r = \<lparr>bl_Name = br_Name r, bl_Addr = br_Addr r, bl_RTT = br_RTT r, bl_OK = br_OK r, bl_Err = br_Error r\<rparr>"

definition app_BenchConfig ::
  "runtime \<Rightarrow> crypto \<Rightarrow> env \<Rightarrow> loader \<Rightarrow> string \<Rightarrow> world \<Rightarrow> BenchLine list res \<times> world" where
  "app_BenchConfig rt cr env ld path w =
     (case RequireLinux rt of
        Some e \<Rightarrow> (Inl e, w)
      | None \<Rightarrow>
     (case load_config ld path of
        Inl e \<Rightarrow> (Inl e, w)
      | Inr cfg \<Rightarrow>
          if c_Role cfg \<noteq> RoleClient then (Inl (Errorf ''bench is only supported for client role'' []), w)
          else (case tunnel_BenchConfig cr env cfg w of
                  (Inl e, w1) \<Rightarrow> (Inl e, w1)
                | (Inr rs, w1) \<Rightarrow> (Inr (map bench_line rs), w1))))"

section \<open>Testing a configuration\<close>

text \<open>A line of the report: its prefix and its message.\<close>

datatype check = OK error | FAIL error | SKIP error

record TestResult =
  tr_OK :: bool
  tr_Checks :: "check list"

definition add_check :: "bool \<Rightarrow> error \<Rightarrow> TestResult \<Rightarrow> TestResult" where
  "add_check ok msg res =
     (if ok then res\<lparr>tr_Checks := tr_Checks res @ [OK msg]\<rparr>
      else res\<lparr>tr_OK := False, tr_Checks := tr_Checks res @ [FAIL msg]\<rparr>)"

definition macOK :: "string \<Rightarrow> bool" where
  "macOK v = (let parts = split_on CHR '':'' v in length parts = 6 \<and> list_all (\<lambda>p. length p = 2) parts)"

text \<open>\<^verbatim>\<open>net.HardwareAddr.String\<close>\<close>

definition mac_string :: "byte list \<Rightarrow> string" where
  "mac_string m = join_with CHR '':'' (map (\<lambda>b. [hex_digit (unat b div 16), hex_digit (unat b mod 16)]) m)"

definition test_network :: "runtime \<Rightarrow> NetworkRuntime res \<Rightarrow> Config \<Rightarrow> TestResult \<Rightarrow> TestResult" where
  "test_network rt net cfg res =
     (if IsLinux rt then
        (case net of
           Inl e \<Rightarrow> add_check False e res
         | Inr n \<Rightarrow>
             add_check True (Errorf ''pcap local port: %d'' [itoa (nr_Port n)])
            (add_check (macOK (mac_string (nr_RouterMAC n))) (Errorf ''router mac: %s'' [mac_string (nr_RouterMAC n)])
            (add_check True (Errorf ''ipv4 bind: %s'' [udp_addr_string (nr_IPv4 n)])
            (add_check True (Errorf ''network interface: %s'' [if_Name (nr_Interface n)]) res))))
      else
        add_check (macOK (ip_RouterMAC (n_IPv4 (c_Network cfg)))) (Errorf ''router mac: %s'' [ip_RouterMAC (n_IPv4 (c_Network cfg))])
       (add_check True (Errorf ''ipv4 addr: %s'' [ip_Addr (n_IPv4 (c_Network cfg))])
       (add_check True (Errorf ''network interface: %s (resolve on Linux VPS)'' [n_Interface (c_Network cfg)]) res)))"

definition test_transport :: "Config \<Rightarrow> TestResult \<Rightarrow> TestResult" where
  "test_transport cfg res =
     add_check True (Errorf ''transport protocol: %s'' [t_Protocol (c_Transport cfg)])
    (add_check (k_Key (t_KCP (c_Transport cfg)) \<noteq> []) (Errorf ''transport secret key present'' []) res)"

definition test_server :: "Config \<Rightarrow> TestResult \<Rightarrow> TestResult" where
  "test_server cfg res =
     (if c_Role cfg = RoleServer then
        (case ListenUDPAddr cfg of
           Inl e \<Rightarrow> add_check False e res
         | Inr _ \<Rightarrow> add_check True (Errorf ''listen: %s'' [the (c_Listen cfg)]) res)
      else res)"

definition upstream_lines :: "Config \<Rightarrow> TestResult \<Rightarrow> TestResult" where
  "upstream_lines cfg res =
     (case UpstreamEndpoints cfg of
        Inl _ \<Rightarrow> res
      | Inr eps \<Rightarrow> foldl (\<lambda>r ep. add_check True (Errorf ''upstream %s -> %s (%s)''
                     [ep_Name ep, udp_addr_string (ep_Addr ep), t_Protocol (ep_Transport ep)]) r) res eps)"

definition test_client :: "Config \<Rightarrow> TestResult \<Rightarrow> TestResult" where
  "test_client cfg res =
     (if c_Role cfg = RoleClient then
        (let res1 = (case c_Upstream cfg of
                       None \<Rightarrow> res
                     | Some u \<Rightarrow> upstream_lines cfg (add_check (u_Servers u \<noteq> [])
                         (Errorf ''upstream servers: %d'' [itoa (int (length (u_Servers u)))]) res));
             res2 = (case RemoteServerAddr cfg of
                       Inl e \<Rightarrow> add_check False e res1
                     | Inr a \<Rightarrow> add_check True (Errorf ''remote server: %s'' [udp_addr_string a]) res1);
             rangeOn = (case c_Range cfg of None \<Rightarrow> False | Some r \<Rightarrow> r_Enabled r);
             res3 = add_check (c_Forward cfg \<noteq> [] \<or> c_SOCKS5 cfg \<noteq> [] \<or> rangeOn)
                      (Errorf ''forward/socks5/range rules configured'' []) res2
         in case c_Range cfg of
              None \<Rightarrow> res3
            | Some r \<Rightarrow> if rangeOn then add_check True (Errorf ''range mode: ports=%s target=%s redirect=:%d''
                          [r_Ports r, r_TargetHost r, itoa (r_RedirectPort r)]) res3 else res3)
      else res)"

definition test_admin :: "NetworkRuntime \<Rightarrow> Config \<Rightarrow> TestResult \<Rightarrow> TestResult" where
  "test_admin n cfg res =
     (let res1 = (case nr_IPv6 n of
                    None \<Rightarrow> res
                  | Some a \<Rightarrow> add_check True (Errorf ''ipv6 bind: %s'' [udp_addr_string a]) res)
      in case c_Admin cfg of
           None \<Rightarrow> res1
         | Some a \<Rightarrow>
             if ad_Listen a \<noteq> [] then
               (let res2 = add_check True (Errorf ''admin listen: %s'' [ad_Listen a]) res1
                in if ad_Token a \<noteq> [] then add_check True (Errorf ''admin token configured'' []) res2 else res2)
             else res1)"

definition test_ping :: "crypto \<Rightarrow> env \<Rightarrow> Config \<Rightarrow> world \<Rightarrow> TestResult \<Rightarrow> TestResult \<times> world" where
  "test_ping cr env cfg w res =
     (if c_Role cfg = RoleClient then
        (case tunnel_PingConfig cr env cfg w of
           (Some e, w1) \<Rightarrow> (add_check False (Wrapf ''kcp ping: %v'' [] e) res, w1)
         | (None, w1) \<Rightarrow> (add_check True (Errorf ''kcp ping: server reachable'' []) res, w1))
      else (res, w))"

definition test_live :: "crypto \<Rightarrow> env \<Rightarrow> NetworkRuntime \<Rightarrow> Config \<Rightarrow> world \<Rightarrow> TestResult \<Rightarrow> TestResult \<times> world" where
  "test_live cr env n cfg w res =
     (case Probe env (int (w_clock w)) n w of
        (Some e, w1) \<Rightarrow> test_ping cr env cfg w1 (add_check False (Wrapf ''pcap probe: %v'' [] e) res)
      | (None, w1) \<Rightarrow> test_ping cr env cfg w1
                        (add_check True (Errorf ''pcap probe: interface accessible (root required at runtime)'' []) res))"

text \<open>The lines before the live checks.\<close>

definition test_static :: "runtime \<Rightarrow> NetworkRuntime res \<Rightarrow> Config \<Rightarrow> TestResult" where
  "test_static rt net cfg =
     test_client cfg (test_server cfg (test_transport cfg (test_network rt net cfg
       (add_check True (Errorf ''config loaded (role=%s, name=%s)'' [c_Role cfg, c_Name cfg])
          \<lparr>tr_OK = True, tr_Checks = []\<rparr>))))"

definition TestConfig :: "runtime \<Rightarrow> crypto \<Rightarrow> env \<Rightarrow> loader \<Rightarrow> string \<Rightarrow> world \<Rightarrow> TestResult res \<times> world" where
  "TestConfig rt cr env ld path w =
     (case load_config ld path of
        Inl e \<Rightarrow> (Inl e, w)
      | Inr cfg \<Rightarrow>
          let net = resolve env w cfg; res = test_static rt net cfg
          in if IsLinux rt then
               (case net of
                  Inl _ \<Rightarrow> (Inr res, w)
                | Inr n \<Rightarrow> (case test_live cr env n cfg w (test_admin n cfg res) of (res1, w1) \<Rightarrow> (Inr res1, w1)))
             else (Inr (res\<lparr>tr_Checks := tr_Checks res @ [SKIP (Errorf ''pcap/kcp live checks (Linux VPS only)'' [])]\<rparr>), w))"

section \<open>Commands\<close>

text \<open>What a command prints. \<^verbatim>\<open>Round(time.Millisecond)\<close> rounds half away from zero; a measured time is not negative.\<close>

datatype line = Text error | CheckLine check | BenchLineOK string string int | BenchLineFail string string "error option"

definition round_ms :: "int \<Rightarrow> int" where
  "round_ms d =
     (let m = 1000000; r = d mod m
      in if r + r < m then d - r else d + m - r)"

definition bench_text :: "BenchLine \<Rightarrow> line" where
  "bench_text l = (if bl_OK l then BenchLineOK (bl_Name l) (bl_Addr l) (round_ms (bl_RTT l))
                   else BenchLineFail (bl_Name l) (bl_Addr l) (bl_Err l))"

definition path_required :: error where
  "path_required = Errorf ''config path is required (-c)'' []"

definition version_Run :: "line list" where
  "version_Run = [Text (Errorf ''%s %s'' [version_Name, version_Version])]"

definition run_RunE ::
  "runtime \<Rightarrow> crypto \<Rightarrow> env \<Rightarrow> loader \<Rightarrow> 'fw netfilter \<Rightarrow> (int \<Rightarrow> error option) \<Rightarrow> string \<Rightarrow> world \<Rightarrow> Collector \<Rightarrow> 'fw
     \<Rightarrow> 'fw process res \<times> world \<times> 'fw" where
  "run_RunE rt cr env ld nf listen configPath w c fw =
     (if configPath = [] then (Inl path_required, w, fw) else RunConfig rt cr env ld nf listen configPath w c fw)"

definition test_RunE ::
  "runtime \<Rightarrow> crypto \<Rightarrow> env \<Rightarrow> loader \<Rightarrow> string \<Rightarrow> world \<Rightarrow> error option \<times> line list \<times> world" where
  "test_RunE rt cr env ld configPath w =
     (if configPath = [] then (Some path_required, [], w)
      else case TestConfig rt cr env ld configPath w of
             (Inl e, w1) \<Rightarrow> (Some e, [], w1)
           | (Inr res, w1) \<Rightarrow>
               (if \<not> tr_OK res then Some (Errorf ''one or more checks failed'' []) else None, map CheckLine (tr_Checks res), w1))"

definition reload_RunE :: "loader \<Rightarrow> http_client \<Rightarrow> string \<Rightarrow> error option" where
  "reload_RunE ld hc configPath = (if configPath = [] then Some path_required else ReloadConfig ld hc configPath)"

definition bench_RunE ::
  "runtime \<Rightarrow> crypto \<Rightarrow> env \<Rightarrow> loader \<Rightarrow> string \<Rightarrow> world \<Rightarrow> error option \<times> line list \<times> world" where
  "bench_RunE rt cr env ld configPath w =
     (if configPath = [] then (Some path_required, [], w)
      else case app_BenchConfig rt cr env ld configPath w of
             (Inl e, w1) \<Rightarrow> (Some e, [], w1)
           | (Inr ls, w1) \<Rightarrow> (None, map bench_text ls, w1))"

datatype command = CmdRun string | CmdVersion | CmdTest string | CmdReload string | CmdBench string

text \<open>How the program ends, with what it has printed; a started process ends when it is cancelled.\<close>

datatype 'fw outcome = Exit nat "line list" | Serving "'fw process"

definition exit_code :: "error option \<Rightarrow> nat" where
  "exit_code e = (if e = None then 0 else 1)"

text \<open>\<open>parsed\<close> is what cobra makes of the command line: the command with its flag, or its error.\<close>

definition main ::
  "runtime \<Rightarrow> crypto \<Rightarrow> env \<Rightarrow> loader \<Rightarrow> http_client \<Rightarrow> 'fw netfilter \<Rightarrow> (int \<Rightarrow> error option) \<Rightarrow> command res
     \<Rightarrow> world \<Rightarrow> Collector \<Rightarrow> 'fw \<Rightarrow> 'fw outcome \<times> world \<times> 'fw" where
  "main rt cr env ld hc nf listen parsed w c fw =
     (case parsed of
        Inl e \<Rightarrow> (Exit 1 [], w, fw)
      | Inr (CmdRun path) \<Rightarrow>
          (case run_RunE rt cr env ld nf listen path w c fw of
             (Inl e, w1, fw1) \<Rightarrow> (Exit 1 [], w1, fw1)
           | (Inr p, w1, fw1) \<Rightarrow> (Serving p, w1, fw1))
      | Inr CmdVersion \<Rightarrow> (Exit 0 version_Run, w, fw)
      | Inr (CmdTest path) \<Rightarrow>
          (case test_RunE rt cr env ld path w of (e, ls, w1) \<Rightarrow> (Exit (exit_code e) ls, w1, fw))
      | Inr (CmdReload path) \<Rightarrow> (Exit (exit_code (reload_RunE ld hc path)) [], w, fw)
      | Inr (CmdBench path) \<Rightarrow>
          (case bench_RunE rt cr env ld path w of (e, ls, w1) \<Rightarrow> (Exit (exit_code e) ls, w1, fw)))"

section \<open>Reports\<close>

text \<open>The verdict of a report agrees with its lines.\<close>

definition report_ok :: "TestResult \<Rightarrow> bool" where
  "report_ok r \<longleftrightarrow> (tr_OK r \<longleftrightarrow> (\<forall>c \<in> set (tr_Checks r). \<forall>m. c \<noteq> FAIL m))"

lemma report_add [simp]: "report_ok r \<Longrightarrow> report_ok (add_check ok m r)"
  by (auto simp: report_ok_def add_check_def)

lemma OK_add [simp]: "tr_OK (add_check ok m r) \<longleftrightarrow> ok \<and> tr_OK r"
  by (simp add: add_check_def)

lemma foldl_report: "(\<And>r x. P r \<Longrightarrow> P (f r x)) \<Longrightarrow> P r \<Longrightarrow> P (foldl f r xs)"
  by (induction xs arbitrary: r) auto

lemma foldl_OK: "tr_OK (foldl (\<lambda>r x. add_check True (f x) r) r xs) = tr_OK r"
  by (induction xs arbitrary: r) auto

lemma report_stages:
  assumes "report_ok r"
  shows "report_ok (test_network rt net cfg r)" "report_ok (test_transport cfg r)" "report_ok (test_server cfg r)"
    "report_ok (upstream_lines cfg r)" "report_ok (test_admin n cfg r)"
    "report_ok (fst (test_ping cr env cfg w r))" "report_ok (fst (test_live cr env n cfg w r))"
proof -
  show u: "report_ok (upstream_lines cfg r)"
    using assms by (auto simp: upstream_lines_def intro: foldl_report [where P = report_ok] split: sum.split)
  have p: "report_ok (fst (test_ping cr env cfg w r))" if "report_ok r" for w r
    using that by (simp add: test_ping_def split: prod.split option.split)
  show "report_ok (fst (test_ping cr env cfg w r))" by (rule p) (rule assms)
  show "report_ok (fst (test_live cr env n cfg w r))" using assms p by (simp add: test_live_def split: prod.split option.split)
qed (use assms in \<open>simp_all add: test_network_def test_transport_def test_server_def test_admin_def Let_def split: sum.split option.split\<close>)

lemma report_client: "report_ok r \<Longrightarrow> report_ok (test_client cfg r)"
  by (simp add: test_client_def Let_def report_stages(4) split: option.split sum.split)

lemma OK_stages:
  "tr_OK (test_network rt net cfg r) \<Longrightarrow> tr_OK r" "tr_OK (test_transport cfg r) \<Longrightarrow> tr_OK r"
  "tr_OK (test_server cfg r) \<Longrightarrow> tr_OK r" "tr_OK (test_client cfg r) \<Longrightarrow> tr_OK r"
  "tr_OK (test_admin n cfg r) = tr_OK r"
  by (auto simp: test_network_def test_transport_def test_server_def test_client_def test_admin_def upstream_lines_def foldl_OK Let_def
      split: if_splits sum.splits option.splits)

lemma report_static: "report_ok (test_static rt net cfg)"
proof -
  have "report_ok \<lparr>tr_OK = True, tr_Checks = []\<rparr>" by (simp add: report_ok_def)
  then show ?thesis unfolding test_static_def by (intro report_client report_stages(1-3) report_add)
qed

lemma test_static_resolved:
  assumes "tr_OK (test_static rt net cfg)" and "IsLinux rt"
  obtains n where "net = Inr n"
proof -
  from assms(1) have "tr_OK (test_network rt net cfg (add_check True (Errorf ''config loaded (role=%s, name=%s)'' [c_Role cfg, c_Name cfg])
      \<lparr>tr_OK = True, tr_Checks = []\<rparr>))"
    unfolding test_static_def by (blast dest: OK_stages(2-4))
  with assms(2) that show thesis by (cases net) (simp_all add: test_network_def)
qed

lemma TestConfig_report:
  assumes "TestConfig rt cr env ld path w = (Inr res, w')"
  shows "report_ok res"
proof -
  obtain cfg where cfg: "load_config ld path = Inr cfg" using assms by (auto simp: TestConfig_def split: sum.splits)
  let ?net = "resolve env w cfg"
  let ?r = "test_static rt ?net cfg"
  have live: "report_ok (fst (test_live cr env n cfg w (test_admin n cfg ?r)))" for n
    by (intro report_stages(7,5) report_static)
  consider "res = ?r" | n where "res = fst (test_live cr env n cfg w (test_admin n cfg ?r))"
    | m where "res = ?r\<lparr>tr_Checks := tr_Checks ?r @ [SKIP m]\<rparr>"
    using assms cfg by (auto simp: TestConfig_def Let_def split: if_splits sum.splits prod.splits) (metis fst_conv)
  then show ?thesis
  proof cases
    case 3
    have "report_ok ?r" by (rule report_static)
    then show ?thesis unfolding 3 by (auto simp: report_ok_def)
  qed (simp_all only: report_static live)
qed

text \<open>A good live check: the interface could be opened, and the servers of a client answered.\<close>

lemma test_live_OK:
  assumes "test_live cr env n cfg w r = (res, w')" and "tr_OK res"
  obtains w1 where "Probe env (int (w_clock w)) n w = (None, w1)"
    and "c_Role cfg = RoleClient \<Longrightarrow> tunnel_PingConfig cr env cfg w1 = (None, w')"
  using assms by (auto simp: test_live_def test_ping_def split: prod.splits option.splits if_splits)

lemma TestConfig_good:
  assumes "TestConfig rt cr env ld path w = (Inr res, w')" and "tr_OK res" and "IsLinux rt" and "load_config ld path = Inr cfg"
  obtains n w1 where "resolve env w cfg = Inr n" and "Probe env (int (w_clock w)) n w = (None, w1)"
    and "c_Role cfg = RoleClient \<Longrightarrow> tunnel_PingConfig cr env cfg w1 = (None, w')"
proof -
  let ?r = "test_static rt (resolve env w cfg) cfg"
  obtain n where n: "resolve env w cfg = Inr n"
  proof (cases "resolve env w cfg")
    case (Inl e)
    with assms have "tr_OK ?r" by (simp add: TestConfig_def)
    then show thesis using assms(3) that by (rule test_static_resolved)
  qed (use that in simp)
  then have "test_live cr env n cfg w (test_admin n cfg ?r) = (res, w')"
    using assms by (auto simp: TestConfig_def Let_def split: prod.splits)
  then show thesis using assms(2) by (rule test_live_OK) (rule that [OF n])
qed

text \<open>The MAC check accepts the printed form of six-byte addresses only, though eight- and twenty-byte ones resolve.\<close>

lemma macOK_mac_string: "macOK (mac_string m) \<longleftrightarrow> length m = 6"
proof (cases "m = []")
  case False
  have "CHR '':'' \<notin> set [hex_digit (unat b div 16), hex_digit (unat b mod 16)]" for b :: byte
  proof -
    have d: "hex_digit n \<noteq> CHR '':''" if "n < 16" for n
    proof -
      have "of_char (hex_digit n) \<noteq> (58 :: nat)" using that by (auto simp: hex_digit_def)
      then show ?thesis by force
    qed
    have "unat b < 256" using unsigned_less [of b, where ?'a = nat] by simp
    then have "unat b div 16 < 16" "unat b mod 16 < 16" by simp_all
    with d [THEN not_sym] show ?thesis by simp
  qed
  with False have "split_on CHR '':'' (mac_string m) = map (\<lambda>b. [hex_digit (unat b div 16), hex_digit (unat b mod 16)]) m"
    unfolding mac_string_def by (intro split_on_join) auto
  then show ?thesis by (simp add: macOK_def list_all_iff)
qed (simp add: mac_string_def macOK_def)

text \<open>What the checks of a client before the live ones come down to.\<close>

lemma test_static_client:
  assumes "IsLinux rt" and "c_Role cfg = RoleClient"
  shows "tr_OK (test_static rt (Inr n) cfg) \<longleftrightarrow> length (nr_RouterMAC n) = 6 \<and> k_Key (t_KCP (c_Transport cfg)) \<noteq> []
    \<and> (\<forall>u. c_Upstream cfg = Some u \<longrightarrow> u_Servers u \<noteq> []) \<and> \<not> is_err (RemoteServerAddr cfg)
    \<and> (c_Forward cfg \<noteq> [] \<or> c_SOCKS5 cfg \<noteq> [] \<or> (\<exists>r. c_Range cfg = Some r \<and> r_Enabled r))"
proof -
  have "RoleClient \<noteq> RoleServer" by (simp add: RoleClient_def RoleServer_def)
  with assms show ?thesis
    by (auto simp: test_static_def test_network_def test_transport_def test_server_def test_client_def upstream_lines_def foldl_OK
        macOK_mac_string Let_def is_err_def split: option.splits sum.splits)
qed

section \<open>One-shot commands release what they open\<close>

text \<open>The endpoints of a configuration file have different names.\<close>

definition names_differ :: "Config \<Rightarrow> bool" where
  "names_differ cfg \<longleftrightarrow> (\<forall>eps. UpstreamEndpoints cfg = Inr eps \<longrightarrow> distinct (map ep_Name eps))"

lemma NewManager_opens:
  assumes "world_ok w" and "names_differ cfg"
  obtains (failed) e w1 where "NewManager cr env cfg flags w = (Inl e, w1)" and "w_open w1 = w_open w"
  | (made) m w1 eps where "NewManager cr env cfg flags w = (Inr m, w1)" and "UpstreamEndpoints cfg = Inr eps" and "fresh_shape eps m"
      and "w_open (snd (mgr_Close m w1)) = w_open w" and "world_ok w1"
proof (cases "UpstreamEndpoints cfg")
  case (Inl e)
  then show thesis using failed by (simp add: NewManager_def)
next
  case (Inr eps)
  then have d: "distinct (map ep_Name eps)" using assms(2) by (simp add: names_differ_def)
  note f = NewManager_fresh [OF assms(1) Inr d, of cr env flags]
  obtain r w1 where n: "NewManager cr env cfg flags w = (r, w1)" by fastforce
  show thesis
  proof (cases r)
    case (Inr m)
    have "world_ok w1"
      using NewManager_sys_ok [OF assms(1) \<open>UpstreamEndpoints cfg = Inr eps\<close> d] n Inr by (auto simp: sys_ok_def covered_def)
    with made f n Inr \<open>UpstreamEndpoints cfg = Inr eps\<close> show thesis by auto
  qed (use failed f n in auto)
qed

lemma PingConfig_opens:
  assumes "world_ok w" and "names_differ cfg"
  shows "w_open (snd (tunnel_PingConfig cr env cfg w)) = w_open w"
proof (cases "resolve env w cfg")
  case (Inr rt)
  from assms show ?thesis
  proof (cases rule: NewManager_opens [where cr = cr and env = env and flags = "nr_RemoteFlags rt"])
    case (made m w1 eps)
    obtain e m1 w2 where p: "pingAll env (map fst (m_entries m)) m w1 = (e, m1, w2)" by (metis prod_cases3)
    from pingAll_shape [OF made(5) p] shape_close [of m1 m w2 w1] made Inr p show ?thesis
      by (simp add: tunnel_PingConfig_def unchanged_def)
  qed (use Inr in \<open>simp add: tunnel_PingConfig_def\<close>)
qed (simp add: tunnel_PingConfig_def)

lemma BenchConfig_opens:
  assumes "world_ok w" and "names_differ cfg" and "tunnel_BenchConfig cr env cfg w = (r, w')"
  shows "w_open w' = w_open w"
    and "r = Inr rs \<Longrightarrow> \<exists>eps. UpstreamEndpoints cfg = Inr eps
           \<and> map (\<lambda>r. (br_Name r, br_Addr r)) rs = map (\<lambda>ep. (ep_Name ep, udp_addr_string (ep_Addr ep))) eps"
proof -
  have "w_open w' = w_open w \<and> (r = Inr rs \<longrightarrow> (\<exists>eps. UpstreamEndpoints cfg = Inr eps
           \<and> map (\<lambda>r. (br_Name r, br_Addr r)) rs = map (\<lambda>ep. (ep_Name ep, udp_addr_string (ep_Addr ep))) eps))"
  proof (cases "resolve env w cfg")
    case (Inr rt)
    from assms(1,2) show ?thesis
    proof (cases rule: NewManager_opens [where cr = cr and env = env and flags = "nr_RemoteFlags rt"])
      case (made m w1 eps)
      obtain rs0 m1 w2 where b: "bench_loop env (m_order m) m w1 = (rs0, m1, w2)" by (metis prod_cases3)
      note bs = bench_loop_shape [OF made(5) b]
      have d: "distinct (map ep_Name eps)" using assms(2) made(2) by (simp add: names_differ_def)
      have "map (\<lambda>(n, e). (n, en_ep e)) (m_entries m) = map (\<lambda>ep. (ep_Name ep, ep)) eps" and o: "m_order m = map ep_Name eps"
        using made(3) by (auto simp: fresh_shape_def)
      then have "map (\<lambda>(n, x). (n, fst x)) (shape m) = map (\<lambda>ep. (ep_Name ep, ep)) eps"
        by (simp add: shape_def comp_def case_prod_unfold)
      then have sm: "map_option fst (map_of (shape m) n) = map_of (map (\<lambda>ep. (ep_Name ep, ep)) eps) n" for n
        using fun_cong [OF map_of_map [of fst "shape m"], of n] by simp
      have "map_option fst (map_of (shape m) (ep_Name ep)) = Some ep" if "ep \<in> set eps" for ep
        unfolding sm using that d by (intro map_of_is_SomeI) (auto simp: comp_def)
      then have "concat (map (\<lambda>n. case map_of (shape m) n of None \<Rightarrow> [] | Some (ep, _) \<Rightarrow> [(n, udp_addr_string (ep_Addr ep))]) (m_order m))
          = concat (map (\<lambda>ep. [(ep_Name ep, udp_addr_string (ep_Addr ep))]) eps)"
        unfolding o map_map by (intro arg_cong [of _ _ concat] map_cong) fastforce+
      with bs shape_close [of m1 m w2 w1] made b assms(3) Inr show ?thesis
        by (auto simp: tunnel_BenchConfig_def Benchmark_def unchanged_def)
    qed (use Inr assms(3) in \<open>auto simp: tunnel_BenchConfig_def\<close>)
  qed (use assms(3) in \<open>auto simp: tunnel_BenchConfig_def\<close>)
  then show "w_open w' = w_open w"
    and "r = Inr rs \<Longrightarrow> \<exists>eps. UpstreamEndpoints cfg = Inr eps
           \<and> map (\<lambda>r. (br_Name r, br_Addr r)) rs = map (\<lambda>ep. (ep_Name ep, udp_addr_string (ep_Addr ep))) eps" by simp_all
qed

section \<open>Tests that pass\<close>

text \<open>A test passes on such a network when the configuration is usable.\<close>

lemma PingConfig_calm:
  assumes "calm env" and "answers env" and "world_ok w" and "resolve env w cfg = Inr n"
    and "network_ok env cfg" and "UpstreamEndpoints cfg = Inr eps" and "distinct (map ep_Name eps)" and "list_all (endpoint_ok cr env) eps"
  shows "fst (tunnel_PingConfig cr env cfg w) = None"
proof -
  obtain m w1 where m: "NewManager cr env cfg (nr_RemoteFlags n) w = (Inr m, w1)"
    using NewManager_calm [OF assms(1,5,6,8)] by (rule succeedsE)
  have "world_ok w1" using NewManager_sys_ok [OF assms(3,6,7) m] by (simp add: sys_ok_def covered_def)
  moreover have "\<forall>(n, e) \<in> set (m_entries m). Alive (en_pool e) w1"
    using NewManager_fresh [OF assms(3,6,7), of cr env "nr_RemoteFlags n"] m by simp
  ultimately have "fst (pingAll env (map fst (m_entries m)) m w1) = None"
    using assms(1,2) by (intro pingAll_calm) auto
  with m assms(4) show ?thesis by (auto simp: tunnel_PingConfig_def split: prod.split)
qed

lemma TestConfig_calm:
  assumes "calm env" and "answers env" and "world_ok w" and "resolve env w cfg = Inr n"
    and "network_ok env cfg" and "UpstreamEndpoints cfg = Inr eps" and "distinct (map ep_Name eps)" and "list_all (endpoint_ok cr env) eps"
    and "load_config ld path = Inr cfg" and "tr_OK (test_static rt (Inr n) cfg)" and "\<And>w. e_rnd env w = e_rnd env world0"
  shows "\<exists>res w'. TestConfig rt cr env ld path w = (Inr res, w') \<and> tr_OK res"
proof -
  obtain c w1 where "pcap_Open env (int (w_clock w)) n w = (Inr c, w1)" using pcap_Open_calm [OF assms(1)] by (rule succeedsE)
  then obtain w2 where p: "Probe env (int (w_clock w)) n w = (None, w2)" by (simp add: Probe_def)
  have "world_ok w2" using Probe_unchanged [OF assms(3) p] by (simp add: unchanged_def)
  moreover have "resolve env w2 cfg = Inr n" using assms(4) unfolding assms(11) [of w] assms(11) [of w2] .
  ultimately obtain w3 where g: "tunnel_PingConfig cr env cfg w2 = (None, w3)"
    using PingConfig_calm [OF assms(1,2) _ _ assms(5-8)] by (metis prod.collapse)
  then have "tr_OK (fst (test_live cr env n cfg w (test_admin n cfg (test_static rt (Inr n) cfg))))"
    using assms(10) p by (simp add: test_live_def test_ping_def OK_stages(5))
  with assms(4,9,10) show ?thesis by (auto simp: TestConfig_def Let_def split: prod.split)
qed

section \<open>The reload request\<close>

text \<open>A token without blanks around it.\<close>

definition tidy :: "string \<Rightarrow> bool" where
  "tidy t \<longleftrightarrow> (t = [] \<or> graphic (hd t) \<and> graphic (last t))"

lemma reload_request_authorized:
  assumes "tidy (ad_Token a)"
  shows "auth (ad_Token a) h (reload_request a) fs = h (reload_request a) fs"
proof (cases "ad_Token a = []")
  case False
  with assms have t: "trim_space (ad_Token a) = ad_Token a"
    and "trim_space (''Bearer '' @ ad_Token a) = ''Bearer '' @ ad_Token a"
    by (auto simp: tidy_def graphic_def intro!: trim_space_visible)
  with False show ?thesis by (simp add: auth_def authorized_def reload_request_def has_prefix_def)
qed (simp add: auth_def)

text \<open>What the HTTP client of the reload command sees of an answer.\<close>

definition reply_code :: "reply \<Rightarrow> nat" where
  "reply_code r = (case r of HttpError n _ \<Rightarrow> n | _ \<Rightarrow> 200)"

text \<open>An HTTP client connected to an admin server: every request it makes is answered by that server.\<close>

definition connected :: "yaml \<Rightarrow> os \<Rightarrow> Collector \<Rightarrow> AdminServer \<Rightarrow> files \<Rightarrow> (reply \<Rightarrow> string) \<Rightarrow> string \<Rightarrow> http_client \<Rightarrow> bool" where
  "connected ym os mt s fs body url hc \<longleftrightarrow> hc_new hc url = None
     \<and> (\<forall>rq. hc_Do hc url rq = (case serve_http ym os mt s rq fs of
           None \<Rightarrow> Inl (Ext ''connection refused'')
         | Some (r, _) \<Rightarrow> Inr (reply_code r, body r)))"

lemma serve_reload:
  assumes "as_cfg s = Some a" and "\<not> blank (ad_Listen a)" and "tidy (ad_Token a)" and "as_reload s = Some reload"
  shows "serve_http ym os mt s (reload_request a) fs
    = Some (case reload fs of Some e \<Rightarrow> HttpError 500 e | None \<Rightarrow> JSONResult ''reloaded'', fs)"
proof -
  have p: "rq_Path (reload_request a) = ''/api/v1/reload''" "rq_Method (reload_request a) = ''POST''"
    by (simp_all add: reload_request_def)
  show ?thesis using assms by (simp add: serve_http_def p reload_request_authorized handleReload_def)
qed

section \<open>A sample\<close>

definition linux :: runtime where "linux = \<lparr>rt_GOOS = ''linux'', rt_GOARCH = ''amd64''\<rparr>"

text \<open>An HTTP client whose requests an admin server answers.\<close>

definition wired :: "yaml \<Rightarrow> os \<Rightarrow> Collector \<Rightarrow> AdminServer \<Rightarrow> files \<Rightarrow> (reply \<Rightarrow> string) \<Rightarrow> http_client" where
  "wired ym os mt s fs body =
     \<lparr>hc_new = (\<lambda>_. None),
      hc_Do = (\<lambda>url rq. case serve_http ym os mt s rq fs of
                 None \<Rightarrow> Inl (Ext ''connection refused'') | Some (r, _) \<Rightarrow> Inr (reply_code r, body r))\<rparr>"

lemma connected_wired: "connected ym os mt s fs body url (wired ym os mt s fs body)"
  by (simp add: connected_def wired_def)

text \<open>A network that answers every ping.\<close>

definition pong_env :: env where "pong_env = calm_env\<lparr>e_input := (\<lambda>_ _. [Pong])\<rparr>"

lemma pong_env_ok: "calm pong_env" "answers pong_env" "e_rnd pong_env w = 7"
  by (simp_all add: pong_env_def calm_env_def calm_def answers_def message_def)

lemma entry_names_differ: "names_differ entry_config"
proof -
  obtain rt eps where "UpstreamEndpoints entry_config = Inr eps" "map ep_Name eps = [''fra'', ''ams'']" by (rule entry_config_facts)
  then show ?thesis by (simp add: names_differ_def)
qed

lemma sample_test_passes:
  "\<exists>res w'. TestConfig linux toy_crypto pong_env entry_loader ''c'' world0 = (Inr res, w') \<and> tr_OK res"
proof -
  obtain rt eps where f: "resolve calm_env world0 entry_config = Inr rt" "UpstreamEndpoints entry_config = Inr eps"
    "list_all (endpoint_ok toy_crypto calm_env) eps" "map ep_Name eps = [''fra'', ''ams'']" "network_ok calm_env entry_config"
    by (rule entry_config_facts)
  have same: "e_iface pong_env = e_iface calm_env" "e_pd pong_env = e_pd calm_env" "e_rnd pong_env = e_rnd calm_env"
    by (simp_all add: pong_env_def)
  have "endpoint_ok toy_crypto pong_env = endpoint_ok toy_crypto calm_env" by (rule ext) (simp add: endpoint_ok_def same)
  then have n: "network_ok pong_env entry_config" "list_all (endpoint_ok toy_crypto pong_env) eps"
    using f(3,5) by (simp_all add: network_ok_def same)
  have "case resolve calm_env world0 entry_config of Inl _ \<Rightarrow> False | Inr rt \<Rightarrow> length (nr_RouterMAC rt) = 6" by code_simp
  with f(1) have mac: "length (nr_RouterMAC rt) = 6" by simp
  have c: "c_Role entry_config = RoleClient" "IsLinux linux" "k_Key (t_KCP (c_Transport entry_config)) \<noteq> []"
    "c_Forward entry_config \<noteq> []" "\<not> is_err (RemoteServerAddr entry_config)"
    "map_option (\<lambda>u. u_Servers u = []) (c_Upstream entry_config) = Some False" by code_simp+
  have s: "tr_OK (test_static linux (Inr rt) entry_config)"
    unfolding test_static_client [OF c(2,1)] using mac c(3-6) by auto
  have r: "resolve pong_env world0 entry_config = Inr rt" unfolding same by (rule f(1))
  have d: "distinct (map ep_Name eps)" unfolding f(4) by simp
  show ?thesis
    by (rule TestConfig_calm [OF pong_env_ok(1,2) world0_ok r n(1) f(2) d n(2) entry_loader_loads s])
      (simp only: pong_env_ok(3))
qed

section \<open>Properties\<close>





text \<open>C17. The one-shot commands leave nothing behind: when the servers of the file have different names,
  testing and measuring end with exactly the objects open that were open before, on every path; and
  a measurement reports every configured server once, in order, with its address.\<close>

theorem oneshot_leaves_nothing:
  assumes "world_ok w" and "\<forall>cfg. load_config ld path = Inr cfg \<longrightarrow> names_differ cfg"
  shows "w_open (snd (TestConfig rt cr env ld path w)) = w_open w
    \<and> (case app_BenchConfig rt cr env ld path w of (r, w') \<Rightarrow> w_open w' = w_open w
         \<and> (\<forall>ls. r = Inr ls \<longrightarrow> (\<exists>cfg eps. load_config ld path = Inr cfg \<and> UpstreamEndpoints cfg = Inr eps
              \<and> map (\<lambda>l. (bl_Name l, bl_Addr l)) ls = map (\<lambda>ep. (ep_Name ep, udp_addr_string (ep_Addr ep))) eps)))"
proof (cases "load_config ld path")
  case (Inr cfg)
  with assms(2) have d: "names_differ cfg" by simp
  have "w_open (snd (test_live cr env n cfg w r)) = w_open w" for n r
  proof -
    obtain e w1 where p: "Probe env (int (w_clock w)) n w = (e, w1)" by fastforce
    have "unchanged w w1" by (rule Probe_unchanged [OF assms(1) p])
    then have w1: "w_open w1 = w_open w" "world_ok w1" by (simp_all add: unchanged_def)
    have "w_open (snd (test_ping cr env cfg w1 r)) = w_open w1" for r
      using PingConfig_opens [OF w1(2) d, of cr env] by (auto simp: test_ping_def split: prod.split option.split)
    with w1(1) p show ?thesis by (cases e) (simp_all add: test_live_def)
  qed
  then have "w_open (snd (TestConfig rt cr env ld path w)) = w_open w"
    using Inr by (simp add: TestConfig_def Let_def split: sum.split prod.split) (metis snd_conv)
  moreover obtain r w' where b: "app_BenchConfig rt cr env ld path w = (r, w')" by fastforce
  moreover have "w_open w' = w_open w \<and> (\<forall>ls. r = Inr ls \<longrightarrow> (\<exists>eps. UpstreamEndpoints cfg = Inr eps
      \<and> map (\<lambda>l. (bl_Name l, bl_Addr l)) ls = map (\<lambda>ep. (ep_Name ep, udp_addr_string (ep_Addr ep))) eps))"
  proof (cases "RequireLinux rt = None \<and> c_Role cfg = RoleClient")
    case True
    obtain x w1 where t: "tunnel_BenchConfig cr env cfg w = (x, w1)" by fastforce
    with True b Inr have w': "w' = w1" "r = (case x of Inl e \<Rightarrow> Inl e | Inr rs \<Rightarrow> Inr (map bench_line rs))"
      by (auto simp: app_BenchConfig_def split: sum.splits)
    show ?thesis using BenchConfig_opens [OF assms(1) d t] unfolding w'
      by (cases x) (auto simp: bench_line_def comp_def)
  qed (use b Inr in \<open>auto simp: app_BenchConfig_def split: option.splits if_splits\<close>)
  ultimately show ?thesis using Inr by simp
qed (auto simp: TestConfig_def app_BenchConfig_def split: option.split)

theorem oneshot_leaves_nothing_witness:
  "w_open (snd (TestConfig linux toy_crypto pong_env entry_loader ''c'' world0)) = []
     \<and> w_open (snd (app_BenchConfig linux toy_crypto pong_env entry_loader ''c'' world0)) = []"
proof -
  have "\<forall>cfg. load_config entry_loader ''c'' = Inr cfg \<longrightarrow> names_differ cfg" using entry_names_differ by simp
  from oneshot_leaves_nothing [OF world0_ok this, of linux toy_crypto pong_env] show ?thesis
    by (auto simp: world0_def split: prod.splits)
qed

end
