(* ===== verification/Spec2Isabelle.thy ===== *)
theory Spec2Isabelle
  imports Supervision EndToEnd App
begin

text \<open>
  A verification library for PaqetPremium, a tunnel between a client (the entry) and one or more
  servers (the exits). Traffic is carried by KCP or QUIC sessions, multiplexed by smux, inside TCP
  segments the program crafts itself and sends and receives through pcap, past the kernel's own TCP.

  \<^bold>\<open>The program.\<close> A command of \<^verbatim>\<open>cmd/paqetpremium\<close> loads a configuration (\<^verbatim>\<open>internal/config\<close>) and lets
  \<^verbatim>\<open>internal/app\<close> run it, test it, measure it, or ask a running process to reload it. A client
  (\<^verbatim>\<open>internal/tunnel/client.go\<close>) holds an upstream manager (\<^verbatim>\<open>internal/upstream\<close>) with one session pool
  (\<^verbatim>\<open>internal/tunnelpool\<close>) per server, dialled over \<^verbatim>\<open>internal/transport\<close> and \<^verbatim>\<open>internal/pcap\<close>; its listeners
  (\<^verbatim>\<open>internal/forward\<close>, \<^verbatim>\<open>internal/socks5\<close>, \<^verbatim>\<open>internal/redirect\<close>) open a stream or a datagram flow per
  connection through the manager. A server (\<^verbatim>\<open>internal/tunnel/server.go\<close>) accepts sessions and serves every stream: it
  reads the request (\<^verbatim>\<open>internal/protocol\<close>), dials the target and relays, or opens a flow of its datagram
  hub. Both processes install firewall rules (\<^verbatim>\<open>internal/iptables\<close>), count traffic
  (\<^verbatim>\<open>internal/metrics\<close>) and may run an admin server (\<^verbatim>\<open>internal/admin\<close>).

  \<^bold>\<open>Theories and sources.\<close> Definitions carry the names of the source, with a prefix where two packages
  use the same one.
  \<^item> \<open>Prelude\<close>: errors as values, results, Go strings, numbers at 64 bits, the library functions used.
  \<^item> \<open>Netaddr\<close> (\<^verbatim>\<open>net\<close>, \<^verbatim>\<open>tunneladdr/addr.go\<close>), \<open>Netutil\<close> (\<^verbatim>\<open>netutil/tcpflags.go\<close>, \<^verbatim>\<open>cycle.go\<close>), \<open>Rotor\<close>:
    addresses, flag sets, choosing in turn.
  \<^item> \<open>Protocol\<close> (\<^verbatim>\<open>protocol/*.go\<close>): datagram framing, flow headers, control messages, ping.
  \<^item> \<open>Config\<close>, \<open>Resolve\<close> (\<^verbatim>\<open>config/config.go\<close>, \<^verbatim>\<open>upstream.go\<close>, \<^verbatim>\<open>resolve.go\<close>): the file, its validation and
    defaults, endpoints, the network runtime.
  \<^item> \<open>World\<close>: the external objects the program opens (\<open>world\<close>) and how calls to them end (\<open>env\<close>).
  \<^item> \<open>Transport\<close> (\<^verbatim>\<open>transport/*.go\<close>), \<open>Pcap\<close> (\<^verbatim>\<open>pcap/*_linux.go\<close>), \<open>Tunnelpool\<close> (\<^verbatim>\<open>tunnelpool/*.go\<close>):
    keys and options, sessions and listeners, packet connections and segments, session pools.
  \<^item> \<open>Upstream\<close> (\<^verbatim>\<open>upstream/*.go\<close>), \<open>Supervision\<close>, \<open>Liveness\<close>: the operations of the manager, the manager at work
    with its health loop, reconnects and reloads, and that it comes up on a network without faults.
  \<^item> \<open>Metrics\<close> (\<^verbatim>\<open>metrics/*.go\<close>, \<^verbatim>\<open>ioext/copy.go\<close>), \<open>Relay\<close> (\<^verbatim>\<open>tunnel/relay.go\<close>), \<open>Exit\<close> (\<^verbatim>\<open>tunnel/dgram.go\<close>, the
    sessions of \<^verbatim>\<open>tunnel/server.go\<close>): counters and copying, relays, the exit of one session.
  \<^item> \<open>Firewall\<close> (\<^verbatim>\<open>iptables/iptables_linux.go\<close>, the rules of \<^verbatim>\<open>redirect/redirect_linux.go\<close>).
  \<^item> \<open>Opener\<close>, \<open>Forward\<close>, \<open>Socks5\<close>, \<open>Redirect\<close>, \<open>Frontend\<close> (\<^verbatim>\<open>forward/*.go\<close>, \<^verbatim>\<open>socks5/server.go\<close>, the rest of
    \<^verbatim>\<open>redirect_linux.go\<close>): the listeners, what they ask of the tunnel, and all of them running together.
  \<^item> \<open>EndToEnd\<close>: a connection from its listener through the tunnel to its target and back.
  \<^item> \<open>Admin\<close> (\<^verbatim>\<open>admin/admin.go\<close>, \<^verbatim>\<open>config.go\<close>): routes, access, redaction and saving.
  \<^item> \<open>ServerProc\<close>, \<open>ClientProc\<close> (\<^verbatim>\<open>tunnel/server.go\<close>, \<^verbatim>\<open>tunnel/client.go\<close>): the two processes from start to return.
  \<^item> \<open>App\<close> (\<^verbatim>\<open>platform\<close>, \<^verbatim>\<open>app/*.go\<close>, \<^verbatim>\<open>cmd/paqetpremium/main.go\<close>): the commands.

  \<^bold>\<open>State and steps.\<close> A struct is a record with the struct's fields, without locks and loggers. A method is a
  function on that record and the \<open>world\<close>: the open handles with their owners, what was written to
  each, and a clock that advances with every call. External calls end as \<open>env\<close> says for the call and
  the world; theorems hold for every \<open>env\<close> unless they say that some call does not fail. Closing is
  idempotent and closes owned streams too. Goroutines are step relations: \<open>sys_step\<close> (the manager; a
  critical section or an unlocked dial is one step), \<open>front_step\<close> (listeners and connections above
  it), \<open>exit_step\<close> (one session of the exit), \<open>proc_step\<close> (the server), \<open>client_step\<close> (the client). A relay is a run over a
  list of events, one per step of its three goroutines, in any order; on the exit it runs within
  the step of its handler, since nothing else touches its stream and socket. In \<open>client_step\<close> the parameter \<open>early\<close>
  of a reload says whether the rules of the stopped redirects are already removed when the new
  redirect starts; the code leaves both orders possible.

  \<^bold>\<open>Interfaces.\<close> \<open>dialer\<close> and \<open>live_dialer\<close>: a constructor that fails leaves nothing open, and closing its result releases
  exactly what it opened; kept by packet connections, sessions, accepted sessions, pools and the manager's
  entries, and used to build each from the one below. \<open>pool_op\<close>: what every operation of a pool keeps, lifted to the manager.
  \<open>tunnel_opener\<close>: what a listener relies on; kept by the manager's default and bound openers. \<open>framing\<close>: a
  self-delimiting code; \<open>rotor\<close>: fair choice in turn (flag cycle, round robin, weighted choice);
  \<open>honest_writer\<close>: a writer that accounts for what it wrote, the basis of the copy loop.

  \<^bold>\<open>What is shown.\<close>
  \<^item> Nothing leaks: in every reachable state of the manager, of the listeners above it, of an exit session
    and of a server, each open object was open before or belongs to something still running; shutting
    down, and the one-shot commands, give everything back.
  \<^item> The manager keeps its books, runs at most one reconnect per server, swaps reconnected pools in
    correctly, comes up, starts all or nothing, and picks healthy servers fairly.
  \<^item> A process runs what its configuration says, through reloads that are all or nothing, and leaves the firewall as it was; the commands
    report the truth about it.
  \<^item> Traffic arrives: TCP and UDP forwards, SOCKS5 and redirected connections reach their target and come back
    unaltered, in order, with their boundaries; flows are not mixed up; counters are exact.
  \<^item> The parts do what they promise: firewall rules, certificate pinning, segments, saved and shown
    configurations, the access token, port bounds, validation.
  Lemmas that settle a deviation between the code and its intent (\<open>start_all_stops\<close>, \<open>reload_race\<close>,
  \<open>server_listen_failure_leaks\<close>, \<open>addrPairKey_collision\<close>, \<open>dead_flow_reused\<close>, \<open>override_key_shown\<close>, \<open>shard_sum_overflow\<close>,
  \<open>macOK_mac_string\<close>) stand beside the definitions they are about.

  \<^bold>\<open>Bounds and termination.\<close> All functions are total. \<open>run_jobs\<close> takes the number of rounds every job may run: after a
  close two are enough, which is proved. Pumps take the number of rounds until their context ends. After a cancel
  every connection ends within two of its steps and every listener within one. The session count and the 64-bit counters wrap as in Go;
  the exact count is stated for runs of fewer than \<open>2 ^ 64\<close> steps, the fairness results for
  counters that do not wrap within the turn considered.

  \<^bold>\<open>Parameters and hypotheses.\<close> The gob codec (it reads back what it wrote), YAML decoding (the same, where a configuration is shown and sent back), the
  cryptographic library (a key pair carries the certificate it was made from),
  libpcap, kcp-go, quic-go and smux (through \<open>env\<close>), the SOCKS5 library (\<open>socks_lib\<close>), the iptables binaries (\<open>documented\<close>,
  \<open>documented_match\<close>, \<open>reliable\<close>: the behaviour of their manual page), the file system (\<open>os\<close>, \<open>loader\<close>), the HTTP client
  and server, cobra, host name resolution. Every such hypothesis is met by a concrete function in a witness.

  \<^bold>\<open>Not modelled.\<close> Log lines and the text of durations; delivery of signals (a reload or the end of the context may
  happen at any time); read deadlines except as the end of a stream's input; the HTML of \<^verbatim>\<open>admin/dashboard.go\<close>; the
  stubs for other systems (\<^verbatim>\<open>stub.go\<close>), which only return errors and are not reached behind
  \<open>RequireLinux\<close>; data races on fields the code reads without their lock (reported among the findings where
  they matter).
\<close>

end
